(* ===== verification/Net_Prelude.thy ===== *)
theory Net_Prelude
  imports Main "HOL-Library.Word"
begin

unbundle bit_operations_syntax

text \<open>
  Shared vocabulary of the development: the widths of the machine integers, the outcome of code
  that can hit an \<^verbatim>\<open>assert\<close>, dereference a bad pointer or throw, block writes into a byte
  array, the byte image of a machine word in memory, and flag tests on words. The lemmas are
  generic; each component theory adds its own.
\<close>

subsection \<open>Collections of rules used by the component theories\<close>

named_theorems flag_simps \<open>evaluation of flag tests on machine words\<close>
named_theorems mem_simps \<open>memory images of machine words\<close>

subsection \<open>Machine types\<close>

type_synonym byte = "8 word"
type_synonym u16 = "16 word"
type_synonym u32 = "32 word"
type_synonym u64 = "64 word"

subsection \<open>Outcomes\<close>

text \<open>
  What stops a C++ function other than returning: a failed \<^verbatim>\<open>assert\<close>, a read or write outside
  an object, a null or dangling pointer, an exception nobody catches, other undefined
  behaviour, an answer of the kernel that its documentation rules out, and a loop that did not
  end within the bound given to the model.
\<close>

datatype cpp_error =
    AssertionFailure
  | OutOfBounds
  | BadPointer
  | UncaughtException
  | UndefinedBehaviour
  | KernelContract
  | NoReturn

type_synonym 'a outcome = "cpp_error + 'a"

fun and_then :: "'a outcome \<Rightarrow> ('a \<Rightarrow> 'b outcome) \<Rightarrow> 'b outcome" where
  "and_then (Inl e) f = Inl e"
| "and_then (Inr x) f = f x"

definition assert_then :: "bool \<Rightarrow> 'a outcome \<Rightarrow> 'a outcome" where
  "assert_then P m = (if P then m else Inl AssertionFailure)"

lemma assert_then_True [simp]: "P \<Longrightarrow> assert_then P m = m"
  by (simp add: assert_then_def)

lemma assert_then_False [simp]: "\<not> P \<Longrightarrow> assert_then P m = Inl AssertionFailure"
  by (simp add: assert_then_def)

lemma assert_then_eq_Inr: "assert_then P m = Inr x \<longleftrightarrow> P \<and> m = Inr x"
  by (simp add: assert_then_def)

lemma and_then_eq_Inr: "and_then m f = Inr y \<longleftrightarrow> (\<exists>x. m = Inr x \<and> f x = Inr y)"
  by (cases m) auto

lemma and_then_assoc: "and_then (and_then m f) g = and_then m (\<lambda>x. and_then (f x) g)"
  by (cases m) auto

lemma and_then_Inr_id [simp]: "and_then m Inr = m"
  by (cases m) auto

lemmas outcome_elims = assert_then_eq_Inr and_then_eq_Inr

subsection \<open>Block writes\<close>

text \<open>\<^verbatim>\<open>memcpy\<close>, \<^verbatim>\<open>memmove\<close> and \<^verbatim>\<open>std::copy\<close> of \<open>ys\<close> to index \<open>i\<close> of an array.\<close>

definition overwrite :: "'a list \<Rightarrow> nat \<Rightarrow> 'a list \<Rightarrow> 'a list" where
  "overwrite xs i ys = take i xs @ ys @ drop (i + length ys) xs"

lemma length_overwrite [simp]:
  "i + length ys \<le> length xs \<Longrightarrow> length (overwrite xs i ys) = length xs"
  by (simp add: overwrite_def)

lemma overwrite_Nil [simp]: "i \<le> length xs \<Longrightarrow> overwrite xs i [] = xs"
  by (simp add: overwrite_def)

lemma take_overwrite_before [simp]:
  "i + length ys \<le> length xs \<Longrightarrow> n \<le> i \<Longrightarrow> take n (overwrite xs i ys) = take n xs"
  by (simp add: overwrite_def min_def)

lemma take_overwrite [simp]:
  "i + length ys \<le> length xs \<Longrightarrow> take (i + length ys) (overwrite xs i ys) = take i xs @ ys"
  by (simp add: overwrite_def)

lemma drop_overwrite_mid:
  assumes "i + length ys \<le> length xs" and "j \<le> i"
  shows "take (i + length ys - j) (drop j (overwrite xs i ys)) = take (i - j) (drop j xs) @ ys"
proof -
  have "i + length ys - j = (i - j) + length ys" using assms by simp
  with assms show ?thesis by (simp add: overwrite_def drop_take)
qed

lemma overwrite_0: "length ys \<le> length xs \<Longrightarrow> take (length ys) (overwrite xs 0 ys) = ys"
  by (simp add: overwrite_def)

text \<open>A read of \<open>n\<close> elements from index \<open>i\<close> of an array.\<close>

definition read_mem :: "'a list \<Rightarrow> nat \<Rightarrow> nat \<Rightarrow> 'a list outcome" where
  "read_mem xs i n = (if i + n \<le> length xs then Inr (take n (drop i xs)) else Inl OutOfBounds)"

subsection \<open>Sequences of fallible calls\<close>

text \<open>The same writer called on each value of a list, and the same reader called \<open>n\<close> times.\<close>

fun put_list :: "('b \<Rightarrow> 'v \<Rightarrow> 'b outcome) \<Rightarrow> 'v list \<Rightarrow> 'b \<Rightarrow> 'b outcome" where
  "put_list put [] b = Inr b"
| "put_list put (v # vs) b = and_then (put b v) (put_list put vs)"

lemma put_list_append:
  "put_list f (xs @ ys) s = and_then (put_list f xs s) (put_list f ys)"
proof (induction xs arbitrary: s)
  case Nil
  then show ?case by simp
next
  case (Cons x xs)
  then have "put_list f (xs @ ys) = (\<lambda>s. and_then (put_list f xs s) (put_list f ys))" by blast
  then show ?case by (simp add: and_then_assoc)
qed

fun take_list :: "('b \<Rightarrow> ('v \<times> 'b) outcome) \<Rightarrow> nat \<Rightarrow> 'b \<Rightarrow> ('v list \<times> 'b) outcome" where
  "take_list get 0 b = Inr ([], b)"
| "take_list get (Suc n) b =
     and_then (get b) (\<lambda>(v, b'). and_then (take_list get n b') (\<lambda>(vs, b''). Inr (v # vs, b'')))"

subsection \<open>Words in memory\<close>

text \<open>
  \<open>store_le n w\<close> is the image of \<open>w\<close> in \<open>n\<close> bytes of memory on a little-endian host,
  \<open>load_le\<close> reads it back. A big-endian host has the same bytes in the opposite order.
\<close>

fun store_le :: "nat \<Rightarrow> 'a::len word \<Rightarrow> byte list" where
  "store_le 0 w = []"
| "store_le (Suc n) w = ucast w # store_le n (drop_bit 8 w)"

fun load_le :: "byte list \<Rightarrow> 'a::len word" where
  "load_le [] = 0"
| "load_le (b # bs) = ucast b OR push_bit 8 (load_le bs)"

lemma length_store_le [simp, mem_simps]: "length (store_le n w) = n"
  by (induction n arbitrary: w) auto

lemma load_store_le_take_bit: "load_le (store_le n w) = take_bit (8 * n) (w :: 'a::len word)"
proof (induction n arbitrary: w)
  case 0
  then show ?case by simp
next
  case (Suc n)
  have "ucast (ucast w :: byte) OR push_bit 8 (take_bit (8 * n) (drop_bit 8 w))
      = take_bit (8 * Suc n) w"
    by (rule bit_word_eqI) (auto simp: bit_simps)
  with Suc show ?case by simp
qed

lemma load_store_le [mem_simps]:
  "8 * n = LENGTH('a) \<Longrightarrow> load_le (store_le n w) = (w :: 'a::len word)"
  by (simp add: load_store_le_take_bit)

lemma store_le_take_bit:
  "8 * n \<le> m \<Longrightarrow> store_le n (take_bit m w) = store_le n (w :: 'a::len word)"
proof (induction n arbitrary: m w)
  case 0
  then show ?case by simp
next
  case (Suc n)
  have "ucast (take_bit m w) = (ucast w :: byte)"
    using Suc.prems by (intro bit_word_eqI) (auto simp: bit_simps)
  moreover have "drop_bit 8 (take_bit m w) = take_bit (m - 8) (drop_bit 8 w)"
    by (simp add: drop_bit_take_bit)
  ultimately show ?case using Suc by simp
qed

lemma store_load_le [mem_simps]:
  "8 * length bs \<le> LENGTH('a) \<Longrightarrow> store_le (length bs) (load_le bs :: 'a::len word) = bs"
proof (induction bs)
  case Nil
  then show ?case by simp
next
  case (Cons b bs)
  let ?w = "load_le bs :: 'a word"
  have "ucast (ucast b OR push_bit 8 ?w) = b"
    using Cons.prems by (intro bit_word_eqI) (auto simp: bit_simps)
  moreover have "drop_bit 8 (ucast b OR push_bit 8 ?w) = take_bit (LENGTH('a) - 8) ?w"
    by (rule bit_word_eqI) (auto simp: bit_simps dest: bit_imp_le_length)
  ultimately show ?case using Cons by (simp add: store_le_take_bit)
qed

subsection \<open>Flags\<close>

text \<open>The C++ test \<open>w & f\<close> used as a condition.\<close>

definition has_flag :: "'a::len word \<Rightarrow> 'a word \<Rightarrow> bool" where
  "has_flag w f \<longleftrightarrow> w AND f \<noteq> 0"

text \<open>\<^verbatim>\<open>futex_wait(word, expected)\<close> compares the low 32 bits.\<close>

definition futex_blocks :: "u64 \<Rightarrow> u64 \<Rightarrow> bool" where
  "futex_blocks st expected \<longleftrightarrow> (ucast st :: u32) = ucast expected"

end
