(* ===== verification/Byte_Buffer.thy ===== *)
theory Byte_Buffer
  imports Net_Prelude
begin

unbundle bit_operations_syntax

text \<open>
  The byte buffer of \<^verbatim>\<open>src/src/Memorys/Buffer.h\<close> with the byte-order helpers of
  \<^verbatim>\<open>src/src/Sockets/Endian.h\<close>. A buffer is a vector of bytes with a read and a write index;
  pointers into it are indices. Every \<^verbatim>\<open>assert\<close> is a branch. The abstract value of a buffer is
  its unread bytes, \<open>contents\<close>; the locales \<open>byte_queue\<close> and \<open>int_codec\<close> state what the
  clients of a buffer rely on, and the buffer is shown to be an instance of both.
\<close>

subsection \<open>Byte order (Endian.h)\<close>

datatype endian = LittleEndian | BigEndian

fun mem_image :: "endian \<Rightarrow> nat \<Rightarrow> 'a::len word \<Rightarrow> byte list" where
  "mem_image LittleEndian n w = store_le n w"
| "mem_image BigEndian n w = rev (store_le n w)"

fun mem_value :: "endian \<Rightarrow> byte list \<Rightarrow> 'a::len word" where
  "mem_value LittleEndian bs = load_le bs"
| "mem_value BigEndian bs = load_le (rev bs)"

definition bswap :: "nat \<Rightarrow> 'a::len word \<Rightarrow> 'a word" where
  "bswap n w = load_le (rev (store_le n w))"

definition hostToNetwork64 :: "endian \<Rightarrow> u64 \<Rightarrow> u64" where
  "hostToNetwork64 h host64 = (if h = LittleEndian then bswap 8 host64 else host64)"

definition hostToNetwork32 :: "endian \<Rightarrow> u32 \<Rightarrow> u32" where
  "hostToNetwork32 h host32 = (if h = LittleEndian then bswap 4 host32 else host32)"

definition hostToNetwork16 :: "endian \<Rightarrow> u16 \<Rightarrow> u16" where
  "hostToNetwork16 h host16 = (if h = LittleEndian then bswap 2 host16 else host16)"

definition networkToHost64 :: "endian \<Rightarrow> u64 \<Rightarrow> u64" where
  "networkToHost64 h net64 = (if h = LittleEndian then bswap 8 net64 else net64)"

definition networkToHost32 :: "endian \<Rightarrow> u32 \<Rightarrow> u32" where
  "networkToHost32 h net32 = (if h = LittleEndian then bswap 4 net32 else net32)"

definition networkToHost16 :: "endian \<Rightarrow> u16 \<Rightarrow> u16" where
  "networkToHost16 h net16 = (if h = LittleEndian then bswap 2 net16 else net16)"

subsection \<open>The buffer and its observers\<close>

record buffer =
  buf :: "byte list"
  read_idx :: nat
  write_idx :: nat

definition InitialSize :: nat where
  "InitialSize = 1024"

definition readableBytes :: "buffer \<Rightarrow> nat" where
  "readableBytes b = write_idx b - read_idx b"

definition writableBytes :: "buffer \<Rightarrow> nat" where
  "writableBytes b = length (buf b) - write_idx b"

definition readBegin :: "buffer \<Rightarrow> nat" where
  "readBegin b = read_idx b"

definition writeBegin :: "buffer \<Rightarrow> nat" where
  "writeBegin b = write_idx b"

definition Buffer :: "nat \<Rightarrow> buffer outcome" where
  "Buffer initSize =
     (let b = \<lparr>buf = replicate initSize 0, read_idx = 0, write_idx = 0\<rparr> in
      assert_then (readableBytes b = 0) (assert_then (writableBytes b = initSize) (Inr b)))"

text \<open>The move constructor: the new buffer and what is left of the old one.\<close>

definition Buffer_move :: "buffer \<Rightarrow> buffer \<times> buffer" where
  "Buffer_move other =
     (\<lparr>buf = buf other, read_idx = read_idx other, write_idx = write_idx other\<rparr>,
      other\<lparr>buf := []\<rparr>)"

definition swap_buf :: "buffer \<Rightarrow> buffer \<Rightarrow> buffer \<times> buffer" where
  "swap_buf b rhs =
     (\<lparr>buf = buf rhs, read_idx = read_idx rhs, write_idx = write_idx rhs\<rparr>,
      \<lparr>buf = buf b, read_idx = read_idx b, write_idx = write_idx b\<rparr>)"

text \<open>The unread bytes.\<close>

definition contents :: "buffer \<Rightarrow> byte list" where
  "contents b = take (readableBytes b) (drop (readBegin b) (buf b))"

subsection \<open>Searching\<close>

definition CRLF :: "byte list" where
  "CRLF = [13, 10]"

text \<open>\<^verbatim>\<open>memmem\<close> and \<^verbatim>\<open>memchr\<close> of the C library: the offset of the first match.\<close>

fun memmem :: "'a list \<Rightarrow> 'a list \<Rightarrow> nat option" where
  "memmem [] needle = (if needle = [] then Some 0 else None)"
| "memmem (x # xs) needle =
     (if take (length needle) (x # xs) = needle then Some 0
      else map_option Suc (memmem xs needle))"

fun memchr :: "'a list \<Rightarrow> 'a \<Rightarrow> nat option" where
  "memchr [] c = None"
| "memchr (x # xs) c = (if x = c then Some 0 else map_option Suc (memchr xs c))"

definition findCRLF :: "buffer \<Rightarrow> nat option" where
  "findCRLF b =
     (case memmem (take (readableBytes b) (drop (readBegin b) (buf b))) CRLF of
        None \<Rightarrow> None
      | Some k \<Rightarrow> (if readBegin b + k = writeBegin b then None else Some (readBegin b + k)))"

definition findCRLF_from :: "nat \<Rightarrow> buffer \<Rightarrow> nat option outcome" where
  "findCRLF_from start b =
     assert_then (readBegin b \<le> start) (assert_then (start \<le> writeBegin b)
       (Inr (case memmem (take (readableBytes b - (start - readBegin b)) (drop start (buf b))) CRLF of
               None \<Rightarrow> None
             | Some k \<Rightarrow> (if start + k = writeBegin b then None else Some (start + k)))))"

definition findEOL :: "buffer \<Rightarrow> nat option" where
  "findEOL b =
     map_option (\<lambda>k. readBegin b + k)
       (memchr (take (readableBytes b) (drop (readBegin b) (buf b))) 10)"

definition findEOL_from :: "nat \<Rightarrow> buffer \<Rightarrow> nat option outcome" where
  "findEOL_from start b =
     assert_then (start \<le> readBegin b) (assert_then (start \<le> writeBegin b)
       (Inr (map_option (\<lambda>k. start + k)
               (memchr (take (writeBegin b - start) (drop start (buf b))) 10))))"

subsection \<open>Consuming\<close>

definition retrieveAll :: "buffer \<Rightarrow> buffer" where
  "retrieveAll b = b\<lparr>read_idx := 0, write_idx := 0\<rparr>"

definition retrieve :: "nat \<Rightarrow> buffer \<Rightarrow> buffer outcome" where
  "retrieve len b =
     assert_then (len \<le> readableBytes b)
       (if len < readableBytes b then Inr (b\<lparr>read_idx := read_idx b + len\<rparr>)
        else Inr (retrieveAll b))"

definition retrieveUntil :: "nat \<Rightarrow> buffer \<Rightarrow> buffer outcome" where
  "retrieveUntil end_ptr b =
     assert_then (readBegin b \<le> end_ptr) (assert_then (end_ptr \<le> writeBegin b)
       (retrieve (end_ptr - readBegin b) b))"

definition retrieveAsString :: "nat \<Rightarrow> buffer \<Rightarrow> (byte list \<times> buffer) outcome" where
  "retrieveAsString len b =
     assert_then (len \<le> readableBytes b)
       (and_then (read_mem (buf b) (readBegin b) len)
          (\<lambda>result. and_then (retrieve len b) (\<lambda>b'. Inr (result, b'))))"

definition retrieveAllAsString :: "buffer \<Rightarrow> (byte list \<times> buffer) outcome" where
  "retrieveAllAsString b = retrieveAsString (readableBytes b) b"

definition retrieveInt64 :: "buffer \<Rightarrow> buffer outcome" where "retrieveInt64 b = retrieve 8 b"
definition retrieveInt32 :: "buffer \<Rightarrow> buffer outcome" where "retrieveInt32 b = retrieve 4 b"
definition retrieveInt16 :: "buffer \<Rightarrow> buffer outcome" where "retrieveInt16 b = retrieve 2 b"
definition retrieveInt8 :: "buffer \<Rightarrow> buffer outcome" where "retrieveInt8 b = retrieve 1 b"

subsection \<open>Producing\<close>

definition addCap :: "nat \<Rightarrow> buffer \<Rightarrow> buffer" where
  "addCap len b =
     (let v = (if read_idx b < len then buf b @ replicate len 0 else buf b);
          readable = write_idx b - read_idx b
      in \<lparr>buf = overwrite v 0 (take readable (drop (read_idx b) v)),
          read_idx = 0, write_idx = readable\<rparr>)"

definition ensureWritableBytes :: "nat \<Rightarrow> buffer \<Rightarrow> buffer outcome" where
  "ensureWritableBytes len b =
     (let b' = (if writableBytes b < len then addCap (len - writableBytes b) b else b) in
      assert_then (len \<le> writableBytes b') (Inr b'))"

definition hasWritten :: "nat \<Rightarrow> buffer \<Rightarrow> buffer outcome" where
  "hasWritten len b =
     assert_then (len \<le> writableBytes b) (Inr (b\<lparr>write_idx := write_idx b + len\<rparr>))"

definition unwrite :: "nat \<Rightarrow> buffer \<Rightarrow> buffer outcome" where
  "unwrite len b =
     assert_then (len \<le> readableBytes b) (Inr (b\<lparr>write_idx := write_idx b - len\<rparr>))"

definition buf_append :: "buffer \<Rightarrow> byte list \<Rightarrow> buffer outcome" where
  "buf_append b data =
     and_then (ensureWritableBytes (length data) b)
       (\<lambda>b'. hasWritten (length data) (b'\<lparr>buf := overwrite (buf b') (writeBegin b') data\<rparr>))"

definition appendInt64 :: "endian \<Rightarrow> buffer \<Rightarrow> u64 \<Rightarrow> buffer outcome" where
  "appendInt64 h b x = buf_append b (mem_image h 8 (hostToNetwork64 h x))"

definition appendInt32 :: "endian \<Rightarrow> buffer \<Rightarrow> u32 \<Rightarrow> buffer outcome" where
  "appendInt32 h b x = buf_append b (mem_image h 4 (hostToNetwork32 h x))"

definition appendInt16 :: "endian \<Rightarrow> buffer \<Rightarrow> u16 \<Rightarrow> buffer outcome" where
  "appendInt16 h b x = buf_append b (mem_image h 2 (hostToNetwork16 h x))"

definition appendInt8 :: "buffer \<Rightarrow> byte \<Rightarrow> buffer outcome" where
  "appendInt8 b x = buf_append b [x]"

subsection \<open>Reading integers\<close>

definition peekInt64 :: "endian \<Rightarrow> buffer \<Rightarrow> u64 outcome" where
  "peekInt64 h b =
     assert_then (8 \<le> readableBytes b)
       (and_then (read_mem (buf b) (readBegin b) 8)
          (\<lambda>bs. Inr (networkToHost64 h (mem_value h bs))))"

definition peekInt32 :: "endian \<Rightarrow> buffer \<Rightarrow> u32 outcome" where
  "peekInt32 h b =
     assert_then (4 \<le> readableBytes b)
       (and_then (read_mem (buf b) (readBegin b) 4)
          (\<lambda>bs. Inr (networkToHost32 h (mem_value h bs))))"

definition peekInt16 :: "endian \<Rightarrow> buffer \<Rightarrow> u16 outcome" where
  "peekInt16 h b =
     assert_then (2 \<le> readableBytes b)
       (and_then (read_mem (buf b) (readBegin b) 2)
          (\<lambda>bs. Inr (networkToHost16 h (mem_value h bs))))"

definition peekInt8 :: "buffer \<Rightarrow> byte outcome" where
  "peekInt8 b =
     assert_then (1 \<le> readableBytes b)
       (and_then (read_mem (buf b) (readBegin b) 1) (\<lambda>bs. Inr (hd bs)))"

definition readInt64 :: "endian \<Rightarrow> buffer \<Rightarrow> (u64 \<times> buffer) outcome" where
  "readInt64 h b =
     and_then (peekInt64 h b) (\<lambda>r. and_then (retrieveInt64 b) (\<lambda>b'. Inr (r, b')))"

definition readInt32 :: "endian \<Rightarrow> buffer \<Rightarrow> (u32 \<times> buffer) outcome" where
  "readInt32 h b =
     and_then (peekInt32 h b) (\<lambda>r. and_then (retrieveInt32 b) (\<lambda>b'. Inr (r, b')))"

definition readInt16 :: "endian \<Rightarrow> buffer \<Rightarrow> (u16 \<times> buffer) outcome" where
  "readInt16 h b =
     and_then (peekInt16 h b) (\<lambda>r. and_then (retrieveInt16 b) (\<lambda>b'. Inr (r, b')))"

definition readInt8 :: "buffer \<Rightarrow> (byte \<times> buffer) outcome" where
  "readInt8 b = and_then (peekInt8 b) (\<lambda>r. and_then (retrieveInt8 b) (\<lambda>b'. Inr (r, b')))"

subsection \<open>String pieces, shrinking, reading from a descriptor\<close>

text \<open>
  A \<^verbatim>\<open>stringPiece\<close> is a pointer and a size; \<open>toStringPiece\<close> narrows the size to \<^verbatim>\<open>int\<close>
  before it becomes a \<^verbatim>\<open>size_t\<close> again.
\<close>

record stringPiece =
  sp_data :: nat
  sp_size :: nat

definition int_size :: "nat \<Rightarrow> nat" where
  "int_size n = unat (word_of_int (sint (word_of_nat n :: u32)) :: u64)"

definition toStringPiece :: "buffer \<Rightarrow> stringPiece" where
  "toStringPiece b = \<lparr>sp_data = readBegin b, sp_size = int_size (readableBytes b)\<rparr>"

text \<open>
  \<^verbatim>\<open>stringPiece::operator==(const char*)\<close>: the characters of \<open>s\<close> (up to its terminator) are
  compared with the memory the piece points to; the size of the piece is not looked at.
\<close>

fun stringPiece_eq :: "byte list \<Rightarrow> byte list \<Rightarrow> bool outcome" where
  "stringPiece_eq a [] = Inr True"
| "stringPiece_eq [] (c # s) = Inl OutOfBounds"
| "stringPiece_eq (x # a) (c # s) = (if c \<noteq> x then Inr False else stringPiece_eq a s)"

definition shrink :: "nat \<Rightarrow> buffer \<Rightarrow> buffer outcome" where
  "shrink reserve b =
     and_then (Buffer InitialSize) (\<lambda>other.
     and_then (ensureWritableBytes (readableBytes b + reserve) other) (\<lambda>other.
     and_then (read_mem (buf b) (sp_data (toStringPiece b)) (sp_size (toStringPiece b))) (\<lambda>piece.
     and_then (buf_append other piece) (\<lambda>other. Inr (fst (swap_buf b other))))))"

text \<open>
  What \<^verbatim>\<open>readv\<close> answers: bytes it placed in the two blocks, in order, or a failure, with the
  value of \<^verbatim>\<open>SO_ERROR\<close> that \<^verbatim>\<open>getSocketError\<close> then reports. \<open>readv_blocks\<close> are the lengths
  offered; an answer with more bytes than that breaks the contract of \<^verbatim>\<open>readv\<close>.
\<close>

datatype readv_answer = ReadvData "byte list" | ReadvFailed int

definition extra_size :: nat where
  "extra_size = 65536"

definition readv_blocks :: "buffer \<Rightarrow> nat list" where
  "readv_blocks b =
     (if writableBytes b < extra_size then [writableBytes b, extra_size] else [writableBytes b])"

fun readFd :: "readv_answer \<Rightarrow> buffer \<Rightarrow> (int \<times> int option \<times> buffer) outcome" where
  "readFd (ReadvFailed so_error) b = Inr (-1, Some so_error, b)"
| "readFd (ReadvData bs) b =
     (if length bs > sum_list (readv_blocks b) then Inl KernelContract
      else if length bs \<le> writableBytes b then
        Inr (int (length bs), None,
             b\<lparr>buf := overwrite (buf b) (write_idx b) bs, write_idx := write_idx b + length bs\<rparr>)
      else
        (let writable = writableBytes b;
             b' = b\<lparr>buf := overwrite (buf b) (write_idx b) (take writable bs),
                     write_idx := length (buf b)\<rparr>
         in and_then (buf_append b' (drop writable bs))
              (\<lambda>b''. Inr (int (length bs), None, b''))))"


text \<open>A client that takes records of known lengths out of a queue of bytes.\<close>

fun get_frames_from ::
  "(nat \<Rightarrow> 'b \<Rightarrow> (byte list \<times> 'b) outcome) \<Rightarrow> nat list \<Rightarrow> 'b \<Rightarrow> (byte list list \<times> 'b) outcome"
where
  "get_frames_from get [] b = Inr ([], b)"
| "get_frames_from get (n # ns) b =
     and_then (get n b) (\<lambda>(d, b'). and_then (get_frames_from get ns b') (\<lambda>(ds, b''). Inr (d # ds, b'')))"

subsection \<open>Well-formedness and the abstract value\<close>

definition wf_buffer :: "buffer \<Rightarrow> bool" where
  "wf_buffer b \<longleftrightarrow> read_idx b \<le> write_idx b \<and> write_idx b \<le> length (buf b)"

lemmas buffer_defs =
  wf_buffer_def contents_def readableBytes_def writableBytes_def readBegin_def writeBegin_def

lemma length_contents [simp]: "wf_buffer b \<Longrightarrow> length (contents b) = readableBytes b"
  by (auto simp: buffer_defs)

lemma Buffer_ok [simp]:
  "Buffer n = Inr \<lparr>buf = replicate n 0, read_idx = 0, write_idx = 0\<rparr>"
  by (simp add: Buffer_def buffer_defs)

lemma read_mem_contents:
  "wf_buffer b \<Longrightarrow> n \<le> readableBytes b \<Longrightarrow>
    read_mem (buf b) (readBegin b) n = Inr (take n (contents b))"
  by (auto simp: read_mem_def buffer_defs min_def)

subsection \<open>Consuming\<close>

lemma retrieveAll_ok [simp]: "wf_buffer (retrieveAll b)" "contents (retrieveAll b) = []"
  by (simp_all add: retrieveAll_def buffer_defs)

lemma retrieve_ok:
  assumes "wf_buffer b" and "n \<le> readableBytes b"
  obtains b' where "retrieve n b = Inr b'" and "wf_buffer b'"
    and "contents b' = drop n (contents b)" and "buf b' = buf b"
proof (cases "n < readableBytes b")
  case True
  with assms have "contents (b\<lparr>read_idx := read_idx b + n\<rparr>) = drop n (contents b)"
    by (simp add: buffer_defs drop_take add.commute)
  moreover have "wf_buffer (b\<lparr>read_idx := read_idx b + n\<rparr>)"
    using assms True by (simp add: buffer_defs)
  moreover have "retrieve n b = Inr (b\<lparr>read_idx := read_idx b + n\<rparr>)"
    using assms True by (simp add: retrieve_def)
  ultimately show ?thesis using that by simp
next
  case False
  with assms have "drop n (contents b) = []" by simp
  moreover have "retrieve n b = Inr (retrieveAll b)"
    using assms False by (simp add: retrieve_def)
  moreover have "buf (retrieveAll b) = buf b" by (simp add: retrieveAll_def)
  ultimately show ?thesis using that [of "retrieveAll b"] by simp
qed

lemma retrieve_too_much: "readableBytes b < n \<Longrightarrow> retrieve n b = Inl AssertionFailure"
  by (simp add: retrieve_def)

lemma retrieveAsString_ok:
  assumes "wf_buffer b" and "n \<le> readableBytes b"
  obtains b' where "retrieveAsString n b = Inr (take n (contents b), b')" and "wf_buffer b'"
    and "contents b' = drop n (contents b)"
proof -
  obtain b' where "retrieve n b = Inr b'" "wf_buffer b'" "contents b' = drop n (contents b)"
    using retrieve_ok [OF assms] by blast
  with assms show ?thesis
    using that [of b'] by (simp add: retrieveAsString_def read_mem_contents)
qed

subsection \<open>Producing\<close>

lemma contents_def': "contents b = take (write_idx b - read_idx b) (drop (read_idx b) (buf b))"
  by (simp add: buffer_defs)

lemma addCap_ok:
  assumes "wf_buffer b"
  shows "wf_buffer (addCap n b)" and "contents (addCap n b) = contents b"
    and "length (buf (addCap n b)) = (if read_idx b < n then length (buf b) + n else length (buf b))"
    and "write_idx (addCap n b) = readableBytes b"
proof -
  define v where "v = (if read_idx b < n then buf b @ replicate n 0 else buf b)"
  have mid: "take (write_idx b - read_idx b) (drop (read_idx b) v) = contents b"
    using assms by (simp add: v_def buffer_defs)
  have eq: "addCap n b = \<lparr>buf = overwrite v 0 (contents b), read_idx = 0,
      write_idx = readableBytes b\<rparr>"
    by (simp only: addCap_def Let_def v_def [symmetric] mid) (simp add: readableBytes_def)
  have len: "readableBytes b \<le> length v"
    using assms by (auto simp: v_def buffer_defs)
  with assms have lv: "length (overwrite v 0 (contents b)) = length v"
    by simp
  show "wf_buffer (addCap n b)"
    using len lv by (simp add: eq wf_buffer_def)
  have "take (length (contents b)) (overwrite v 0 (contents b)) = contents b"
    using len assms by (intro overwrite_0) simp
  with assms show "contents (addCap n b) = contents b"
    by (simp add: eq contents_def' [of "\<lparr>buf = _, read_idx = _, write_idx = _\<rparr>"])
  show "length (buf (addCap n b)) =
      (if read_idx b < n then length (buf b) + n else length (buf b))"
    using lv by (simp add: eq v_def)
  show "write_idx (addCap n b) = readableBytes b"
    by (simp add: eq)
qed

lemma ensureWritableBytes_ok:
  assumes "wf_buffer b"
  obtains b' where "ensureWritableBytes n b = Inr b'" and "wf_buffer b'"
    and "contents b' = contents b" and "n \<le> writableBytes b'"
    and "length (buf b') = (if writableBytes b < n \<and> read_idx b < n - writableBytes b
        then length (buf b) + (n - writableBytes b) else length (buf b))"
proof (cases "writableBytes b < n")
  case True
  let ?b = "addCap (n - writableBytes b) b"
  have w: "n \<le> writableBytes ?b"
    using assms True addCap_ok(3,4) [OF assms, of "n - writableBytes b"]
    by (auto simp: writableBytes_def readableBytes_def wf_buffer_def split: if_splits)
  with True have "ensureWritableBytes n b = Inr ?b"
    by (simp add: ensureWritableBytes_def)
  then show ?thesis
    using that [of ?b] w addCap_ok [OF assms, of "n - writableBytes b"] True by simp
next
  case False
  then show ?thesis using that [of b] assms by (simp add: ensureWritableBytes_def)
qed

lemma writable_room:
  "wf_buffer b \<Longrightarrow> n \<le> writableBytes b \<longleftrightarrow> write_idx b + n \<le> length (buf b)"
  by (auto simp: buffer_defs)

lemma contents_written:
  assumes "wf_buffer b" and "length d \<le> writableBytes b"
  shows "wf_buffer (b\<lparr>buf := overwrite (buf b) (write_idx b) d, write_idx := write_idx b + length d\<rparr>)"
    and "contents (b\<lparr>buf := overwrite (buf b) (write_idx b) d, write_idx := write_idx b + length d\<rparr>)
      = contents b @ d"
proof -
  have room: "write_idx b + length d \<le> length (buf b)" and le: "read_idx b \<le> write_idx b"
    using assms by (simp_all add: writable_room) (simp add: wf_buffer_def)
  show "wf_buffer (b\<lparr>buf := overwrite (buf b) (write_idx b) d, write_idx := write_idx b + length d\<rparr>)"
    using room le by (simp add: wf_buffer_def)
  show "contents (b\<lparr>buf := overwrite (buf b) (write_idx b) d, write_idx := write_idx b + length d\<rparr>)
      = contents b @ d"
    using drop_overwrite_mid [OF room le] by (simp add: contents_def')
qed

lemma buf_append_ok:
  assumes "wf_buffer b"
  obtains b' where "buf_append b d = Inr b'" and "wf_buffer b'" and "contents b' = contents b @ d"
proof -
  obtain e where e: "ensureWritableBytes (length d) b = Inr e" "wf_buffer e"
      "contents e = contents b" "length d \<le> writableBytes e"
    using ensureWritableBytes_ok [OF assms] by metis
  let ?b = "e\<lparr>buf := overwrite (buf e) (write_idx e) d, write_idx := write_idx e + length d\<rparr>"
  have "buf_append b d = Inr ?b"
    using e writable_room [OF e(2), of "length d"]
    by (simp add: buf_append_def hasWritten_def writableBytes_def writeBegin_def)
  then show ?thesis using that [of ?b] contents_written [OF e(2,4)] e(3) by simp
qed

subsection \<open>What a client of a buffer relies on\<close>

text \<open>A queue of bytes: what is put comes out in the same order.\<close>

locale byte_queue =
  fixes inv :: "'b \<Rightarrow> bool"
    and abs :: "'b \<Rightarrow> byte list"
    and put :: "'b \<Rightarrow> byte list \<Rightarrow> 'b outcome"
    and get :: "nat \<Rightarrow> 'b \<Rightarrow> (byte list \<times> 'b) outcome"
  assumes put_law: "inv b \<Longrightarrow> \<exists>b'. put b d = Inr b' \<and> inv b' \<and> abs b' = abs b @ d"
    and get_law: "inv b \<Longrightarrow> n \<le> length (abs b) \<Longrightarrow>
      \<exists>b'. get n b = Inr (take n (abs b), b') \<and> inv b' \<and> abs b' = drop n (abs b)"
begin

lemma put_list_abs:
  "inv b \<Longrightarrow> \<exists>b'. put_list put ds b = Inr b' \<and> inv b' \<and> abs b' = abs b @ concat ds"
proof (induction ds arbitrary: b)
  case Nil
  then show ?case by simp
next
  case (Cons d ds)
  from put_law [OF Cons.prems, of d] obtain b1
    where "put b d = Inr b1" "inv b1" "abs b1 = abs b @ d" by blast
  with Cons.IH [of b1] show ?case by auto
qed

lemma get_frames:
  "inv b \<Longrightarrow> abs b = concat ds @ rest \<Longrightarrow>
    \<exists>b'. get_frames_from get (map length ds) b = Inr (ds, b') \<and> inv b' \<and> abs b' = rest"
proof (induction ds arbitrary: b)
  case Nil
  then show ?case by simp
next
  case (Cons d ds)
  then have "length d \<le> length (abs b)" by simp
  from get_law [OF Cons.prems(1) this] Cons.prems(2) obtain b1
    where "get (length d) b = Inr (d, b1)" "inv b1" "abs b1 = concat ds @ rest" by auto
  with Cons.IH [of b1] show ?case by auto
qed

end

text \<open>A writer and a reader of values over a queue of bytes.\<close>

locale int_codec =
  fixes inv :: "'b \<Rightarrow> bool"
    and abs :: "'b \<Rightarrow> byte list"
    and put_val :: "'b \<Rightarrow> 'v \<Rightarrow> 'b outcome"
    and get_val :: "'b \<Rightarrow> ('v \<times> 'b) outcome"
    and enc :: "'v \<Rightarrow> byte list"
  assumes put_val_law: "inv b \<Longrightarrow> \<exists>b'. put_val b v = Inr b' \<and> inv b' \<and> abs b' = abs b @ enc v"
    and get_val_law: "inv b \<Longrightarrow> abs b = enc v @ rest \<Longrightarrow>
      \<exists>b'. get_val b = Inr (v, b') \<and> inv b' \<and> abs b' = rest"
begin

lemma put_vals_abs:
  "inv b \<Longrightarrow> \<exists>b'. put_list put_val vs b = Inr b' \<and> inv b' \<and> abs b' = abs b @ concat (map enc vs)"
proof (induction vs arbitrary: b)
  case Nil
  then show ?case by simp
next
  case (Cons v vs)
  from put_val_law [OF Cons.prems, of v] obtain b1
    where "put_val b v = Inr b1" "inv b1" "abs b1 = abs b @ enc v" by blast
  with Cons.IH [of b1] show ?case by auto
qed

lemma get_vals:
  "inv b \<Longrightarrow> abs b = concat (map enc vs) @ rest \<Longrightarrow>
    \<exists>b'. take_list get_val (length vs) b = Inr (vs, b') \<and> inv b' \<and> abs b' = rest"
proof (induction vs arbitrary: b)
  case Nil
  then show ?case by simp
next
  case (Cons v vs)
  then have "abs b = enc v @ (concat (map enc vs) @ rest)" by simp
  from get_val_law [OF Cons.prems(1) this] obtain b1
    where "get_val b = Inr (v, b1)" "inv b1" "abs b1 = concat (map enc vs) @ rest" by blast
  with Cons.IH [of b1] show ?case by auto
qed

lemma vals_round_trip:
  assumes "inv b" and "abs b = []"
  shows "\<exists>b'. and_then (put_list put_val vs b) (take_list get_val (length vs)) = Inr (vs, b')
    \<and> inv b' \<and> abs b' = []"
  using put_vals_abs [OF assms(1), of vs] get_vals [of _ vs "[]"] assms(2) by fastforce

end

interpretation bq: byte_queue wf_buffer contents buf_append retrieveAsString
proof unfold_locales
  show "\<exists>b'. buf_append b d = Inr b' \<and> wf_buffer b' \<and> contents b' = contents b @ d"
    if "wf_buffer b" for b d
    using buf_append_ok [OF that] by metis
  show "\<exists>b'. retrieveAsString n b = Inr (take n (contents b), b') \<and> wf_buffer b'
      \<and> contents b' = drop n (contents b)"
    if "wf_buffer b" "n \<le> length (contents b)" for b n
    using retrieveAsString_ok [of b n] that by (metis length_contents)
qed

subsection \<open>Integers in network byte order\<close>

definition network_bytes :: "nat \<Rightarrow> 'a::len word \<Rightarrow> byte list" where
  "network_bytes n w = rev (store_le n w)"

lemma length_network_bytes [simp]: "length (network_bytes n w) = n"
  by (simp add: network_bytes_def)

lemma store_le_bswap:
  "8 * n = LENGTH('a) \<Longrightarrow> store_le n (bswap n (w :: 'a::len word)) = rev (store_le n w)"
  using store_load_le [of "rev (store_le n w)", where 'a = 'a] by (simp add: bswap_def)

lemma bswap_load:
  "8 * n = LENGTH('a) \<Longrightarrow> length bs = n \<Longrightarrow> bswap n (load_le bs :: 'a::len word) = load_le (rev bs)"
  using store_load_le [of bs, where 'a = 'a] by (simp add: bswap_def)

lemma mem_image_network:
  "8 * n = LENGTH('a) \<Longrightarrow>
    mem_image h n (if h = LittleEndian then bswap n w else w) = network_bytes n (w :: 'a::len word)"
  by (cases h) (simp_all add: store_le_bswap network_bytes_def)

lemma mem_value_network:
  assumes "8 * n = LENGTH('a)"
  shows "(if h = LittleEndian then bswap n (mem_value h (network_bytes n w))
      else mem_value h (network_bytes n w)) = (w :: 'a::len word)"
  using assms by (cases h) (simp_all add: bswap_load load_store_le network_bytes_def)

lemma contents_split:
  assumes "wf_buffer b" and "contents b = e @ rest"
  shows "length e \<le> readableBytes b" and "read_mem (buf b) (readBegin b) (length e) = Inr e"
proof -
  from assms show "length e \<le> readableBytes b"
    by (metis length_append length_contents le_add1)
  with assms show "read_mem (buf b) (readBegin b) (length e) = Inr e"
    by (simp add: read_mem_contents)
qed

lemma retrieve_split:
  assumes "wf_buffer b" and "contents b = e @ rest"
  obtains b' where "retrieve (length e) b = Inr b'" and "wf_buffer b'" and "contents b' = rest"
  using retrieve_ok [OF assms(1) contents_split(1) [OF assms]] assms(2) by (metis append_eq_conv_conj)

lemmas append_int_defs =
  appendInt64_def appendInt32_def appendInt16_def appendInt8_def
  hostToNetwork64_def hostToNetwork32_def hostToNetwork16_def

lemmas read_int_defs =
  readInt64_def readInt32_def readInt16_def readInt8_def
  peekInt64_def peekInt32_def peekInt16_def peekInt8_def
  retrieveInt64_def retrieveInt32_def retrieveInt16_def retrieveInt8_def
  networkToHost64_def networkToHost32_def networkToHost16_def

lemma append_int_network:
  "appendInt64 h b x = buf_append b (network_bytes 8 x)"
  "appendInt32 h b y = buf_append b (network_bytes 4 y)"
  "appendInt16 h b z = buf_append b (network_bytes 2 z)"
  by (simp_all add: append_int_defs mem_image_network)

lemma read_int_network:
  assumes "wf_buffer b"
  shows "contents b = network_bytes 8 x @ rest \<Longrightarrow>
      \<exists>b'. readInt64 h b = Inr (x, b') \<and> wf_buffer b' \<and> contents b' = rest"
    and "contents b = network_bytes 4 y @ rest \<Longrightarrow>
      \<exists>b'. readInt32 h b = Inr (y, b') \<and> wf_buffer b' \<and> contents b' = rest"
    and "contents b = network_bytes 2 z @ rest \<Longrightarrow>
      \<exists>b'. readInt16 h b = Inr (z, b') \<and> wf_buffer b' \<and> contents b' = rest"
    and "contents b = [c] @ rest \<Longrightarrow>
      \<exists>b'. readInt8 b = Inr (c, b') \<and> wf_buffer b' \<and> contents b' = rest"
  subgoal premises p
    using contents_split [OF assms p] mem_value_network [of 8 h x]
    by (auto simp: read_int_defs intro: retrieve_split [OF assms p])
  subgoal premises p
    using contents_split [OF assms p] mem_value_network [of 4 h y]
    by (auto simp: read_int_defs intro: retrieve_split [OF assms p])
  subgoal premises p
    using contents_split [OF assms p] mem_value_network [of 2 h z]
    by (auto simp: read_int_defs intro: retrieve_split [OF assms p])
  subgoal premises p
    using contents_split [OF assms p]
    by (auto simp: read_int_defs intro: retrieve_split [OF assms p])
  done

interpretation i64: int_codec wf_buffer contents "appendInt64 h" "readInt64 h" "network_bytes 8"
  for h
  by unfold_locales (simp_all add: append_int_network bq.put_law read_int_network(1))

interpretation i32: int_codec wf_buffer contents "appendInt32 h" "readInt32 h" "network_bytes 4"
  for h
  by unfold_locales (simp_all add: append_int_network bq.put_law read_int_network(2))

interpretation i16: int_codec wf_buffer contents "appendInt16 h" "readInt16 h" "network_bytes 2"
  for h
  by unfold_locales (simp_all add: append_int_network bq.put_law read_int_network(3))

interpretation i8: int_codec wf_buffer contents appendInt8 readInt8 "\<lambda>x. [x]"
  by unfold_locales (simp_all add: appendInt8_def bq.put_law read_int_network(4))


subsection \<open>Searching, shrinking and reading from a descriptor\<close>

lemma memmem_Some:
  "memmem hay needle = Some k \<Longrightarrow>
    k + length needle \<le> length hay \<and> take (length needle) (drop k hay) = needle
    \<and> (\<forall>j<k. take (length needle) (drop j hay) \<noteq> needle)"
proof (induction hay needle arbitrary: k rule: memmem.induct)
  case (1 needle)
  then show ?case by (simp split: if_splits)
next
  case (2 x xs needle)
  show ?case
  proof (cases "take (length needle) (x # xs) = needle")
    case True
    then have "length needle \<le> length (x # xs)" by (metis length_take min.cobounded1)
    with True "2.prems" show ?thesis by simp
  next
    case False
    with "2.prems" obtain k' where k': "memmem xs needle = Some k'" "k = Suc k'" by auto
    with "2.IH" [OF False k'(1)] False show ?thesis
      by (auto simp: less_Suc_eq_0_disj)
  qed
qed

lemma memmem_None:
  "memmem hay needle = None \<Longrightarrow> k + length needle \<le> length hay \<Longrightarrow>
    take (length needle) (drop k hay) \<noteq> needle"
proof (induction hay needle arbitrary: k rule: memmem.induct)
  case (1 needle)
  then show ?case by (simp split: if_splits)
next
  case (2 x xs needle)
  then show ?case by (cases k) (auto split: if_splits)
qed

lemma length_CRLF [simp]: "length CRLF = 2"
  by (simp add: CRLF_def)

lemma findCRLF_memmem:
  assumes "wf_buffer b"
  shows "findCRLF b = map_option (\<lambda>k. readBegin b + k) (memmem (contents b) CRLF)"
proof (cases "memmem (contents b) CRLF")
  case None
  then show ?thesis by (simp add: findCRLF_def contents_def)
next
  case (Some k)
  from memmem_Some [OF this] assms have "k + 2 \<le> readableBytes b"
    by simp
  with Some assms show ?thesis
    by (auto simp: findCRLF_def contents_def readableBytes_def readBegin_def writeBegin_def)
qed

lemma int_size_id: "n < 2 ^ 31 \<Longrightarrow> int_size n = n"
proof -
  assume n: "n < 2 ^ 31"
  then have "sint (word_of_nat n :: u32) = int n"
    by (simp add: signed_of_nat sint_uint unsigned_of_nat take_bit_nat_eq_self
        signed_take_bit_int_eq_self)
  with n show ?thesis
    by (simp add: int_size_def unat_of_nat)
qed

lemma readFd_data_ok:
  assumes "wf_buffer b" and "length bs \<le> sum_list (readv_blocks b)"
  shows "\<exists>b'. readFd (ReadvData bs) b = Inr (int (length bs), None, b') \<and> wf_buffer b'
    \<and> contents b' = contents b @ bs"
proof (cases "length bs \<le> writableBytes b")
  case True
  with assms contents_written [OF assms(1) True] show ?thesis by auto
next
  case False
  define w where "w = writableBytes b"
  define b' where "b' = b\<lparr>buf := overwrite (buf b) (write_idx b) (take w bs),
    write_idx := length (buf b)\<rparr>"
  have len: "length (take w bs) = w" and end_idx: "write_idx b + w = length (buf b)"
    using False assms(1) by (simp_all add: w_def writableBytes_def wf_buffer_def)
  have "b' = b\<lparr>buf := overwrite (buf b) (write_idx b) (take w bs),
      write_idx := write_idx b + length (take w bs)\<rparr>"
    by (simp only: b'_def len end_idx)
  with contents_written [OF assms(1), of "take w bs"] len
  have b': "wf_buffer b'" "contents b' = contents b @ take w bs"
    by (simp_all add: w_def)
  obtain c where "buf_append b' (drop w bs) = Inr c" "wf_buffer c"
      "contents c = contents b' @ drop w bs"
    using buf_append_ok [OF b'(1)] by blast
  with b' False assms(2) show ?thesis
    by (auto simp: Let_def w_def b'_def)
qed

lemma fresh_buffer_ok:
  "wf_buffer \<lparr>buf = replicate n 0, read_idx = 0, write_idx = 0\<rparr>"
  "contents \<lparr>buf = replicate n 0, read_idx = 0, write_idx = 0\<rparr> = []"
  "writableBytes \<lparr>buf = replicate n 0, read_idx = 0, write_idx = 0\<rparr> = n"
  by (simp_all add: buffer_defs)

lemma buf_append_size:
  assumes "wf_buffer b" and "length d \<le> writableBytes b" and "buf_append b d = Inr b'"
  shows "length (buf b') = length (buf b)"
  using assms writable_room [of b "length d"]
  by (auto simp: buf_append_def ensureWritableBytes_def hasWritten_def writeBegin_def
      outcome_elims)

lemma swap_buf_simp [simp]: "swap_buf b c = (c, b)"
  by (simp add: swap_buf_def)

lemma shrink_ok:
  assumes "wf_buffer b" and "readableBytes b < 2 ^ 31"
  shows "\<exists>b'. shrink reserve b = Inr b' \<and> wf_buffer b' \<and> contents b' = contents b
    \<and> length (buf b') = max InitialSize (readableBytes b + reserve)"
proof -
  let ?o = "\<lparr>buf = replicate InitialSize 0, read_idx = 0, write_idx = 0\<rparr> :: buffer"
  obtain e where e: "ensureWritableBytes (readableBytes b + reserve) ?o = Inr e" "wf_buffer e"
      "contents e = []" "readableBytes b + reserve \<le> writableBytes e"
      "length (buf e) = max InitialSize (readableBytes b + reserve)"
    by (rule ensureWritableBytes_ok [OF fresh_buffer_ok(1), of "readableBytes b + reserve"
        InitialSize]) (auto simp: fresh_buffer_ok max_def split: if_splits)
  obtain f where f: "buf_append e (contents b) = Inr f" "wf_buffer f"
      "contents f = contents e @ contents b"
    using buf_append_ok [OF e(2)] by blast
  have piece: "read_mem (buf b) (sp_data (toStringPiece b)) (sp_size (toStringPiece b))
      = Inr (contents b)"
    using assms read_mem_contents [of b "readableBytes b"]
    by (simp add: toStringPiece_def int_size_id)
  have "length (buf f) = length (buf e)"
    using buf_append_size [OF e(2) _ f(1)] e(4) assms(1) by simp
  with e f piece show ?thesis
    by (simp add: shrink_def)
qed

subsection \<open>Properties\<close>

text \<open>C7: appending any number of blocks to a well-formed buffer succeeds (no assertion of
  \<open>ensureWritableBytes\<close> or \<open>hasWritten\<close> can fail), and taking blocks of the same lengths out of
  an initially empty buffer returns exactly the blocks, in order, and leaves it empty: the buffer
  is a lossless byte queue whatever reallocation and compaction happen in between.\<close>

theorem buffer_frames_round_trip:
  assumes "wf_buffer b" and "contents b = []"
  shows "\<exists>b1 b2. put_list buf_append ds b = Inr b1
    \<and> get_frames_from retrieveAsString (map length ds) b1 = Inr (ds, b2)
    \<and> wf_buffer b2 \<and> contents b2 = []"
proof -
  obtain b1 where "put_list buf_append ds b = Inr b1" "wf_buffer b1" "contents b1 = concat ds"
    using bq.put_list_abs [OF assms(1), of ds] assms(2) by auto
  with bq.get_frames [of b1 ds "[]"] show ?thesis by fastforce
qed

theorem buffer_frames_round_trip_witness:
  "\<exists>b1 b2. put_list buf_append [[1, 2], [], [3]] \<lparr>buf = [0], read_idx = 0, write_idx = 0\<rparr> = Inr b1
    \<and> get_frames_from retrieveAsString (map length [[1, 2], [], [3 :: byte]]) b1
        = Inr ([[1, 2], [], [3]], b2)
    \<and> wf_buffer b2 \<and> contents b2 = []"
  by (rule buffer_frames_round_trip) (simp_all add: buffer_defs)

text \<open>C15: 64-bit integers appended on a host of either byte order and read on a host of either
  byte order come back unchanged and in order; the bytes in between are big-endian.\<close>

theorem int64_network_round_trip:
  assumes "wf_buffer b" and "contents b = []"
  shows "\<exists>b1 b2. put_list (appendInt64 h1) xs b = Inr b1
    \<and> contents b1 = concat (map (network_bytes 8) xs)
    \<and> take_list (readInt64 h2) (length xs) b1 = Inr (xs, b2) \<and> contents b2 = []"
  using i64.put_vals_abs [OF assms(1), of h1 xs] i64.get_vals [of _ xs "[]" h2] assms(2)
  by fastforce

theorem int64_network_round_trip_witness:
  "\<exists>b1 b2. put_list (appendInt64 LittleEndian) [1, -2] \<lparr>buf = [], read_idx = 0, write_idx = 0\<rparr>
      = Inr b1
    \<and> contents b1 = concat (map (network_bytes 8) [1 :: u64, -2])
    \<and> take_list (readInt64 BigEndian) (length [1 :: u64, -2]) b1 = Inr ([1, -2], b2)
    \<and> contents b2 = []"
  by (rule int64_network_round_trip) (simp_all add: buffer_defs)

text \<open>The same for 32-bit and 16-bit integers and single bytes, mixed in one message: a
  message of one field of each width is read back field by field.\<close>

theorem mixed_ints_round_trip:
  assumes "wf_buffer b" and "contents b = []"
  shows "\<exists>b1 b2. and_then (appendInt32 h1 b x) (\<lambda>b. and_then (appendInt16 h1 b y)
        (\<lambda>b. appendInt8 b z)) = Inr b1
    \<and> and_then (readInt32 h2 b1) (\<lambda>(x', b). and_then (readInt16 h2 b) (\<lambda>(y', b).
        and_then (readInt8 b) (\<lambda>(z', b). Inr (x', y', z', b)))) = Inr (x, y, z, b2)
    \<and> wf_buffer b2 \<and> contents b2 = []"
proof -
  obtain c1 where c1: "appendInt32 h1 b x = Inr c1" "wf_buffer c1"
      "contents c1 = network_bytes 4 x"
    using i32.put_val_law [OF assms(1), of h1 x] assms(2) by auto
  obtain c2 where c2: "appendInt16 h1 c1 y = Inr c2" "wf_buffer c2"
      "contents c2 = network_bytes 4 x @ network_bytes 2 y"
    using i16.put_val_law [OF c1(2), of h1 y] c1(3) by auto
  obtain c3 where c3: "appendInt8 c2 z = Inr c3" "wf_buffer c3"
      "contents c3 = network_bytes 4 x @ network_bytes 2 y @ [z]"
    using i8.put_val_law [OF c2(2), of z] c2(3) by auto
  obtain d1 where d1: "readInt32 h2 c3 = Inr (x, d1)" "wf_buffer d1"
      "contents d1 = network_bytes 2 y @ [z]"
    using i32.get_val_law [OF c3(2), of x "network_bytes 2 y @ [z]" h2] c3(3) by auto
  obtain d2 where d2: "readInt16 h2 d1 = Inr (y, d2)" "wf_buffer d2" "contents d2 = [z]"
    using i16.get_val_law [OF d1(2), of y "[z]" h2] d1(3) by auto
  obtain d3 where d3: "readInt8 d2 = Inr (z, d3)" "wf_buffer d3" "contents d3 = []"
    using i8.get_val_law [OF d2(2), of z "[]"] d2(3) by auto
  show ?thesis using c1 c2 c3 d1 d2 d3 by simp
qed

theorem mixed_ints_round_trip_witness:
  "\<exists>b1 b2. and_then (appendInt32 LittleEndian \<lparr>buf = [], read_idx = 0, write_idx = 0\<rparr> 7)
        (\<lambda>b. and_then (appendInt16 LittleEndian b 258) (\<lambda>b. appendInt8 b 9)) = Inr b1
    \<and> and_then (readInt32 BigEndian b1) (\<lambda>(x', b). and_then (readInt16 BigEndian b) (\<lambda>(y', b).
        and_then (readInt8 b) (\<lambda>(z', b). Inr (x', y', z', b)))) = Inr (7, 258, 9, b2)
    \<and> wf_buffer b2 \<and> contents b2 = []"
  by (rule mixed_ints_round_trip) (simp_all add: buffer_defs)

text \<open>Whatever \<^verbatim>\<open>readv\<close> delivers within the two blocks it is offered, \<open>readFd\<close> appends
  exactly those bytes to the unread bytes, whether or not they overflow into the stack block.\<close>

theorem readFd_appends:
  assumes "wf_buffer b" and "length bs \<le> sum_list (readv_blocks b)"
  shows "\<exists>b'. readFd (ReadvData bs) b = Inr (int (length bs), None, b') \<and> wf_buffer b'
    \<and> contents b' = contents b @ bs"
  by (rule readFd_data_ok [OF assms])

theorem readFd_appends_witness:
  "\<exists>b'. readFd (ReadvData [4, 5, 6]) \<lparr>buf = [1, 2], read_idx = 0, write_idx = 1\<rparr>
      = Inr (int (length [4, 5, 6 :: byte]), None, b')
    \<and> wf_buffer b' \<and> contents b' = contents \<lparr>buf = [1, 2], read_idx = 0, write_idx = 1\<rparr> @ [4, 5, 6]"
  by (rule readFd_appends) (simp_all add: buffer_defs readv_blocks_def extra_size_def)

text \<open>\<open>shrink\<close> keeps the unread bytes and leaves a vector of exactly the larger of the
  initial size and the unread bytes plus the reserve, as long as the unread bytes fit in an
  \<^verbatim>\<open>int\<close> (the size is narrowed on the way).\<close>

theorem shrink_keeps_contents:
  assumes "wf_buffer b" and "readableBytes b < 2 ^ 31"
  shows "\<exists>b'. shrink reserve b = Inr b' \<and> wf_buffer b' \<and> contents b' = contents b
    \<and> length (buf b') = max InitialSize (readableBytes b + reserve)"
  by (rule shrink_ok [OF assms])

theorem shrink_keeps_contents_witness:
  "\<exists>b'. shrink 3 \<lparr>buf = [1, 2, 3], read_idx = 1, write_idx = 3\<rparr> = Inr b' \<and> wf_buffer b'
    \<and> contents b' = contents \<lparr>buf = [1, 2, 3], read_idx = 1, write_idx = 3\<rparr>
    \<and> length (buf b') = max InitialSize
        (readableBytes \<lparr>buf = [1, 2, 3 :: byte], read_idx = 1, write_idx = 3\<rparr> + 3)"
  by (rule shrink_keeps_contents) (simp_all add: buffer_defs)

text \<open>\<open>findCRLF\<close> returns the first CR LF pair that lies wholly in the unread bytes, and
  nothing exactly when there is none.\<close>

theorem findCRLF_first:
  assumes "wf_buffer b"
  shows "case findCRLF b of
      Some p \<Rightarrow> (\<exists>k. p = readBegin b + k \<and> k + 2 \<le> readableBytes b
        \<and> take 2 (drop k (contents b)) = CRLF \<and> (\<forall>j<k. take 2 (drop j (contents b)) \<noteq> CRLF))
    | None \<Rightarrow> (\<forall>k. k + 2 \<le> readableBytes b \<longrightarrow> take 2 (drop k (contents b)) \<noteq> CRLF)"
proof (cases "memmem (contents b) CRLF")
  case None
  then show ?thesis
    using memmem_None [of "contents b" CRLF] assms
    by (auto simp: findCRLF_memmem [OF assms])
next
  case (Some k)
  then show ?thesis
    using memmem_Some [of "contents b" CRLF k] assms
    by (auto simp: findCRLF_memmem [OF assms])
qed

theorem findCRLF_first_witness:
  "case findCRLF \<lparr>buf = [65, 13, 10], read_idx = 0, write_idx = 3\<rparr> of
      Some p \<Rightarrow> (\<exists>k. p = readBegin \<lparr>buf = [65, 13, 10], read_idx = 0, write_idx = 3\<rparr> + k
        \<and> k + 2 \<le> readableBytes \<lparr>buf = [65, 13, 10 :: byte], read_idx = 0, write_idx = 3\<rparr>
        \<and> take 2 (drop k (contents \<lparr>buf = [65, 13, 10], read_idx = 0, write_idx = 3\<rparr>)) = CRLF
        \<and> (\<forall>j<k. take 2 (drop j (contents \<lparr>buf = [65, 13, 10], read_idx = 0, write_idx = 3\<rparr>))
            \<noteq> CRLF))
    | None \<Rightarrow> (\<forall>k. k + 2 \<le> readableBytes \<lparr>buf = [65, 13, 10 :: byte], read_idx = 0, write_idx = 3\<rparr>
        \<longrightarrow> take 2 (drop k (contents \<lparr>buf = [65, 13, 10], read_idx = 0, write_idx = 3\<rparr>)) \<noteq> CRLF)"
  by (rule findCRLF_first) (simp add: buffer_defs)

text \<open>Making room never loses unread bytes and reallocates only when the room in front of
  the unread bytes does not suffice: otherwise the bytes are moved to the front of the same
  vector.\<close>

theorem ensureWritableBytes_room:
  assumes "wf_buffer b"
  shows "\<exists>b'. ensureWritableBytes n b = Inr b' \<and> wf_buffer b' \<and> contents b' = contents b
    \<and> n \<le> writableBytes b'
    \<and> (n \<le> writableBytes b + read_idx b \<longrightarrow> length (buf b') = length (buf b))"
proof -
  obtain b' where "ensureWritableBytes n b = Inr b'" "wf_buffer b'" "contents b' = contents b"
      "n \<le> writableBytes b'"
      "length (buf b') = (if writableBytes b < n \<and> read_idx b < n - writableBytes b
        then length (buf b) + (n - writableBytes b) else length (buf b))"
    using ensureWritableBytes_ok [OF assms] by metis
  then show ?thesis by auto
qed

theorem ensureWritableBytes_room_witness:
  "\<exists>b'. ensureWritableBytes 2 \<lparr>buf = [1, 2, 3], read_idx = 2, write_idx = 3\<rparr> = Inr b'
    \<and> wf_buffer b' \<and> contents b' = contents \<lparr>buf = [1, 2, 3], read_idx = 2, write_idx = 3\<rparr>
    \<and> 2 \<le> writableBytes b'
    \<and> (2 \<le> writableBytes \<lparr>buf = [1, 2, 3], read_idx = 2, write_idx = 3\<rparr>
          + read_idx \<lparr>buf = [1, 2, 3], read_idx = 2, write_idx = 3\<rparr>
        \<longrightarrow> length (buf b') = length (buf \<lparr>buf = [1, 2, 3], read_idx = 2, write_idx = 3\<rparr>))"
  by (rule ensureWritableBytes_room) (simp add: buffer_defs)

end
