(* ===== verification/Mpmc_Queue.thy ===== *)
theory Mpmc_Queue
  imports Net_Prelude
begin

unbundle bit_operations_syntax

text \<open>
  The bounded multi-producer multi-consumer queue of \<^verbatim>\<open>src/src/helpers/queue.h\<close>. The shared state
  is a ring of nodes with sequence numbers and two 64-bit positions. \<open>push_step\<close> and \<open>pop_step\<close>
  are one atomic access of a thread inside \<^verbatim>\<open>try_push\<close> and \<^verbatim>\<open>try_pop\<close>; a thread running alone
  gives the functions \<open>try_push\<close> and \<open>try_pop\<close>, which implement a bounded first-in first-out
  queue whatever the wrap-around of the positions (locale \<open>bounded_fifo\<close>). Any interleaving of
  threads is the step relation of \<open>Mpmc_Threads\<close>.
\<close>

subsection \<open>The ring\<close>

record 'a node =
  sequence :: u64
  node_data :: 'a

record 'a mpmc_bounded_Queue =
  ring :: "'a node list"
  buffer_size :: u64
  buffer_mask :: u64
  head_pos :: u64
  tail_pos :: u64

definition new_queue :: "'a \<Rightarrow> u64 \<Rightarrow> 'a mpmc_bounded_Queue outcome" where
  "new_queue dflt sz =
     (let msk = sz - 1 in
      assert_then (2 \<le> sz \<and> sz AND msk = 0)
        (Inr \<lparr>ring = map (\<lambda>i. \<lparr>sequence = word_of_nat i, node_data = dflt\<rparr>) [0..<unat sz],
              buffer_size = sz, buffer_mask = msk, head_pos = 0, tail_pos = 0\<rparr>))"

definition queue_empty :: "'a mpmc_bounded_Queue \<Rightarrow> bool" where
  "queue_empty q \<longleftrightarrow> head_pos q = tail_pos q"

text \<open>\<^verbatim>\<open>size()\<close> is declared to return \<^verbatim>\<open>bool\<close>.\<close>

definition queue_size :: "'a mpmc_bounded_Queue \<Rightarrow> bool" where
  "queue_size q \<longleftrightarrow> tail_pos q - head_pos q \<noteq> 0"

definition slot :: "'a mpmc_bounded_Queue \<Rightarrow> u64 \<Rightarrow> nat" where
  "slot q pos = unat (pos AND buffer_mask q)"

definition node_at :: "'a mpmc_bounded_Queue \<Rightarrow> u64 \<Rightarrow> 'a node" where
  "node_at q pos = ring q ! slot q pos"

definition set_data :: "'a mpmc_bounded_Queue \<Rightarrow> u64 \<Rightarrow> 'a \<Rightarrow> 'a mpmc_bounded_Queue" where
  "set_data q pos x = q\<lparr>ring := (ring q)[slot q pos := (node_at q pos)\<lparr>node_data := x\<rparr>]\<rparr>"

definition set_sequence :: "'a mpmc_bounded_Queue \<Rightarrow> u64 \<Rightarrow> u64 \<Rightarrow> 'a mpmc_bounded_Queue" where
  "set_sequence q pos s = q\<lparr>ring := (ring q)[slot q pos := (node_at q pos)\<lparr>sequence := s\<rparr>]\<rparr>"

subsection \<open>One atomic access of a thread\<close>

text \<open>
  Where a thread is inside \<^verbatim>\<open>try_push\<close>: about to load \<^verbatim>\<open>tail_pos\<close>; at the top of the loop with a
  position; about to compare-and-swap; having claimed a position, about to write the data and
  then to publish the node; returned.
\<close>

datatype 'a push_pc =
    PushStart 'a
  | PushRead 'a u64
  | PushCas 'a u64
  | PushStore 'a u64
  | PushRelease u64
  | PushDone bool

datatype 'a pop_pc =
    PopStart
  | PopRead u64
  | PopCas u64
  | PopFetch u64
  | PopRelease u64 'a
  | PopDone "'a option"

text \<open>\<open>spur\<close>: whether the weak compare-and-swap fails although the values agree.\<close>

fun push_step ::
  "bool \<Rightarrow> 'a mpmc_bounded_Queue \<Rightarrow> 'a push_pc \<Rightarrow> 'a mpmc_bounded_Queue \<times> 'a push_pc"
where
  "push_step spur q (PushStart x) = (q, PushRead x (tail_pos q))"
| "push_step spur q (PushRead x pos) =
     (let dif = sint (sequence (node_at q pos) - pos) in
      (q, if dif = 0 then PushCas x pos else if dif < 0 then PushDone False else PushStart x))"
| "push_step spur q (PushCas x pos) =
     (if \<not> spur \<and> tail_pos q = pos then (q\<lparr>tail_pos := pos + 1\<rparr>, PushStore x pos)
      else (q, PushRead x (tail_pos q)))"
| "push_step spur q (PushStore x pos) = (set_data q pos x, PushRelease pos)"
| "push_step spur q (PushRelease pos) = (set_sequence q pos (pos + 1), PushDone True)"
| "push_step spur q (PushDone r) = (q, PushDone r)"

fun pop_step ::
  "bool \<Rightarrow> 'a mpmc_bounded_Queue \<Rightarrow> 'a pop_pc \<Rightarrow> 'a mpmc_bounded_Queue \<times> 'a pop_pc"
where
  "pop_step spur q PopStart = (q, PopRead (head_pos q))"
| "pop_step spur q (PopRead pos) =
     (let dif = sint (sequence (node_at q pos) - (pos + 1)) in
      (q, if dif = 0 then PopCas pos else if dif < 0 then PopDone None else PopStart))"
| "pop_step spur q (PopCas pos) =
     (if \<not> spur \<and> head_pos q = pos then (q\<lparr>head_pos := pos + 1\<rparr>, PopFetch pos)
      else (q, PopRead (head_pos q)))"
| "pop_step spur q (PopFetch pos) = (q, PopRelease pos (node_data (node_at q pos)))"
| "pop_step spur q (PopRelease pos x) =
     (set_sequence q pos (pos + buffer_mask q + 1), PopDone (Some x))"
| "pop_step spur q (PopDone r) = (q, PopDone r)"

subsection \<open>A thread running alone\<close>

text \<open>
  The loop of a thread that is not interleaved with others, with a bound on the number of
  accesses: \<open>None\<close> means the bound was reached. Five accesses are enough
  (\<open>try_push_room\<close>, \<open>try_push_full\<close>, \<open>try_pop_item\<close>, \<open>try_pop_empty\<close>).
\<close>

fun push_run ::
  "nat \<Rightarrow> 'a mpmc_bounded_Queue \<Rightarrow> 'a push_pc \<Rightarrow> ('a mpmc_bounded_Queue \<times> bool) option"
where
  "push_run n q (PushDone r) = Some (q, r)"
| "push_run 0 q pc = None"
| "push_run (Suc n) q pc = (case push_step False q pc of (q', pc') \<Rightarrow> push_run n q' pc')"

fun pop_run ::
  "nat \<Rightarrow> 'a mpmc_bounded_Queue \<Rightarrow> 'a pop_pc \<Rightarrow> ('a mpmc_bounded_Queue \<times> 'a option) option"
where
  "pop_run n q (PopDone r) = Some (q, r)"
| "pop_run 0 q pc = None"
| "pop_run (Suc n) q pc = (case pop_step False q pc of (q', pc') \<Rightarrow> pop_run n q' pc')"

definition try_push :: "'a mpmc_bounded_Queue \<Rightarrow> 'a \<Rightarrow> ('a mpmc_bounded_Queue \<times> bool) option" where
  "try_push q x = push_run 5 q (PushStart x)"

definition try_pop :: "'a mpmc_bounded_Queue \<Rightarrow> ('a mpmc_bounded_Queue \<times> 'a option) option" where
  "try_pop q = pop_run 5 q PopStart"

subsection \<open>The bounded retry loop of push and pop\<close>

text \<open>The measure of the loop below: \<^verbatim>\<open>r\<close> grows at most seven times.\<close>

definition spin_measure :: "nat \<Rightarrow> nat \<Rightarrow> nat" where
  "spin_measure i r = (if 65 \<le> i then 0 else Suc (66 * (8 - r) + (65 - i)))"

lemma spin_measure_yield:
  assumes "i < 65" and "i AND 64 \<noteq> (0::nat)"
  shows "spin_measure (2 ^ Suc r + 1) (Suc r) < spin_measure i r"
proof (cases "r < 6")
  case True
  then have "8 - r = Suc (7 - r)" by simp
  with assms show ?thesis by (simp add: spin_measure_def) arith
next
  case False
  then have "(2::nat) ^ 7 \<le> 2 ^ Suc r" by (intro power_increasing) auto
  with assms show ?thesis by (simp add: spin_measure_def)
qed

text \<open>
  \<^verbatim>\<open>for (int i = 1, r = 0; i < 65; ++i)\<close> with \<^verbatim>\<open>i = 1 << r\<close> after every sixty-fourth value of
  \<^verbatim>\<open>i\<close>. \<open>n\<close> counts the attempts; \<open>attempt n s\<close> is the \<open>n\<close>-th call of \<^verbatim>\<open>try_push\<close> or
  \<^verbatim>\<open>try_pop\<close>, after whatever the other threads did before it.
\<close>

function spin ::
  "(nat \<Rightarrow> 's \<Rightarrow> ('s \<times> bool) option) \<Rightarrow> nat \<Rightarrow> nat \<Rightarrow> nat \<Rightarrow> 's \<Rightarrow> ('s \<times> bool \<times> nat) option"
where
  "spin attempt n i r s =
     (if 65 \<le> i then Some (s, False, n)
      else case attempt n s of
          None \<Rightarrow> None
        | Some (s', True) \<Rightarrow> Some (s', True, Suc n)
        | Some (s', False) \<Rightarrow>
            (if i AND 64 \<noteq> 0 then spin attempt (Suc n) (2 ^ Suc r + 1) (Suc r) s'
             else spin attempt (Suc n) (Suc i) r s'))"
  by pat_completeness auto

termination
proof (relation "measure (\<lambda>(attempt, n, i, r, s). spin_measure i r)", goal_cases)
  case 1
  show ?case by simp
next
  case (2 attempt n i r s)
  then show ?case by (simp del: power_Suc One_nat_def add: spin_measure_yield)
next
  case (3 attempt n i r s)
  then show ?case by (simp add: spin_measure_def) arith
qed

definition push ::
  "(nat \<Rightarrow> 'a mpmc_bounded_Queue \<Rightarrow> 'a mpmc_bounded_Queue) \<Rightarrow> 'a mpmc_bounded_Queue \<Rightarrow> 'a \<Rightarrow>
     ('a mpmc_bounded_Queue \<times> bool \<times> nat) option"
where
  "push others q x = spin (\<lambda>n q. try_push (others n q) x) 0 1 0 q"

text \<open>\<^verbatim>\<open>pop\<close> assigns its reference argument only when an attempt succeeds; \<open>old\<close> is its value before.\<close>

definition pop ::
  "(nat \<Rightarrow> 'a mpmc_bounded_Queue \<Rightarrow> 'a mpmc_bounded_Queue) \<Rightarrow> 'a mpmc_bounded_Queue \<Rightarrow> 'a \<Rightarrow>
     (('a mpmc_bounded_Queue \<times> 'a) \<times> bool \<times> nat) option"
where
  "pop others q old =
     spin (\<lambda>n (q, d). case try_pop (others n q) of
             None \<Rightarrow> None
           | Some (q', None) \<Rightarrow> Some ((q', d), False)
           | Some (q', Some x) \<Rightarrow> Some ((q', x), True)) 0 1 0 (q, old)"

declare spin.simps [simp del]

subsection \<open>Slots of the ring\<close>

definition pow2_ring :: "'a mpmc_bounded_Queue \<Rightarrow> bool" where
  "pow2_ring q \<longleftrightarrow> (\<exists>k. 1 \<le> k \<and> k \<le> 63 \<and> buffer_size q = 2 ^ k \<and> buffer_mask q = 2 ^ k - 1
     \<and> length (ring q) = 2 ^ k)"

lemma pow2_ringE:
  assumes "pow2_ring q"
  obtains k where "1 \<le> k" "k \<le> 63" "length (ring q) = 2 ^ k" "buffer_size q = 2 ^ k"
    "buffer_mask q = mask k"
  using assms by (auto simp: pow2_ring_def mask_eq_exp_minus_1)

lemma unat_pow2:
  assumes "k \<le> 63"
  shows "unat (2 ^ k :: u64) = 2 ^ k"
proof -
  have "(2::nat) ^ k < 2 ^ 64" using assms by (intro power_strict_increasing) auto
  then show ?thesis using unat_of_nat [of "2 ^ k", where 'a = 64] by simp
qed

lemma ring_size:
  assumes "pow2_ring q"
  shows "unat (buffer_size q) = length (ring q)" and "2 \<le> length (ring q)"
    and "length (ring q) \<le> 2 ^ 63" and "length (ring q) dvd 2 ^ 64"
    and "word_of_nat (length (ring q)) = buffer_mask q + 1"
proof -
  from assms obtain k where k: "1 \<le> k" "k \<le> 63" "length (ring q) = 2 ^ k"
      "buffer_size q = 2 ^ k" "buffer_mask q = mask k"
    by (rule pow2_ringE)
  show "unat (buffer_size q) = length (ring q)" using k by (simp add: unat_pow2)
  have "(2::nat) ^ 1 \<le> 2 ^ k" using k(1) by (intro power_increasing) auto
  then show "2 \<le> length (ring q)" using k by simp
  show "length (ring q) \<le> 2 ^ 63" using power_increasing [OF k(2), of "2::nat"] k(3) by simp
  show "length (ring q) dvd 2 ^ 64" using le_imp_power_dvd [of k 64 "2::nat"] k by simp
  show "word_of_nat (length (ring q)) = buffer_mask q + 1"
    using k by (simp add: mask_eq_exp_minus_1)
qed

lemma slot_mod:
  assumes "pow2_ring q"
  shows "slot q pos = unat pos mod length (ring q)"
proof -
  from assms obtain k where k: "length (ring q) = 2 ^ k" "buffer_mask q = mask k"
    by (rule pow2_ringE)
  have "slot q pos = take_bit k (unat pos)"
    by (simp add: slot_def k take_bit_eq_mask [symmetric] unsigned_take_bit_eq)
  then show ?thesis by (simp add: k take_bit_eq_mod)
qed

lemma slot_less [simp]:
  assumes "pow2_ring q"
  shows "slot q pos < length (ring q)"
proof -
  have "0 < length (ring q)" using ring_size(2) [OF assms] by linarith
  then show ?thesis by (simp add: slot_mod [OF assms])
qed

lemma slot_add:
  assumes "pow2_ring q"
  shows "slot q (pos + word_of_nat j) = (unat pos + j) mod length (ring q)"
proof -
  have "unat (pos + word_of_nat j) = (unat pos + j) mod 2 ^ 64"
    by (simp add: unat_word_ariths unat_of_nat mod_simps)
  with assms ring_size(4) [OF assms] show ?thesis
    by (simp add: slot_mod mod_mod_cancel)
qed

lemma mod_add_inj:
  assumes "(u + i) mod n = (u + j) mod n" and "i < n" and "j < (n::nat)"
  shows "i = j"
proof -
  have "(u + i - (u + j)) mod n = 0 \<and> (u + j - (u + i)) mod n = 0"
    using assms(1) by (metis add_le_cancel_left le_cases mod_eq_dvd_iff_nat mod_0_imp_dvd
        dvd_imp_mod_0 diff_is_0_eq' mod_0)
  with assms(2,3) show ?thesis by (simp add: less_imp_diff_less)
qed

lemma slot_inj:
  "pow2_ring q \<Longrightarrow> i < length (ring q) \<Longrightarrow> j < length (ring q) \<Longrightarrow>
    slot q (pos + word_of_nat i) = slot q (pos + word_of_nat j) \<longleftrightarrow> i = j"
  by (auto simp: slot_add dest: mod_add_inj)

lemma set_fields [simp]:
  "buffer_size (set_data q p x) = buffer_size q" "buffer_mask (set_data q p x) = buffer_mask q"
  "head_pos (set_data q p x) = head_pos q" "tail_pos (set_data q p x) = tail_pos q"
  "length (ring (set_data q p x)) = length (ring q)"
  "buffer_size (set_sequence q p s) = buffer_size q"
  "buffer_mask (set_sequence q p s) = buffer_mask q"
  "head_pos (set_sequence q p s) = head_pos q" "tail_pos (set_sequence q p s) = tail_pos q"
  "length (ring (set_sequence q p s)) = length (ring q)"
  by (simp_all add: set_data_def set_sequence_def)

lemma slot_updates [simp]:
  "slot (set_data q p x) = slot q" "slot (set_sequence q p s) = slot q"
  "slot (q\<lparr>tail_pos := t\<rparr>) = slot q" "slot (q\<lparr>head_pos := t\<rparr>) = slot q"
  by (simp_all add: slot_def fun_eq_iff)

lemma pow2_ring_updates [simp]:
  "pow2_ring (set_data q p x) = pow2_ring q" "pow2_ring (set_sequence q p s) = pow2_ring q"
  "pow2_ring (q\<lparr>tail_pos := t\<rparr>) = pow2_ring q" "pow2_ring (q\<lparr>head_pos := t\<rparr>) = pow2_ring q"
  by (simp_all add: pow2_ring_def)

lemma node_at_updates [simp]:
  "node_at (q\<lparr>tail_pos := t\<rparr>) = node_at q" "node_at (q\<lparr>head_pos := t\<rparr>) = node_at q"
  by (simp_all add: node_at_def fun_eq_iff)

lemma node_at_set:
  assumes "pow2_ring q"
  shows "node_at (set_data q p x) p' =
      (if slot q p' = slot q p then (node_at q p)\<lparr>node_data := x\<rparr> else node_at q p')"
    and "node_at (set_sequence q p s) p' =
      (if slot q p' = slot q p then (node_at q p)\<lparr>sequence := s\<rparr> else node_at q p')"
  using slot_less [OF assms, of p]
  by (auto simp: node_at_def set_data_def set_sequence_def slot_def nth_list_update)

subsection \<open>The queue of a thread running alone\<close>

definition queue_len :: "'a mpmc_bounded_Queue \<Rightarrow> nat" where
  "queue_len q = unat (tail_pos q - head_pos q)"

definition queue_items :: "'a mpmc_bounded_Queue \<Rightarrow> 'a list" where
  "queue_items q = map (\<lambda>j. node_data (node_at q (head_pos q + word_of_nat j))) [0..<queue_len q]"

definition queue_cap :: "'a mpmc_bounded_Queue \<Rightarrow> nat" where
  "queue_cap q = unat (buffer_size q)"

text \<open>No thread is inside an operation: the \<open>j\<close>-th node after the head carries the sequence number
  of its position, plus one if it holds an item.\<close>

definition wf_queue :: "'a mpmc_bounded_Queue \<Rightarrow> bool" where
  "wf_queue q \<longleftrightarrow> pow2_ring q \<and> queue_len q \<le> length (ring q)
     \<and> (\<forall>j<length (ring q). sequence (node_at q (head_pos q + word_of_nat j))
          = head_pos q + word_of_nat j + (if j < queue_len q then 1 else 0))"

lemma wf_queueD:
  assumes "wf_queue q"
  shows "pow2_ring q" "queue_len q \<le> length (ring q)"
    "j < length (ring q) \<Longrightarrow> sequence (node_at q (head_pos q + word_of_nat j))
       = head_pos q + word_of_nat j + (if j < queue_len q then 1 else 0)"
  using assms by (simp_all add: wf_queue_def)

lemma tail_is: "tail_pos q = head_pos q + word_of_nat (queue_len q)"
  by (simp add: queue_len_def)

lemma length_queue_items [simp]: "length (queue_items q) = queue_len q"
  by (simp add: queue_items_def)

lemma queue_cap_ring: "wf_queue q \<Longrightarrow> queue_cap q = length (ring q)"
  by (simp add: queue_cap_def wf_queue_def ring_size)

lemma slot_wrap: "pow2_ring q \<Longrightarrow> slot q (pos + word_of_nat (length (ring q))) = slot q pos"
  by (simp only: slot_add) (simp add: slot_mod)

lemma node_wrap: "pow2_ring q \<Longrightarrow> node_at q (pos + word_of_nat (length (ring q))) = node_at q pos"
  by (simp add: node_at_def slot_wrap)

lemmas run_simps = try_push_def try_pop_def numeral_eq_Suc Let_def

lemma try_push_room:
  assumes "wf_queue q" and "queue_len q < length (ring q)"
  shows "try_push q x = Some (set_sequence (set_data (q\<lparr>tail_pos := tail_pos q + 1\<rparr>)
      (tail_pos q) x) (tail_pos q) (tail_pos q + 1), True)"
proof -
  have "sequence (node_at q (tail_pos q)) = tail_pos q"
    using wf_queueD(3) [OF assms] by (simp add: tail_is)
  then show ?thesis by (simp add: run_simps)
qed

lemma sint_one_minus_size:
  assumes "pow2_ring q"
  shows "sint (1 - word_of_nat (length (ring q)) :: u64) < 0"
proof -
  from assms obtain k where k: "1 \<le> k" "k \<le> 63" "length (ring q) = 2 ^ k"
    by (rule pow2_ringE)
  have "1 - (2::int) ^ k \<le> -1" using one_le_power [of "2::int" "k - 1"] k(1)
    by (cases k) auto
  moreover have "- (2 ^ 63) \<le> 1 - (2::int) ^ k"
    using power_increasing [of k 63 "2::int"] k(2) by simp
  moreover have "1 - word_of_nat (length (ring q)) = (word_of_int (1 - 2 ^ k) :: u64)"
    using k by simp
  ultimately show ?thesis
    by (simp add: signed_take_bit_int_eq_self signed_of_int del: of_int_diff)
qed

lemma try_push_full:
  assumes "wf_queue q" and "queue_len q = length (ring q)"
  shows "try_push q x = Some (q, False)"
proof -
  note r = wf_queueD(1) [OF assms(1)]
  have "0 < length (ring q)" using ring_size(2) [OF r] by linarith
  then have "sequence (node_at q (head_pos q)) = head_pos q + 1"
    using wf_queueD(3) [OF assms(1), of 0] assms(2) by simp
  then have "sequence (node_at q (tail_pos q)) - tail_pos q = 1 - word_of_nat (length (ring q))"
    using node_wrap [OF r, of "head_pos q"] by (simp add: tail_is assms(2))
  with sint_one_minus_size [OF r] show ?thesis
    by (simp add: run_simps)
qed

lemma try_pop_item:
  assumes "wf_queue q" and "0 < queue_len q"
  shows "try_pop q = Some (set_sequence (q\<lparr>head_pos := head_pos q + 1\<rparr>) (head_pos q)
      (head_pos q + buffer_mask q + 1), Some (node_data (node_at q (head_pos q))))"
proof -
  have "0 < length (ring q)" using wf_queueD(2) [OF assms(1)] assms(2) by linarith
  then have "sequence (node_at q (head_pos q)) = head_pos q + 1"
    using wf_queueD(3) [OF assms(1), of 0] assms(2) by simp
  then show ?thesis by (simp add: run_simps)
qed

lemma try_pop_empty:
  assumes "wf_queue q" and "queue_len q = 0"
  shows "try_pop q = Some (q, None)"
proof -
  have "0 < length (ring q)"
    using ring_size(2) [OF wf_queueD(1) [OF assms(1)]] by linarith
  then have "sequence (node_at q (head_pos q)) = head_pos q"
    using wf_queueD(3) [OF assms(1), of 0] assms(2) by simp
  then show ?thesis by (simp add: run_simps)
qed


lemma unat_small: "n \<le> 2 ^ 63 \<Longrightarrow> unat (word_of_nat n :: u64) = n"
  by (simp add: unat_of_nat)

lemma queue_len_push:
  assumes "wf_queue q" and "queue_len q < length (ring q)"
  shows "unat (tail_pos q + 1 - head_pos q) = Suc (queue_len q)"
proof -
  have "Suc (queue_len q) \<le> 2 ^ 63"
    using assms ring_size(3) [OF wf_queueD(1) [OF assms(1)]] by linarith
  moreover have "tail_pos q + 1 - head_pos q = word_of_nat (Suc (queue_len q))"
    by (simp add: queue_len_def)
  ultimately show ?thesis by (simp only: unat_small)
qed

lemma queue_len_pop:
  assumes "wf_queue q" and "queue_len q = Suc n"
  shows "unat (tail_pos q - (head_pos q + 1)) = n"
proof -
  have "n \<le> 2 ^ 63"
    using assms wf_queueD(2) [OF assms(1)] ring_size(3) [OF wf_queueD(1) [OF assms(1)]] by linarith
  moreover have "tail_pos q - (head_pos q + 1) = word_of_nat n"
    by (simp add: tail_is assms(2))
  ultimately show ?thesis by (simp only: unat_small)
qed

lemma pushed_ok:
  fixes x :: 'a
  assumes "wf_queue q" and "queue_len q < length (ring q)"
  defines "q' \<equiv> set_sequence (set_data (q\<lparr>tail_pos := tail_pos q + 1\<rparr>) (tail_pos q) x)
    (tail_pos q) (tail_pos q + 1)"
  shows "wf_queue q'" and "queue_items q' = queue_items q @ [x]" and "queue_cap q' = queue_cap q"
proof -
  note r = wf_queueD(1) [OF assms(1)]
  have len: "queue_len q' = Suc (queue_len q)"
    using queue_len_push [OF assms(1,2)] by (simp add: queue_len_def q'_def)
  have node: "node_at q' (head_pos q + word_of_nat j) =
      (if j = queue_len q then \<lparr>sequence = tail_pos q + 1, node_data = x\<rparr>
       else node_at q (head_pos q + word_of_nat j))" if "j < length (ring q)" for j
    using slot_inj [OF r that assms(2), of "head_pos q"] r
    by (simp add: q'_def node_at_set tail_is)
  have hd: "head_pos q' = head_pos q" and ln: "length (ring q') = length (ring q)"
    by (simp_all add: q'_def)
  have "sequence (node_at q' (head_pos q' + word_of_nat j))
      = head_pos q' + word_of_nat j + (if j < queue_len q' then 1 else 0)"
    if "j < length (ring q')" for j
    using that wf_queueD(3) [OF assms(1), of j] node [of j]
    by (auto simp: len hd ln tail_is less_Suc_eq)
  moreover have "pow2_ring q'" using r by (simp add: q'_def)
  ultimately show "wf_queue q'" using assms(2) by (simp add: wf_queue_def len ln)
  show "queue_items q' = queue_items q @ [x]"
    using assms(2) by (simp add: queue_items_def len hd node)
  show "queue_cap q' = queue_cap q" by (simp add: queue_cap_def q'_def)
qed

lemma popped_ok:
  assumes "wf_queue q" and "queue_len q = Suc n"
  defines "q' \<equiv> set_sequence (q\<lparr>head_pos := head_pos q + 1\<rparr>) (head_pos q)
    (head_pos q + buffer_mask q + 1)"
  shows "wf_queue q'" and "queue_items q = node_data (node_at q (head_pos q)) # queue_items q'"
    and "queue_cap q' = queue_cap q"
proof -
  note r = wf_queueD(1) [OF assms(1)]
  have pos: "0 < length (ring q)" using ring_size(2) [OF r] by linarith
  have len: "queue_len q' = n"
    using queue_len_pop [OF assms(1,2)] by (simp add: queue_len_def q'_def)
  have node: "node_at q' (head_pos q + 1 + word_of_nat j) =
      (if Suc j = length (ring q)
       then (node_at q (head_pos q))\<lparr>sequence := head_pos q + word_of_nat (length (ring q))\<rparr>
       else node_at q (head_pos q + word_of_nat (Suc j)))" if "j < length (ring q)" for j
  proof (cases "Suc j = length (ring q)")
    case True
    have "slot q (head_pos q + 1 + word_of_nat j) = slot q (head_pos q + word_of_nat (Suc j))"
      by (simp add: add.assoc)
    also have "\<dots> = slot q (head_pos q)" unfolding True by (rule slot_wrap [OF r])
    finally have "node_at q' (head_pos q + 1 + word_of_nat j) =
        (node_at q (head_pos q))\<lparr>sequence := head_pos q + buffer_mask q + 1\<rparr>"
      using r by (simp add: q'_def node_at_set)
    moreover have "head_pos q + buffer_mask q + 1 = head_pos q + word_of_nat (length (ring q))"
      by (simp only: ring_size(5) [OF r] add.assoc)
    ultimately show ?thesis by (simp only: True if_True simp_thms)
  next
    case False
    with that have "slot q (head_pos q + word_of_nat (Suc j)) \<noteq> slot q (head_pos q)"
      using slot_inj [OF r _ pos, of "Suc j" "head_pos q"] by simp
    then show ?thesis using False r by (simp add: q'_def node_at_set add.assoc)
  qed
  have hd: "head_pos q' = head_pos q + 1" and ln: "length (ring q') = length (ring q)"
    by (simp_all add: q'_def)
  have n: "Suc n \<le> length (ring q)" using wf_queueD(2) [OF assms(1)] assms(2) by simp
  have "sequence (node_at q' (head_pos q' + word_of_nat j))
      = head_pos q' + word_of_nat j + (if j < queue_len q' then 1 else 0)"
    if j: "j < length (ring q')" for j
  proof (cases "Suc j = length (ring q)")
    case True
    have "sequence (node_at q' (head_pos q + 1 + word_of_nat j)) = head_pos q + word_of_nat (Suc j)"
      using node [of j] j True by (simp add: ln del: of_nat_Suc)
    moreover have "\<not> j < n" using n True by linarith
    ultimately show ?thesis by (simp add: len hd add.assoc)
  next
    case False
    with j n node [of j] wf_queueD(3) [OF assms(1), of "Suc j"] show ?thesis
      by (simp add: len hd ln assms(2) add.assoc)
  qed
  moreover have "pow2_ring q'" using r by (simp add: q'_def)
  ultimately show "wf_queue q'" using n by (simp add: wf_queue_def len ln)
  have "node_data (node_at q' (head_pos q + 1 + word_of_nat j)) =
      node_data (node_at q (head_pos q + word_of_nat (Suc j)))" if "j < n" for j
    using node [of j] that n by simp
  then show "queue_items q = node_data (node_at q (head_pos q)) # queue_items q'"
    by (simp add: queue_items_def len hd assms(2) upt_conv_Cons map_Suc_upt [symmetric]
        del: upt_Suc of_nat_Suc)
  show "queue_cap q' = queue_cap q" by (simp add: queue_cap_def q'_def)
qed

subsection \<open>A bounded first-in first-out queue\<close>

text \<open>What the event loop and the thread pool rely on.\<close>

fun pop_all :: "('q \<Rightarrow> ('q \<times> 'a option) option) \<Rightarrow> nat \<Rightarrow> 'q \<Rightarrow> ('q \<times> 'a list) option" where
  "pop_all try_get 0 q = None"
| "pop_all try_get (Suc n) q =
     (case try_get q of
        None \<Rightarrow> None
      | Some (q', None) \<Rightarrow> Some (q', [])
      | Some (q', Some x) \<Rightarrow> map_option (\<lambda>(q'', xs). (q'', x # xs)) (pop_all try_get n q'))"

fun put_all :: "('q \<Rightarrow> 'a \<Rightarrow> ('q \<times> bool) option) \<Rightarrow> 'a list \<Rightarrow> 'q \<Rightarrow> 'q option" where
  "put_all try_put [] q = Some q"
| "put_all try_put (x # xs) q =
     (case try_put q x of Some (q', True) \<Rightarrow> put_all try_put xs q' | _ \<Rightarrow> None)"

locale bounded_fifo =
  fixes inv :: "'q \<Rightarrow> bool"
    and items :: "'q \<Rightarrow> 'a list"
    and cap :: "'q \<Rightarrow> nat"
    and try_put :: "'q \<Rightarrow> 'a \<Rightarrow> ('q \<times> bool) option"
    and try_get :: "'q \<Rightarrow> ('q \<times> 'a option) option"
    and is_empty :: "'q \<Rightarrow> bool"
  assumes items_cap: "inv q \<Longrightarrow> length (items q) \<le> cap q"
    and put_room: "inv q \<Longrightarrow> length (items q) < cap q \<Longrightarrow>
      \<exists>q'. try_put q x = Some (q', True) \<and> inv q' \<and> items q' = items q @ [x] \<and> cap q' = cap q"
    and put_full: "inv q \<Longrightarrow> length (items q) = cap q \<Longrightarrow> try_put q x = Some (q, False)"
    and get_item: "inv q \<Longrightarrow> items q = x # xs \<Longrightarrow>
      \<exists>q'. try_get q = Some (q', Some x) \<and> inv q' \<and> items q' = xs \<and> cap q' = cap q"
    and get_none: "inv q \<Longrightarrow> items q = [] \<Longrightarrow> try_get q = Some (q, None)"
    and empty_iff: "inv q \<Longrightarrow> is_empty q \<longleftrightarrow> items q = []"
begin

lemma get_all:
  "inv q \<Longrightarrow> length (items q) < n \<Longrightarrow>
    \<exists>q'. pop_all try_get n q = Some (q', items q) \<and> inv q' \<and> items q' = [] \<and> cap q' = cap q"
proof (induction n arbitrary: q)
  case 0
  then show ?case by simp
next
  case (Suc n)
  show ?case
  proof (cases "items q")
    case Nil
    with get_none [OF Suc.prems(1)] Suc.prems(1) show ?thesis by simp
  next
    case (Cons x xs)
    from get_item [OF Suc.prems(1) this] obtain q' where q': "try_get q = Some (q', Some x)"
        "inv q'" "items q' = xs" "cap q' = cap q" by blast
    with Suc.IH [of q'] Suc.prems(2) Cons show ?thesis by auto
  qed
qed

lemma put_all_ok:
  "inv q \<Longrightarrow> length (items q) + length xs \<le> cap q \<Longrightarrow>
    \<exists>q'. put_all try_put xs q = Some q' \<and> inv q' \<and> items q' = items q @ xs \<and> cap q' = cap q"
proof (induction xs arbitrary: q)
  case Nil
  then show ?case by simp
next
  case (Cons x xs)
  then have "length (items q) < cap q" by simp
  from put_room [OF Cons.prems(1) this, of x] obtain q' where "try_put q x = Some (q', True)"
      "inv q'" "items q' = items q @ [x]" "cap q' = cap q" by blast
  with Cons.IH [of q'] Cons.prems(2) show ?case by auto
qed

lemma put_all_get_all:
  assumes "inv q" and "items q = []" and "length xs \<le> cap q"
  shows "\<exists>q1 q2. put_all try_put xs q = Some q1 \<and> pop_all try_get (Suc (length xs)) q1 = Some (q2, xs)
    \<and> inv q2 \<and> is_empty q2"
proof -
  obtain q1 where q1: "put_all try_put xs q = Some q1" "inv q1" "items q1 = xs"
    using put_all_ok [OF assms(1), of xs] assms(2,3) by auto
  from get_all [OF q1(2), of "Suc (length xs)"] q1(3) obtain q2
    where "pop_all try_get (Suc (length xs)) q1 = Some (q2, xs)" "inv q2" "items q2 = []" by auto
  with q1(1) empty_iff show ?thesis by blast
qed

end

lemma queue_empty_iff: "queue_empty q \<longleftrightarrow> queue_len q = 0"
  by (auto simp: queue_empty_def queue_len_def unat_eq_0)

interpretation mq: bounded_fifo wf_queue queue_items queue_cap try_push try_pop queue_empty
proof unfold_locales
  fix q :: "'a mpmc_bounded_Queue" and x :: 'a and xs
  assume q: "wf_queue q"
  note cap = queue_cap_ring [OF q]
  show "length (queue_items q) \<le> queue_cap q"
    using wf_queueD(2) [OF q] by (simp add: cap)
  show "queue_empty q \<longleftrightarrow> queue_items q = []"
    by (simp add: queue_empty_iff flip: length_0_conv)
  show "\<exists>q'. try_push q x = Some (q', True) \<and> wf_queue q' \<and> queue_items q' = queue_items q @ [x]
      \<and> queue_cap q' = queue_cap q" if "length (queue_items q) < queue_cap q"
    using that try_push_room [OF q] pushed_ok [OF q] by (simp add: cap)
  show "try_push q x = Some (q, False)" if "length (queue_items q) = queue_cap q"
    using that by (simp add: cap try_push_full [OF q])
  show "try_pop q = Some (q, None)" if "queue_items q = []"
    using that by (intro try_pop_empty [OF q]) (simp flip: length_queue_items)
  show "\<exists>q'. try_pop q = Some (q', Some x) \<and> wf_queue q' \<and> queue_items q' = xs
      \<and> queue_cap q' = queue_cap q" if "queue_items q = x # xs"
  proof -
    from that have n: "queue_len q = Suc (length xs)" by (metis length_Cons length_queue_items)
    from try_pop_item [OF q] popped_ok [OF q n] that n show ?thesis by simp
  qed
qed


subsection \<open>A new queue\<close>

lemma and_pred_pow2:
  "0 < n \<Longrightarrow> n AND (n - 1) = (0::nat) \<Longrightarrow> \<exists>k. n = 2 ^ k"
proof (induction n rule: less_induct)
  case (less n)
  show ?case
  proof (cases "even n")
    case True
    then obtain m where m: "n = 2 * m" by blast
    with less.prems have m0: "0 < m" and mn: "m < n" by simp_all
    have div: "(2 * m - 1) div 2 = m - 1" using m0 by simp
    have "m AND (m - 1) = 0"
      using less.prems(2) m0 unfolding m by (subst (asm) and_rec) (simp only: div, simp)
    with less.IH [OF mn m0] m show ?thesis by (metis power_Suc)
  next
    case False
    then have "(n - 1) div 2 = n div 2" by (auto elim: oddE)
    with less.prems(2) have "n div 2 AND n div 2 = 0"
      by (subst (asm) and_rec) simp
    with False have "n = 2 ^ 0" by (auto elim: oddE)
    then show ?thesis ..
  qed
qed

lemma new_queue_ok:
  assumes "2 \<le> sz" and "sz AND (sz - 1) = 0"
  obtains q where "new_queue dflt sz = Inr q" and "wf_queue q" and "queue_items q = []"
    and "queue_cap q = unat sz" and "tail_pos q = 0" and "head_pos q = 0"
proof -
  define q where "q = \<lparr>ring = map (\<lambda>i. \<lparr>sequence = word_of_nat i, node_data = dflt\<rparr>) [0..<unat sz],
    buffer_size = sz, buffer_mask = sz - 1, head_pos = 0, tail_pos = 0\<rparr>"
  have new: "new_queue dflt sz = Inr q" using assms by (simp add: new_queue_def q_def)
  have u2: "2 \<le> unat sz" using assms(1) by (simp add: word_le_nat_alt)
  have pred: "unat (sz - 1) = unat sz - 1" using u2 by (intro unat_minus_one) auto
  have "unat sz AND (unat sz - 1) = 0"
    using arg_cong [OF assms(2), of unat] by (simp add: unsigned_and_eq pred)
  with u2 and_pred_pow2 [of "unat sz"] obtain k where k: "unat sz = 2 ^ k" by auto
  have k1: "1 \<le> k" using u2 k by (cases k) auto
  have k63: "k \<le> 63"
  proof (rule ccontr)
    assume "\<not> k \<le> 63"
    then have "(2::nat) ^ 64 \<le> 2 ^ k" by (intro power_increasing) auto
    with k unsigned_less [of sz, where ?'a = nat] show False by simp
  qed
  have sz: "sz = 2 ^ k" using k by (simp add: word_unat_eq_iff unat_pow2 [OF k63])
  have r: "pow2_ring q" using k k1 k63 by (auto simp: pow2_ring_def q_def sz unat_pow2)
  have "slot q (word_of_nat j) = j" if "j < unat sz" for j
    using slot_add [OF r, of 0 j] that by (simp add: q_def)
  then have "wf_queue q"
    using r by (auto simp: wf_queue_def node_at_def queue_len_def q_def)
  then show ?thesis
    using that [OF new] by (simp add: queue_items_def queue_len_def queue_cap_def q_def)
qed

subsection \<open>The retry loop\<close>

text \<open>The number of attempts left from \<open>i\<close> and \<open>r\<close> when none succeeds.\<close>

function attempts :: "nat \<Rightarrow> nat \<Rightarrow> nat" where
  "attempts i r =
     (if 65 \<le> i then 0
      else Suc (if i AND 64 \<noteq> 0 then attempts (2 ^ Suc r + 1) (Suc r) else attempts (Suc i) r))"
  by pat_completeness auto

termination
proof (relation "measure (\<lambda>(i, r). spin_measure i r)", goal_cases)
  case 1
  show ?case by simp
next
  case (2 i r)
  then show ?case by (simp del: power_Suc One_nat_def add: spin_measure_yield)
next
  case (3 i r)
  then show ?case by (simp add: spin_measure_def) arith
qed

declare attempts.simps [simp del]

lemma attempts_322: "attempts 1 0 = 322"
  by code_simp

lemma spin_never:
  assumes "\<And>n. attempt n s = Some (s, False)"
  shows "spin attempt n i r s = Some (s, False, n + attempts i r)"
proof (induction i r arbitrary: n rule: attempts.induct)
  case (1 i r)
  show ?case
  proof (cases "65 \<le> i")
    case True
    then show ?thesis by (simp add: spin.simps [of attempt n i] attempts.simps [of i])
  next
    case False
    with 1 show ?thesis
      by (simp add: spin.simps [of attempt n i] attempts.simps [of i] assms del: power_Suc)
  qed
qed

lemma spin_first:
  "i < 65 \<Longrightarrow> attempt n s = Some (s', True) \<Longrightarrow> spin attempt n i r s = Some (s', True, Suc n)"
  by (simp add: spin.simps [of attempt n i])


lemma push_room:
  assumes "wf_queue q" and "length (queue_items q) < queue_cap q"
  shows "\<exists>q'. push (\<lambda>n q. q) q x = Some (q', True, 1) \<and> wf_queue q'
    \<and> queue_items q' = queue_items q @ [x] \<and> queue_cap q' = queue_cap q"
  using mq.put_room [OF assms, of x] spin_first [of 1 "\<lambda>n q. try_push q x" 0 q]
  by (auto simp: push_def)

lemma push_full:
  assumes "wf_queue q" and "length (queue_items q) = queue_cap q"
  shows "push (\<lambda>n q. q) q x = Some (q, False, 322)"
  using spin_never [of "\<lambda>n q. try_push q x" q 0 1 0] mq.put_full [OF assms]
  by (simp add: push_def attempts_322 [simplified])

subsection \<open>Properties\<close>

text \<open>C32: a thread alone in \<open>try_push\<close> returns after at most five accesses; it appends the value to
  the queue of stored items exactly when fewer items than the capacity are stored, and otherwise
  returns false and changes nothing. The positions may have wrapped around.\<close>

theorem try_push_refines:
  assumes "wf_queue q"
  shows "\<exists>q' ok. try_push q x = Some (q', ok) \<and> wf_queue q' \<and> queue_cap q' = queue_cap q
    \<and> ok = (length (queue_items q) < queue_cap q)
    \<and> queue_items q' = (if ok then queue_items q @ [x] else queue_items q)
    \<and> (\<not> ok \<longrightarrow> q' = q)"
proof (cases "length (queue_items q) < queue_cap q")
  case True
  then obtain q' where "try_push q x = Some (q', True)" "wf_queue q'"
      "queue_items q' = queue_items q @ [x]" "queue_cap q' = queue_cap q"
    using mq.put_room [OF assms, of x] by blast
  with True show ?thesis by (intro exI [of _ q'] exI [of _ True]) simp
next
  case False
  with mq.items_cap [OF assms] have "length (queue_items q) = queue_cap q" by simp
  with mq.put_full [OF assms] assms show ?thesis by auto
qed

theorem try_push_refines_witness:
  "\<exists>q q'. wf_queue q \<and> tail_pos q = 18446744073709551615 \<and> queue_items q = [7 :: nat]
    \<and> try_push q 5 = Some (q', True) \<and> queue_items q' = [7, 5]"
proof -
  define q where "q = \<lparr>ring = [\<lparr>sequence = 18446744073709551615, node_data = 7 :: nat\<rparr>,
      \<lparr>sequence = 18446744073709551615, node_data = 1\<rparr>], buffer_size = 2, buffer_mask = 1,
      head_pos = 18446744073709551614, tail_pos = 18446744073709551615\<rparr>"
  have "pow2_ring q" by (auto simp: q_def pow2_ring_def intro: exI [of _ 1])
  then have w: "wf_queue q"
    by (auto simp: q_def wf_queue_def queue_len_def node_at_def slot_def less_Suc_eq numeral_2_eq_2)
  have i: "queue_items q = [7]" "queue_cap q = 2" "tail_pos q = 18446744073709551615"
    by (simp_all add: q_def queue_items_def queue_len_def queue_cap_def node_at_def slot_def upt_rec)
  from i(1) have "length (queue_items q) = 1" by (simp only: list.size)
  with i try_push_refines [OF w, of 5] have "\<exists>q'. try_push q 5 = Some (q', True) \<and> queue_items q' = [7, 5]"
    by force
  with w i show ?thesis by blast
qed

text \<open>C35: a thread alone in \<open>try_pop\<close> returns after at most five accesses with the oldest stored
  item, which it removes, or with nothing exactly when no item is stored.\<close>

theorem try_pop_refines:
  assumes "wf_queue q"
  shows "\<exists>q'. try_pop q = Some (q', case queue_items q of [] \<Rightarrow> None | x # xs \<Rightarrow> Some x)
    \<and> wf_queue q' \<and> queue_cap q' = queue_cap q \<and> queue_items q' = tl (queue_items q)"
proof (cases "queue_items q")
  case Nil
  with mq.get_none [OF assms] assms show ?thesis by simp
next
  case (Cons x xs)
  with mq.get_item [OF assms] show ?thesis by auto
qed

theorem try_pop_refines_witness:
  "\<exists>q q'. new_queue (0::nat) 2 = Inr q \<and> try_pop q = Some (q', None) \<and> queue_items q' = []"
proof -
  obtain q where q: "new_queue (0::nat) 2 = Inr q" "wf_queue q" "queue_items q = []"
    using new_queue_ok [of 2 0] by auto
  with try_pop_refines [OF q(2)] show ?thesis by auto
qed

text \<open>For every size the constructor accepts (a power of two, at least 2), any number of values
  up to the size can be pushed into the new queue and they are popped again in the same order,
  after which the queue reports itself empty.\<close>

theorem queue_round_trip:
  assumes "2 \<le> sz" and "sz AND (sz - 1) = 0" and "length xs \<le> unat sz"
  shows "\<exists>q0 q1 q2. new_queue dflt sz = Inr q0 \<and> put_all try_push xs q0 = Some q1
    \<and> pop_all try_pop (Suc (length xs)) q1 = Some (q2, xs) \<and> queue_empty q2"
proof -
  obtain q0 where q0: "new_queue dflt sz = Inr q0" "wf_queue q0" "queue_items q0 = []"
      "queue_cap q0 = unat sz"
    using new_queue_ok [OF assms(1,2)] by metis
  with mq.put_all_get_all [OF q0(2,3), of xs] assms(3) show ?thesis by auto
qed

theorem queue_round_trip_witness:
  "\<exists>q0 q1 q2. new_queue (0::nat) 4 = Inr q0 \<and> put_all try_push [7, 8, 9] q0 = Some q1
    \<and> pop_all try_pop (Suc (length [7, 8, 9 :: nat])) q1 = Some (q2, [7, 8, 9]) \<and> queue_empty q2"
  by (rule queue_round_trip) simp_all

text \<open>\<open>push\<close> is not blocking. On a queue that stays full it makes exactly 322 attempts and
  returns with the value dropped and nothing to tell the caller so; with room it stores the value
  at the first attempt.\<close>

theorem push_gives_up:
  assumes "wf_queue q"
  shows "\<exists>q' ok n. push (\<lambda>n q. q) q x = Some (q', ok, n)
    \<and> ok = (length (queue_items q) < queue_cap q)
    \<and> (if ok then n = 1 \<and> queue_items q' = queue_items q @ [x] else n = 322 \<and> q' = q)"
proof (cases "length (queue_items q) < queue_cap q")
  case True
  then obtain q' where "push (\<lambda>n q. q) q x = Some (q', True, 1)" "queue_items q' = queue_items q @ [x]"
    using push_room [OF assms, of x] by blast
  with True show ?thesis by (intro exI [of _ q'] exI [of _ True] exI [of _ 1]) simp
next
  case False
  with mq.items_cap [OF assms] have "length (queue_items q) = queue_cap q" by simp
  from push_full [OF assms this] False show ?thesis by (intro exI [of _ q] exI [of _ False] exI [of _ 322]) simp
qed

theorem push_gives_up_witness:
  "\<exists>q. wf_queue q \<and> queue_items q = [1, 2 :: nat] \<and> push (\<lambda>n q. q) q 3 = Some (q, False, 322)"
proof -
  have two: "(2::u64) \<le> 2" "(2::u64) AND (2 - 1) = 0" by simp_all
  obtain q0 where "new_queue (0::nat) 2 = Inr q0" and q0: "wf_queue q0" "queue_items q0 = []"
      "queue_cap q0 = unat (2::u64)" and "tail_pos q0 = 0" "head_pos q0 = 0"
    using new_queue_ok [OF two] .
  have l: "length (queue_items q0) + length [1, 2 :: nat] \<le> queue_cap q0"
    unfolding q0(2,3) by simp
  obtain q where q: "wf_queue q" "queue_items q = [1, 2 :: nat]" "queue_cap q = unat (2::u64)"
    using mq.put_all_ok [OF q0(1) l] unfolding q0(2,3) append_Nil by blast
  from q(2) have "\<not> length (queue_items q) < queue_cap q" unfolding q(2,3) by simp
  with push_gives_up [OF q(1), of 3] have "push (\<lambda>n q. q) q 3 = Some (q, False, 322)"
    by (elim exE conjE) (simp only: if_False)
  with q show ?thesis by blast
qed

end
