(* ===== verification/Mpmc_Threads.thy ===== *)
theory Mpmc_Threads
  imports Mpmc_Queue
begin

unbundle bit_operations_syntax

text \<open>
  Any number of threads inside \<^verbatim>\<open>try_push\<close> and \<^verbatim>\<open>try_pop\<close> of the same queue
  (\<^verbatim>\<open>src/src/helpers/queue.h\<close>), interleaved access by access. Accesses are sequentially
  consistent: the memory orders of the source are not modelled. The invariant \<open>threads_inv\<close> ties
  the sequence numbers of the ring to the threads that own a position; it gives that values come
  out once each and in the order in which their positions were claimed.
\<close>

subsection \<open>Any interleaving of threads\<close>

text \<open>
  A system is a queue and the places of any number of pushing and popping threads. The history
  \<open>hist\<close> is a ghost: the values in the order in which their positions were claimed. A thread that
  has returned may start a new call.
\<close>

record 'a system =
  queue :: "'a mpmc_bounded_Queue"
  pushers :: "nat \<Rightarrow> 'a push_pc"
  poppers :: "nat \<Rightarrow> 'a pop_pc"
  hist :: "'a list"

fun claims :: "bool \<Rightarrow> 'a mpmc_bounded_Queue \<Rightarrow> 'a push_pc \<Rightarrow> 'a list" where
  "claims spur q (PushCas x pos) = (if \<not> spur \<and> tail_pos q = pos then [x] else [])"
| "claims spur q pc = []"

inductive queue_step :: "'a system \<Rightarrow> 'a system \<Rightarrow> bool" where
  push_access: "push_step spur (queue s) (pushers s t) = (q', pc') \<Longrightarrow>
     queue_step s (s\<lparr>queue := q', pushers := (pushers s)(t := pc'),
       hist := hist s @ claims spur (queue s) (pushers s t)\<rparr>)"
| push_call: "pushers s t = PushDone r \<Longrightarrow>
     queue_step s (s\<lparr>pushers := (pushers s)(t := PushStart x)\<rparr>)"
| pop_access: "pop_step spur (queue s) (poppers s t) = (q', pc') \<Longrightarrow>
     queue_step s (s\<lparr>queue := q', poppers := (poppers s)(t := pc')\<rparr>)"
| pop_call: "poppers s t = PopDone r \<Longrightarrow>
     queue_step s (s\<lparr>poppers := (poppers s)(t := PopStart)\<rparr>)"

text \<open>
  The runs considered: from a new queue, at most \<open>2 ^ 63 - 1\<close> positions are ever claimed, so that
  a position read long ago cannot be mistaken for a new one that wrapped around to it.
\<close>

inductive reachable :: "'a mpmc_bounded_Queue \<Rightarrow> 'a system \<Rightarrow> bool" for q0 where
  start: "reachable q0 \<lparr>queue = q0, pushers = (\<lambda>_. PushDone False), poppers = (\<lambda>_. PopDone None),
    hist = []\<rparr>"
| step: "reachable q0 s \<Longrightarrow> queue_step s s' \<Longrightarrow> length (hist s') < 2 ^ 63 \<Longrightarrow> reachable q0 s'"

subsection \<open>Sequence numbers and data by position\<close>

definition seq_of :: "'a mpmc_bounded_Queue \<Rightarrow> nat \<Rightarrow> nat" where
  "seq_of q p = unat (sequence (ring q ! (p mod length (ring q))))"

definition dat_of :: "'a mpmc_bounded_Queue \<Rightarrow> nat \<Rightarrow> 'a" where
  "dat_of q p = node_data (ring q ! (p mod length (ring q)))"

abbreviation head_at :: "'a mpmc_bounded_Queue \<Rightarrow> nat" where
  "head_at q \<equiv> unat (head_pos q)"

abbreviation tail_at :: "'a mpmc_bounded_Queue \<Rightarrow> nat" where
  "tail_at q \<equiv> unat (tail_pos q)"

lemma node_at_pos:
  assumes "pow2_ring q"
  shows "unat (sequence (node_at q pos)) = seq_of q (unat pos)"
    and "node_data (node_at q pos) = dat_of q (unat pos)"
  using assms by (simp_all add: seq_of_def dat_of_def node_at_def slot_mod)

lemma seq_of_updates [simp]:
  "seq_of (q\<lparr>tail_pos := t\<rparr>) = seq_of q" "seq_of (q\<lparr>head_pos := t\<rparr>) = seq_of q"
  "dat_of (q\<lparr>tail_pos := t\<rparr>) = dat_of q" "dat_of (q\<lparr>head_pos := t\<rparr>) = dat_of q"
  by (simp_all add: seq_of_def dat_of_def fun_eq_iff)

lemma seq_of_set:
  assumes "pow2_ring q"
  shows "seq_of (set_data q pos x) = seq_of q"
    and "dat_of (set_sequence q pos v) = dat_of q"
    and "seq_of (set_sequence q pos v) p =
      (if p mod length (ring q) = unat pos mod length (ring q) then unat v else seq_of q p)"
    and "dat_of (set_data q pos x) p =
      (if p mod length (ring q) = unat pos mod length (ring q) then x else dat_of q p)"
  using slot_less [OF assms, of pos]
  by (auto simp: seq_of_def dat_of_def set_data_def set_sequence_def node_at_def fun_eq_iff
      nth_list_update slot_mod [OF assms])

lemma same_slot:
  "p mod length (ring q) = p' mod length (ring q) \<Longrightarrow> seq_of q p = seq_of q p'"
  by (simp add: seq_of_def)

lemma next_slot: "2 \<le> n \<Longrightarrow> Suc p mod n \<noteq> p mod (n::nat)"
  by (auto simp: mod_Suc)

subsection \<open>The invariant\<close>

fun push_pos :: "'a push_pc \<Rightarrow> nat option" where
  "push_pos (PushStore x pos) = Some (unat pos)"
| "push_pos (PushRelease pos) = Some (unat pos)"
| "push_pos pc = None"

fun pop_pos :: "'a pop_pc \<Rightarrow> nat option" where
  "pop_pos (PopFetch pos) = Some (unat pos)"
| "pop_pos (PopRelease pos x) = Some (unat pos)"
| "pop_pos pc = None"

text \<open>What the ring looks like: \<open>h\<close> are the values in the order in which positions were claimed.\<close>

definition ring_inv :: "'a mpmc_bounded_Queue \<Rightarrow> 'a list \<Rightarrow> bool" where
  "ring_inv q h \<longleftrightarrow> pow2_ring q \<and> tail_at q = length h \<and> length h < 2 ^ 63
     \<and> head_at q \<le> tail_at q \<and> tail_at q \<le> head_at q + length (ring q)
     \<and> (\<forall>p. seq_of q p = Suc p \<longrightarrow> p < tail_at q)
     \<and> (\<forall>p. head_at q \<le> p \<and> p < tail_at q \<longrightarrow> seq_of q p = p \<or> seq_of q p = Suc p \<and> dat_of q p = h ! p)"

text \<open>A pusher that claimed a position owns its node until it publishes it.\<close>

definition push_owner :: "'a mpmc_bounded_Queue \<Rightarrow> nat \<Rightarrow> bool" where
  "push_owner q p \<longleftrightarrow> head_at q \<le> p \<and> p < tail_at q \<and> seq_of q p = p"

definition pop_owner :: "'a mpmc_bounded_Queue \<Rightarrow> 'a list \<Rightarrow> nat \<Rightarrow> bool" where
  "pop_owner q h p \<longleftrightarrow> p < head_at q \<and> tail_at q \<le> p + length (ring q) \<and> seq_of q p = Suc p
     \<and> dat_of q p = h ! p"

fun push_ok :: "'a mpmc_bounded_Queue \<Rightarrow> 'a list \<Rightarrow> 'a push_pc \<Rightarrow> bool" where
  "push_ok q h (PushRead x pos) \<longleftrightarrow> unat pos \<le> tail_at q"
| "push_ok q h (PushCas x pos) \<longleftrightarrow>
     unat pos \<le> tail_at q \<and> (unat pos = tail_at q \<longrightarrow> seq_of q (unat pos) = unat pos)"
| "push_ok q h (PushStore x pos) \<longleftrightarrow> push_owner q (unat pos) \<and> h ! unat pos = x"
| "push_ok q h (PushRelease pos) \<longleftrightarrow> push_owner q (unat pos) \<and> dat_of q (unat pos) = h ! unat pos"
| "push_ok q h pc \<longleftrightarrow> True"

fun pop_ok :: "'a mpmc_bounded_Queue \<Rightarrow> 'a list \<Rightarrow> 'a pop_pc \<Rightarrow> bool" where
  "pop_ok q h (PopRead pos) \<longleftrightarrow> unat pos \<le> head_at q"
| "pop_ok q h (PopCas pos) \<longleftrightarrow>
     unat pos \<le> head_at q \<and> (unat pos = head_at q \<longrightarrow> seq_of q (unat pos) = Suc (unat pos))"
| "pop_ok q h (PopFetch pos) \<longleftrightarrow> pop_owner q h (unat pos)"
| "pop_ok q h (PopRelease pos x) \<longleftrightarrow> pop_owner q h (unat pos) \<and> x = h ! unat pos"
| "pop_ok q h pc \<longleftrightarrow> True"

definition distinct_owners :: "('t \<Rightarrow> nat option) \<Rightarrow> bool" where
  "distinct_owners f \<longleftrightarrow> (\<forall>t t' p. f t = Some p \<and> f t' = Some p \<longrightarrow> t = t')"

definition threads_inv :: "'a system \<Rightarrow> bool" where
  "threads_inv s \<longleftrightarrow> ring_inv (queue s) (hist s)
     \<and> (\<forall>t. push_ok (queue s) (hist s) (pushers s t))
     \<and> (\<forall>t. pop_ok (queue s) (hist s) (poppers s t))
     \<and> distinct_owners (push_pos \<circ> pushers s) \<and> distinct_owners (pop_pos \<circ> poppers s)"

subsection \<open>The five accesses that change the queue\<close>

text \<open>
  For each: the ring stays well formed and the threads that do not own the node concerned keep
  what they know.
\<close>

lemma ring_invD:
  assumes "ring_inv q h"
  shows "pow2_ring q" "2 \<le> length (ring q)" "tail_at q = length h" "length h < 2 ^ 63"
    "head_at q \<le> tail_at q" "tail_at q \<le> head_at q + length (ring q)"
    "\<And>p. seq_of q p = Suc p \<Longrightarrow> p < tail_at q"
    "\<And>p. head_at q \<le> p \<Longrightarrow> p < tail_at q \<Longrightarrow> seq_of q p = p \<or> seq_of q p = Suc p \<and> dat_of q p = h ! p"
  using assms ring_size(2) by (auto simp: ring_inv_def)

lemma unat_succ: "unat (w::u64) < 2 ^ 63 \<Longrightarrow> unat (w + 1) = Suc (unat w)"
  by (simp add: unat_word_ariths)

lemma claim_push:
  assumes "ring_inv q h" and "seq_of q (tail_at q) = tail_at q" and "Suc (length h) < 2 ^ 63"
  defines "q' \<equiv> q\<lparr>tail_pos := tail_pos q + 1\<rparr>"
  shows "ring_inv q' (h @ [x])"
    and "push_ok q h pc \<Longrightarrow> push_ok q' (h @ [x]) pc"
    and "pop_ok q h pc' \<Longrightarrow> pop_ok q' (h @ [x]) pc'"
    and "push_ok q' (h @ [x]) (PushStore x (tail_pos q))"
proof -
  note I = ring_invD [OF assms(1)]
  have T: "tail_at q' = Suc (tail_at q)" and H: "head_at q' = head_at q"
    and N: "length (ring q') = length (ring q)"
    using I(3,4) by (simp_all add: q'_def unat_succ)
  have room: "tail_at q < p + length (ring q)" if "seq_of q p = Suc p \<or> seq_of q p = p"
      "tail_at q \<le> p + length (ring q)" for p
  proof (rule ccontr)
    assume "\<not> ?thesis"
    with that(2) have p: "tail_at q = p + length (ring q)" by simp
    then have "seq_of q (tail_at q) = seq_of q p" by (intro same_slot) simp
    with that(1) assms(2) p I(2) show False by auto
  qed
  have full: "tail_at q < head_at q + length (ring q)"
  proof (cases "head_at q < tail_at q")
    case True
    then show ?thesis using I(8) [of "head_at q"] room [of "head_at q"] I(6) by auto
  next
    case False
    then show ?thesis using I(2,5) by linarith
  qed
  have sd: "seq_of q' = seq_of q" "dat_of q' = dat_of q" by (simp_all add: q'_def)
  have old: "p < tail_at q \<Longrightarrow> (h @ [x]) ! p = h ! p" for p
    using I(3) by (simp add: nth_append)
  have pop: "pop_owner q' (h @ [x]) p" if "pop_owner q h p" for p
    using that room [of p] old [of p] I(5) by (auto simp: pop_owner_def T H N sd)
  have slots: "seq_of q p = p \<or> seq_of q p = Suc p \<and> dat_of q p = (h @ [x]) ! p"
    if "head_at q \<le> p" "p < Suc (tail_at q)" for p
    using that I(8) [of p] old [of p] assms(2) by (cases "p = tail_at q") auto
  have seen: "p < Suc (tail_at q)" if "seq_of q p = Suc p" for p
    using I(7) [OF that] by simp
  show "ring_inv q' (h @ [x])"
    unfolding ring_inv_def T H N sd
    using I(1,3,5) full assms(3) slots seen by (auto simp: q'_def)
  show "push_ok q' (h @ [x]) pc" if "push_ok q h pc"
    using that old by (cases pc) (auto simp: push_owner_def T H N sd)
  show "pop_ok q' (h @ [x]) pc'" if "pop_ok q h pc'"
    using that pop old I(5) by (cases pc') (auto simp: H sd pop_owner_def)
  show "push_ok q' (h @ [x]) (PushStore x (tail_pos q))"
    using assms(2) I(3,5) by (simp add: push_owner_def T H sd nth_append)
qed


text \<open>Two positions with the same node are the same or differ by whole rounds.\<close>

lemma owners_apart:
  assumes "2 \<le> length (ring q)" and "p mod length (ring q) = p' mod length (ring q)"
  shows "seq_of q p = Suc p \<Longrightarrow> seq_of q p' \<noteq> p'"
    and "seq_of q p = p \<Longrightarrow> seq_of q p' = p' \<Longrightarrow> p = p'"
    and "seq_of q p = Suc p \<Longrightarrow> seq_of q p' = Suc p' \<Longrightarrow> p = p'"
  using same_slot [OF assms(2)] next_slot [OF assms(1)] assms(2) by (metis nat.inject)+

lemma store_push:
  assumes "ring_inv q h" and "push_owner q (unat pos)" and "h ! unat pos = x"
  defines "q' \<equiv> set_data q pos x"
  shows "ring_inv q' h"
    and "push_ok q h pc \<Longrightarrow> push_pos pc \<noteq> Some (unat pos) \<Longrightarrow> push_ok q' h pc"
    and "pop_ok q h pc' \<Longrightarrow> pop_ok q' h pc'"
    and "push_ok q' h (PushRelease pos)"
proof -
  note I = ring_invD [OF assms(1)]
  note U = seq_of_set(1,4) [OF I(1), of pos x]
  have F: "tail_at q' = tail_at q" "head_at q' = head_at q" "length (ring q') = length (ring q)"
    "seq_of q' = seq_of q" "pow2_ring q'"
    using I(1) by (simp_all add: q'_def U)
  have apart: "dat_of q' p = dat_of q p" if "seq_of q p = Suc p" for p
    using owners_apart(1) [OF I(2) _ that, of "unat pos"] assms(2)
    by (auto simp: q'_def U push_owner_def)
  have apart': "dat_of q' p = dat_of q p" if "seq_of q p = p" "p \<noteq> unat pos" for p
    using owners_apart(2) [OF I(2) _ that(1), of "unat pos"] that(2) assms(2)
    by (auto simp: q'_def U push_owner_def)
  have slots: "seq_of q p = p \<or> seq_of q p = Suc p \<and> dat_of q' p = h ! p"
    if "head_at q \<le> p" "p < tail_at q" for p
    using I(8) [OF that] apart [of p] by auto
  show "ring_inv q' h"
    unfolding ring_inv_def F using F(5) I(3,4,5,6,7) slots by auto
  have own: "push_owner q' p = push_owner q p" for p
    by (simp add: push_owner_def F)
  have pop: "pop_owner q' h p" if "pop_owner q h p" for p
    using that apart [of p] by (auto simp: pop_owner_def F)
  show "push_ok q' h pc" if "push_ok q h pc" "push_pos pc \<noteq> Some (unat pos)"
    using that apart' by (cases pc) (auto simp: F own push_owner_def)
  show "pop_ok q' h pc'" if "pop_ok q h pc'"
    using that pop by (cases pc') (auto simp: F)
  show "push_ok q' h (PushRelease pos)"
    using assms(2,3) by (simp add: own) (simp add: q'_def U)
qed

lemma release_push:
  assumes "ring_inv q h" and "push_owner q (unat pos)" and "dat_of q (unat pos) = h ! unat pos"
  defines "q' \<equiv> set_sequence q pos (pos + 1)"
  shows "ring_inv q' h"
    and "push_ok q h pc \<Longrightarrow> push_pos pc \<noteq> Some (unat pos) \<Longrightarrow> push_ok q' h pc"
    and "pop_ok q h pc' \<Longrightarrow> pop_ok q' h pc'"
proof -
  note I = ring_invD [OF assms(1)]
  define n where "n = unat pos"
  have n: "head_at q \<le> n" "n < tail_at q" "seq_of q n = n" "dat_of q n = h ! n"
    using assms(2,3) by (simp_all add: push_owner_def n_def)
  have succ: "unat (pos + 1) = Suc n" using n(2) I(3,4) by (simp add: unat_succ n_def)
  note U = seq_of_set(2,3) [OF I(1), of pos "pos + 1"]
  have F: "tail_at q' = tail_at q" "head_at q' = head_at q" "length (ring q') = length (ring q)"
    "dat_of q' = dat_of q" "pow2_ring q'"
    using I(1) by (simp_all add: q'_def U)
  have seq: "seq_of q' p = (if p mod length (ring q) = n mod length (ring q) then Suc n
      else seq_of q p)" for p
    by (simp add: q'_def U succ n_def)
  have full: "seq_of q' p = Suc p" if "seq_of q p = Suc p" for p
    using owners_apart(1) [OF I(2) _ that, of n] n(3) that by (auto simp: seq)
  have mine: "seq_of q' p = p" if "seq_of q p = p" "p \<noteq> n" for p
    using owners_apart(2) [OF I(2) _ that(1), of n] n(3) that by (auto simp: seq)
  have old: "p = n \<or> seq_of q p = Suc p" if "seq_of q' p = Suc p" for p
    using that by (auto simp: seq split: if_splits)
  have slots: "seq_of q' p = p \<or> seq_of q' p = Suc p \<and> dat_of q p = h ! p"
    if "head_at q \<le> p" "p < tail_at q" for p
    using I(8) [OF that] full [of p] mine [of p] n(4) by (cases "p = n") (auto simp: seq)
  have seen: "p < tail_at q" if "seq_of q' p = Suc p" for p
    using old [OF that] I(7) [of p] n(2) by auto
  show "ring_inv q' h"
    unfolding ring_inv_def F using F(5) I(3,4,5,6) slots seen by auto
  show "push_ok q' h pc" if "push_ok q h pc" "push_pos pc \<noteq> Some (unat pos)"
    using that mine n(2) by (cases pc) (auto simp: F push_owner_def n_def [symmetric])
  show "pop_ok q' h pc'" if "pop_ok q h pc'"
    using that full by (cases pc') (auto simp: F pop_owner_def)
qed

lemma claim_pop:
  assumes "ring_inv q h" and "seq_of q (head_at q) = Suc (head_at q)"
  defines "q' \<equiv> q\<lparr>head_pos := head_pos q + 1\<rparr>"
  shows "ring_inv q' h"
    and "push_ok q h pc \<Longrightarrow> push_ok q' h pc"
    and "pop_ok q h pc' \<Longrightarrow> pop_ok q' h pc'"
    and "pop_ok q' h (PopFetch (head_pos q))"
proof -
  note I = ring_invD [OF assms(1)]
  have lt: "head_at q < tail_at q" using I(7) [OF assms(2)] .
  have dat: "dat_of q (head_at q) = h ! head_at q" using I(8) [of "head_at q"] lt assms(2) by auto
  have H: "head_at q' = Suc (head_at q)"
    using lt I(3,4) by (simp add: q'_def unat_succ)
  have F: "tail_at q' = tail_at q" "length (ring q') = length (ring q)"
    "dat_of q' = dat_of q" "seq_of q' = seq_of q" "pow2_ring q'"
    using I(1) by (simp_all add: q'_def)
  show "ring_inv q' h"
    unfolding ring_inv_def F H using F(5) I lt by auto
  show "push_ok q' h pc" if "push_ok q h pc"
  proof -
    have "Suc (head_at q) \<le> p" if "head_at q \<le> p" "seq_of q p = p" for p
      using that assms(2) by (cases "p = head_at q") auto
    with that show ?thesis by (cases pc) (auto simp: F H push_owner_def)
  qed
  show "pop_ok q' h pc'" if "pop_ok q h pc'"
    using that by (cases pc') (auto simp: F H pop_owner_def)
  show "pop_ok q' h (PopFetch (head_pos q))"
    using assms(2) dat I(6) by (simp add: pop_owner_def F H)
qed

lemma release_seq:
  assumes "ring_inv q h" and "pop_owner q h (unat pos)"
  shows "unat (pos + buffer_mask q + 1) = unat pos + length (ring q)"
proof -
  note I = ring_invD [OF assms(1)]
  have "unat pos + length (ring q) < 2 ^ 64"
    using assms(2) I(3,4,5) ring_size(3) [OF I(1)] by (simp add: pop_owner_def)
  then have "unat (pos + word_of_nat (length (ring q))) = unat pos + length (ring q)"
    using ring_size(3) [OF I(1)] by (simp add: unat_word_ariths unat_small)
  then show ?thesis by (simp only: ring_size(5) [OF I(1)] add.assoc)
qed

lemma release_pop:
  assumes "ring_inv q h" and "pop_owner q h (unat pos)"
  defines "q' \<equiv> set_sequence q pos (pos + buffer_mask q + 1)"
  shows "ring_inv q' h"
    and "push_ok q h pc \<Longrightarrow> push_ok q' h pc"
    and "pop_ok q h pc' \<Longrightarrow> pop_pos pc' \<noteq> Some (unat pos) \<Longrightarrow> pop_ok q' h pc'"
proof -
  note I = ring_invD [OF assms(1)]
  define n where "n = unat pos"
  have n: "n < head_at q" "seq_of q n = Suc n" "tail_at q \<le> n + length (ring q)"
    using assms(2) by (simp_all add: pop_owner_def n_def)
  have succ: "unat (pos + buffer_mask q + 1) = n + length (ring q)"
    using release_seq [OF assms(1,2)] by (simp add: n_def)
  note U = seq_of_set(2,3) [OF I(1), of pos "pos + buffer_mask q + 1"]
  have F: "tail_at q' = tail_at q" "head_at q' = head_at q" "length (ring q') = length (ring q)"
    "dat_of q' = dat_of q" "pow2_ring q'"
    using I(1) by (simp_all add: q'_def U)
  have seq: "seq_of q' p = (if p mod length (ring q) = n mod length (ring q)
      then n + length (ring q) else seq_of q p)" for p
    by (simp add: q'_def U succ n_def)
  have free: "seq_of q' p = p" if "seq_of q p = p" for p
    using owners_apart(1) [OF I(2) _ n(2), of p] that by (auto simp: seq)
  have full: "seq_of q' p = Suc p" if "seq_of q p = Suc p" "p \<noteq> n" for p
    using owners_apart(3) [OF I(2) _ that(1), of n] n(2) that by (auto simp: seq)
  have old: "seq_of q p = Suc p" if "seq_of q' p = Suc p" for p
  proof (rule ccontr)
    assume "seq_of q p \<noteq> Suc p"
    with that have eq: "p mod length (ring q) = n mod length (ring q)" "n + length (ring q) = Suc p"
      by (auto simp: seq split: if_splits)
    then have "Suc p mod length (ring q) = p mod length (ring q)"
      by (metis mod_add_self2)
    with next_slot [OF I(2)] show False by blast
  qed
  have slots: "seq_of q' p = p \<or> seq_of q' p = Suc p \<and> dat_of q p = h ! p"
    if "head_at q \<le> p" "p < tail_at q" for p
    using I(8) [OF that] free [of p] full [of p] n(1) that by auto
  show "ring_inv q' h"
    unfolding ring_inv_def F using F(5) I(3,4,5,6,7) slots old by auto
  show "push_ok q' h pc" if "push_ok q h pc"
    using that free by (cases pc) (auto simp: F push_owner_def)
  show "pop_ok q' h pc'" if "pop_ok q h pc'" "pop_pos pc' \<noteq> Some (unat pos)"
    using that full n(1) by (cases pc') (auto simp: F pop_owner_def n_def [symmetric])
qed


subsection \<open>Every access of every thread keeps the invariant\<close>

lemma distinct_owners_upd:
  assumes "distinct_owners f" and "g = None \<or> g = f t \<or> (\<forall>t'. f t' \<noteq> g)"
  shows "distinct_owners (f(t := g))"
  using assms unfolding distinct_owners_def by (auto split: if_splits)

lemma threads_inv_push:
  assumes "threads_inv s" and "ring_inv q' h'" and "push_ok q' h' pc'"
    and "\<And>t'. t' \<noteq> t \<Longrightarrow> push_ok q' h' (pushers s t')"
    and "\<And>t'. pop_ok q' h' (poppers s t')"
    and "push_pos pc' = None \<or> push_pos pc' = push_pos (pushers s t)
      \<or> (\<forall>t'. push_pos (pushers s t') \<noteq> push_pos pc')"
  shows "threads_inv (s\<lparr>queue := q', pushers := (pushers s)(t := pc'), hist := h'\<rparr>)"
proof -
  have "distinct_owners ((push_pos \<circ> pushers s)(t := push_pos pc'))"
    using assms(1,6) by (intro distinct_owners_upd) (auto simp: threads_inv_def)
  with assms(1-5) show ?thesis
    by (auto simp: threads_inv_def fun_upd_comp)
qed

lemma threads_inv_pop:
  assumes "threads_inv s" and "ring_inv q' (hist s)" and "pop_ok q' (hist s) pc'"
    and "\<And>t'. t' \<noteq> t \<Longrightarrow> pop_ok q' (hist s) (poppers s t')"
    and "\<And>t'. push_ok q' (hist s) (pushers s t')"
    and "pop_pos pc' = None \<or> pop_pos pc' = pop_pos (poppers s t)
      \<or> (\<forall>t'. pop_pos (poppers s t') \<noteq> pop_pos pc')"
  shows "threads_inv (s\<lparr>queue := q', poppers := (poppers s)(t := pc')\<rparr>)"
proof -
  have "distinct_owners ((pop_pos \<circ> poppers s)(t := pop_pos pc'))"
    using assms(1,6) by (intro distinct_owners_upd) (auto simp: threads_inv_def)
  with assms(1-5) show ?thesis
    by (auto simp: threads_inv_def fun_upd_comp)
qed

lemma threads_invD:
  assumes "threads_inv s"
  shows "ring_inv (queue s) (hist s)" "push_ok (queue s) (hist s) (pushers s t)"
    "pop_ok (queue s) (hist s) (poppers s t)"
    "push_pos (pushers s t) = Some p \<Longrightarrow> t' \<noteq> t \<Longrightarrow> push_pos (pushers s t') \<noteq> Some p"
    "pop_pos (poppers s t) = Some p \<Longrightarrow> t' \<noteq> t \<Longrightarrow> pop_pos (poppers s t') \<noteq> Some p"
  using assms by (auto simp: threads_inv_def distinct_owners_def)

lemma push_pos_bound:
  "push_ok q h pc \<Longrightarrow> push_pos pc \<noteq> Some (tail_at q)"
  by (cases pc) (auto simp: push_owner_def)

lemma pop_pos_bound:
  "pop_ok q h pc \<Longrightarrow> pop_pos pc \<noteq> Some (head_at q)"
  by (cases pc) (auto simp: pop_owner_def)

lemma sint_0_iff: "sint (w::u64) = 0 \<longleftrightarrow> w = 0"
  by (rule signed_eq_0_iff)

lemma push_access_inv:
  assumes inv: "threads_inv s" and st: "push_step spur (queue s) (pushers s t) = (q', pc')"
    and len: "length (hist s @ claims spur (queue s) (pushers s t)) < 2 ^ 63"
  shows "threads_inv (s\<lparr>queue := q', pushers := (pushers s)(t := pc'),
    hist := hist s @ claims spur (queue s) (pushers s t)\<rparr>)"
proof (rule threads_inv_push [OF inv])
  note D = threads_invD [OF inv]
  note R = D(1) and I = ring_invD [OF D(1)]
  have "ring_inv q' (hist s @ claims spur (queue s) (pushers s t))
    \<and> push_ok q' (hist s @ claims spur (queue s) (pushers s t)) pc'
    \<and> (\<forall>t'. t' \<noteq> t \<longrightarrow> push_ok q' (hist s @ claims spur (queue s) (pushers s t)) (pushers s t'))
    \<and> (\<forall>t'. pop_ok q' (hist s @ claims spur (queue s) (pushers s t)) (poppers s t'))
    \<and> (push_pos pc' = None \<or> push_pos pc' = push_pos (pushers s t)
        \<or> (\<forall>t'. push_pos (pushers s t') \<noteq> push_pos pc'))"
  proof (cases "pushers s t")
    case (PushStart x)
    with st R D(2,3) show ?thesis by auto
  next
    case (PushRead x pos)
    have "sint (sequence (node_at (queue s) pos) - pos) = 0 \<Longrightarrow>
        seq_of (queue s) (unat pos) = unat pos"
      using node_at_pos(1) [OF I(1), of pos] by (simp add: sint_0_iff)
    with PushRead st R D(2,3) D(2) [of t] show ?thesis by (auto simp: Let_def split: if_splits)
  next
    case (PushCas x pos)
    show ?thesis
    proof (cases "\<not> spur \<and> tail_pos (queue s) = pos")
      case True
      have seq: "seq_of (queue s) (tail_at (queue s)) = tail_at (queue s)"
        using D(2) [of t] PushCas True by auto
      note C = claim_push [OF R seq, where x = x]
      have "\<forall>t'. push_pos (pushers s t') \<noteq> Some (tail_at (queue s))"
        using push_pos_bound [OF D(2)] by blast
      with C D(2,3) PushCas True st len show ?thesis by auto
    next
      case False
      with PushCas st R D(2,3) show ?thesis by auto
    qed
  next
    case (PushStore x pos)
    with D(2) [of t] have own: "push_owner (queue s) (unat pos)" "hist s ! unat pos = x" by auto
    note C = store_push [OF R own]
    from PushStore C D(2,3) D(4) [of t "unat pos"] st show ?thesis by auto
  next
    case (PushRelease pos)
    with D(2) [of t] have own: "push_owner (queue s) (unat pos)"
      "dat_of (queue s) (unat pos) = hist s ! unat pos" by auto
    note C = release_push [OF R own]
    from PushRelease C D(2,3) D(4) [of t "unat pos"] st show ?thesis by auto
  next
    case (PushDone r)
    then have "hist s @ claims spur (queue s) (pushers s t) = hist s" by simp
    moreover have "q' = queue s" "pc' = pushers s t" using st PushDone by auto
    ultimately show ?thesis using R D(2,3) by simp
  qed
  then show "ring_inv q' (hist s @ claims spur (queue s) (pushers s t))"
    and "push_ok q' (hist s @ claims spur (queue s) (pushers s t)) pc'"
    and "\<And>t'. t' \<noteq> t \<Longrightarrow> push_ok q' (hist s @ claims spur (queue s) (pushers s t)) (pushers s t')"
    and "\<And>t'. pop_ok q' (hist s @ claims spur (queue s) (pushers s t)) (poppers s t')"
    and "push_pos pc' = None \<or> push_pos pc' = push_pos (pushers s t)
        \<or> (\<forall>t'. push_pos (pushers s t') \<noteq> push_pos pc')"
    by blast+
qed

lemma pop_access_inv:
  assumes inv: "threads_inv s" and st: "pop_step spur (queue s) (poppers s t) = (q', pc')"
  shows "threads_inv (s\<lparr>queue := q', poppers := (poppers s)(t := pc')\<rparr>)"
proof (rule threads_inv_pop [OF inv])
  note D = threads_invD [OF inv]
  note R = D(1) and I = ring_invD [OF D(1)]
  have "ring_inv q' (hist s) \<and> pop_ok q' (hist s) pc'
    \<and> (\<forall>t'. t' \<noteq> t \<longrightarrow> pop_ok q' (hist s) (poppers s t'))
    \<and> (\<forall>t'. push_ok q' (hist s) (pushers s t'))
    \<and> (pop_pos pc' = None \<or> pop_pos pc' = pop_pos (poppers s t)
        \<or> (\<forall>t'. pop_pos (poppers s t') \<noteq> pop_pos pc'))"
  proof (cases "poppers s t")
    case PopStart
    with st R D(2,3) show ?thesis by auto
  next
    case (PopRead pos)
    have "sint (sequence (node_at (queue s) pos) - (pos + 1)) = 0 \<Longrightarrow>
        seq_of (queue s) (unat pos) = Suc (unat pos)"
      using node_at_pos(1) [OF I(1), of pos] D(3) [of t] PopRead I(3,4,5)
      by (simp add: sint_0_iff unat_succ)
    with PopRead st R D(2,3) D(3) [of t] show ?thesis by (auto simp: Let_def split: if_splits)
  next
    case (PopCas pos)
    show ?thesis
    proof (cases "\<not> spur \<and> head_pos (queue s) = pos")
      case True
      have seq: "seq_of (queue s) (head_at (queue s)) = Suc (head_at (queue s))"
        using D(3) [of t] PopCas True by auto
      note C = claim_pop [OF R seq]
      have "\<forall>t'. pop_pos (poppers s t') \<noteq> Some (head_at (queue s))"
        using pop_pos_bound [OF D(3)] by blast
      with C D(2,3) PopCas True st show ?thesis by auto
    next
      case False
      with PopCas st R D(2,3) show ?thesis by auto
    qed
  next
    case (PopFetch pos)
    with D(3) [of t] have "pop_owner (queue s) (hist s) (unat pos)" by auto
    with PopFetch st R D(2,3) node_at_pos(2) [OF I(1), of pos] show ?thesis
      by (auto simp: pop_owner_def)
  next
    case (PopRelease pos x)
    with D(3) [of t] have own: "pop_owner (queue s) (hist s) (unat pos)" by auto
    note C = release_pop [OF R own]
    from PopRelease C D(2,3) D(5) [of t "unat pos"] st show ?thesis by auto
  next
    case (PopDone r)
    with st R D(2,3) show ?thesis by auto
  qed
  then show "ring_inv q' (hist s)" and "pop_ok q' (hist s) pc'"
    and "\<And>t'. t' \<noteq> t \<Longrightarrow> pop_ok q' (hist s) (poppers s t')"
    and "\<And>t'. push_ok q' (hist s) (pushers s t')"
    and "pop_pos pc' = None \<or> pop_pos pc' = pop_pos (poppers s t)
        \<or> (\<forall>t'. pop_pos (poppers s t') \<noteq> pop_pos pc')"
    by blast+
qed

lemma queue_step_inv:
  assumes "queue_step s s'" and "threads_inv s" and "length (hist s') < 2 ^ 63"
  shows "threads_inv s'"
  using assms
proof (cases rule: queue_step.cases)
  case (push_access spur t q' pc')
  with assms(2,3) show ?thesis using push_access_inv by auto
next
  case (push_call t r x)
  have "threads_inv (s\<lparr>queue := queue s, pushers := (pushers s)(t := PushStart x), hist := hist s\<rparr>)"
    using threads_invD [OF assms(2)] by (intro threads_inv_push [OF assms(2)]) auto
  with push_call show ?thesis by simp
next
  case (pop_access spur t q' pc')
  with assms(2) show ?thesis using pop_access_inv by auto
next
  case (pop_call t r)
  have "threads_inv (s\<lparr>queue := queue s, poppers := (poppers s)(t := PopStart)\<rparr>)"
    using threads_invD [OF assms(2)] by (intro threads_inv_pop [OF assms(2)]) auto
  with pop_call show ?thesis by simp
qed

lemma new_queue_inv:
  assumes "2 \<le> sz" and "sz AND (sz - 1) = 0" and "new_queue dflt sz = Inr q0"
  shows "threads_inv \<lparr>queue = q0, pushers = (\<lambda>_. PushDone False), poppers = (\<lambda>_. PopDone None),
    hist = []\<rparr>"
proof -
  obtain q where q: "new_queue dflt sz = Inr q" "wf_queue q" "tail_pos q = 0" "head_pos q = 0"
      "queue_items q = []"
    using new_queue_ok [OF assms(1,2)] by metis
  with assms(3) have [simp]: "q = q0" by simp
  have r: "pow2_ring q0" using wf_queueD(1) [OF q(2)] by simp
  have "seq_of q0 p \<noteq> Suc p" for p
  proof
    assume a: "seq_of q0 p = Suc p"
    have "0 < length (ring q0)" using ring_size(2) [OF r] by linarith
    then have l: "p mod length (ring q0) < length (ring q0)" by (rule mod_less_divisor)
    have "slot q0 (word_of_nat (p mod length (ring q0))) = p mod length (ring q0)"
      using slot_add [OF r, of 0 "p mod length (ring q0)"] l by simp
    moreover have "sequence (node_at q0 (word_of_nat (p mod length (ring q0))))
        = word_of_nat (p mod length (ring q0))"
      using wf_queueD(3) [OF q(2), of "p mod length (ring q0)"] l q(3,4) q(5)
      by (simp add: queue_len_def)
    ultimately have "seq_of q0 p = unat (word_of_nat (p mod length (ring q0)) :: u64)"
      by (simp add: seq_of_def node_at_def)
    moreover have "unat (word_of_nat (p mod length (ring q0)) :: u64) \<le> p mod length (ring q0)"
      by (simp add: unat_of_nat)
    ultimately show False using a mod_less_eq_dividend [of p "length (ring q0)"] by simp
  qed
  then show ?thesis
    using r q(3,4) by (auto simp: threads_inv_def ring_inv_def distinct_owners_def)
qed

lemma reachable_inv:
  assumes "reachable q0 s" and "2 \<le> sz" and "sz AND (sz - 1) = 0" and "new_queue dflt sz = Inr q0"
  shows "threads_inv s"
  using assms(1)
proof (induction rule: reachable.induct)
  case start
  show ?case by (rule new_queue_inv [OF assms(2-4)])
next
  case (step s s')
  then show ?case using queue_step_inv by blast
qed


subsection \<open>Schedules\<close>

text \<open>A schedule as a list of actions, for running the system on concrete interleavings.\<close>

datatype 'a action = PushCall nat 'a | PushAccess nat bool | PopCall nat | PopAccess nat bool

fun act :: "'a system \<Rightarrow> 'a action \<Rightarrow> 'a system" where
  "act s (PushCall t x) =
     (case pushers s t of PushDone r \<Rightarrow> s\<lparr>pushers := (pushers s)(t := PushStart x)\<rparr> | _ \<Rightarrow> s)"
| "act s (PushAccess t spur) =
     (case push_step spur (queue s) (pushers s t) of (q', pc') \<Rightarrow>
        s\<lparr>queue := q', pushers := (pushers s)(t := pc'),
          hist := hist s @ claims spur (queue s) (pushers s t)\<rparr>)"
| "act s (PopCall t) =
     (case poppers s t of PopDone r \<Rightarrow> s\<lparr>poppers := (poppers s)(t := PopStart)\<rparr> | _ \<Rightarrow> s)"
| "act s (PopAccess t spur) =
     (case pop_step spur (queue s) (poppers s t) of (q', pc') \<Rightarrow>
        s\<lparr>queue := q', poppers := (poppers s)(t := pc')\<rparr>)"

lemma act_step: "queue_step s (act s a) \<or> act s a = s"
proof (cases a)
  case (PushCall t x)
  then show ?thesis
    by (cases "pushers s t") (auto intro: queue_step.push_call)
next
  case (PushAccess t spur)
  then show ?thesis
    by (cases "push_step spur (queue s) (pushers s t)") (auto intro: queue_step.push_access)
next
  case (PopCall t)
  then show ?thesis
    by (cases "poppers s t") (auto intro: queue_step.pop_call)
next
  case (PopAccess t spur)
  then show ?thesis
    by (cases "pop_step spur (queue s) (poppers s t)") (auto intro: queue_step.pop_access)
qed

lemma length_claims: "length (claims spur q pc) \<le> 1"
  by (cases pc) auto

lemma act_hist: "length (hist (act s a)) \<le> Suc (length (hist s))"
  using length_claims by (cases a) (auto split: push_pc.split pop_pc.split prod.split)

lemma schedule_reachable:
  "reachable q0 s \<Longrightarrow> length (hist s) + length as < 2 ^ 63 \<Longrightarrow> reachable q0 (foldl act s as)"
proof (induction as arbitrary: s)
  case Nil
  then show ?case by simp
next
  case (Cons a as)
  have "length (hist (act s a)) + length as < 2 ^ 63"
    using act_hist [of s a] Cons.prems(2) by simp
  moreover from this Cons.prems(1) have "reachable q0 (act s a)"
    using act_step [of s a] by (metis add_lessD1 reachable.step)
  ultimately show ?case using Cons.IH by simp
qed

subsection \<open>Properties\<close>

text \<open>C1: whatever the number of threads and the interleaving of their accesses, in every state a
  new queue can reach: the number of claimed positions is the tail, the head never passes the tail
  and never falls more than the ring size behind it; every position between head and tail either
  still belongs to its pusher or holds exactly the value pushed at that position; a popper that
  took position \<open>p\<close> holds the \<open>p\<close>-th pushed value, and no other popper holds that position. So
  values leave in the order of the claimed positions, each once, and none is overwritten.\<close>

theorem mpmc_fifo_interleaved:
  assumes "2 \<le> sz" and "sz AND (sz - 1) = 0" and "new_queue dflt sz = Inr q0" and "reachable q0 s"
  shows "tail_at (queue s) = length (hist s)
    \<and> head_at (queue s) \<le> tail_at (queue s)
    \<and> tail_at (queue s) \<le> head_at (queue s) + length (ring (queue s))
    \<and> (\<forall>p. head_at (queue s) \<le> p \<and> p < tail_at (queue s) \<longrightarrow>
        seq_of (queue s) p = p \<or> seq_of (queue s) p = Suc p \<and> dat_of (queue s) p = hist s ! p)
    \<and> (\<forall>t pos x. poppers s t = PopRelease pos x \<longrightarrow>
        unat pos < head_at (queue s) \<and> x = hist s ! unat pos
        \<and> (\<forall>t' y. poppers s t' = PopRelease pos y \<longrightarrow> t = t'))"
proof -
  note D = threads_invD [OF reachable_inv [OF assms(4,1-3)]]
  note I = ring_invD [OF D(1)]
  have "unat pos < head_at (queue s) \<and> x = hist s ! unat pos
      \<and> (\<forall>t' y. poppers s t' = PopRelease pos y \<longrightarrow> t = t')"
    if "poppers s t = PopRelease pos x" for t pos x
    using D(3) [of t] D(5) [of t "unat pos"] that by (fastforce simp: pop_owner_def)
  with I(3,5,6,8) show ?thesis by blast
qed

text \<open>The witness: a pusher that is overtaken between its claim and its release, and a popper that
  fetched the first value.\<close>

theorem mpmc_fifo_interleaved_witness:
  "\<exists>q0 s. new_queue (0::nat) 2 = Inr q0 \<and> reachable q0 s \<and> poppers s 0 = PopRelease 0 7
    \<and> hist s = [7, 8] \<and> (7::nat) = hist s ! unat (0::u64)"
proof -
  define q0 where "q0 = \<lparr>ring = [\<lparr>sequence = 0, node_data = 0::nat\<rparr>, \<lparr>sequence = 1, node_data = 0\<rparr>],
    buffer_size = 2, buffer_mask = 1, head_pos = 0, tail_pos = 0\<rparr>"
  have q0: "new_queue (0::nat) 2 = Inr q0"
    by (simp add: new_queue_def q0_def upt_rec)
  define s where "s = foldl act \<lparr>queue = q0, pushers = (\<lambda>_. PushDone False),
      poppers = (\<lambda>_. PopDone None), hist = []\<rparr> ([PushCall 0 7, PushCall 1 8] @
    [PushAccess 0 False, PushAccess 1 False, PushAccess 0 False, PushAccess 0 False,
     PushAccess 1 False, PushAccess 1 False, PushAccess 1 False, PushAccess 1 False,
     PushAccess 0 False, PushAccess 0 False] @
    [PopCall 0, PopAccess 0 False, PopAccess 0 False, PopAccess 0 False, PopAccess 0 False])"
  have r: "reachable q0 s"
    unfolding s_def by (rule schedule_reachable) (simp_all add: reachable.start)
  have h: "poppers s 0 = PopRelease 0 7 \<and> hist s = [7, 8]"
    unfolding s_def q0_def by code_simp
  with mpmc_fifo_interleaved [OF _ _ q0 r] have "(7::nat) = hist s ! unat (0::u64)"
    by simp
  with q0 r h show ?thesis by blast
qed

end
