(* ===== verification/Channel_Poller.thy ===== *)
theory Channel_Poller
  imports Net_Prelude
begin

unbundle bit_operations_syntax

text \<open>
  Channels and the epoll poller: \<^verbatim>\<open>src/src/basics/Channel.{h,cpp}\<close> and
  \<^verbatim>\<open>src/src/basics/Poller.{h,cpp}\<close>, with the forwarding functions of
  \<^verbatim>\<open>src/src/EventLoop.cpp\<close>. Channels live in a heap, since the poller, the kernel and the
  connection share pointers to them. Calls to the kernel are recorded in \<open>syscalls\<close>; what the
  documented interest list of epoll is after them is the abstract state \<open>interest\<close> that the
  poller implements. Diagnostics of level ERROR and FATAL are recorded in \<open>reports\<close>: with the
  global log level below FATAL neither stops the program (see \<open>Log_Statement\<close>).
\<close>

subsection \<open>Epoll flags\<close>

definition EPOLLIN :: u32 where "EPOLLIN = 0x1"
definition EPOLLPRI :: u32 where "EPOLLPRI = 0x2"
definition EPOLLOUT :: u32 where "EPOLLOUT = 0x4"
definition EPOLLERR :: u32 where "EPOLLERR = 0x8"
definition EPOLLHUP :: u32 where "EPOLLHUP = 0x10"
definition EPOLLRDHUP :: u32 where "EPOLLRDHUP = 0x2000"
definition EPOLLET :: u32 where "EPOLLET = 0x80000000"

lemmas epoll_flags [flag_simps] = EPOLLIN_def EPOLLPRI_def EPOLLOUT_def EPOLLERR_def EPOLLHUP_def
  EPOLLRDHUP_def EPOLLET_def

definition READ_EVENT :: u32 where "READ_EVENT = EPOLLIN OR EPOLLPRI"
definition WRITE_EVENT :: u32 where "WRITE_EVENT = EPOLLOUT"
definition NONE_EVENT :: u32 where "NONE_EVENT = 0"

definition ch_extern :: u32 where "ch_extern = 1"
definition ch_added :: u32 where "ch_added = 2"
definition ch_deleted :: u32 where "ch_deleted = 4"

lemmas event_sets [flag_simps] = READ_EVENT_def WRITE_EVENT_def NONE_EVENT_def
lemmas ch_indices [flag_simps] = ch_extern_def ch_added_def ch_deleted_def

subsection \<open>Channels\<close>

type_synonym ptr = nat
type_synonym obj = nat

text \<open>
  A \<^verbatim>\<open>std::function\<close> member is a name of type \<open>'cb\<close>, or \<open>None\<close> when empty; what running it does
  is an argument of \<open>HandleEvent\<close>. The owner loop of every channel is the loop modelled.
\<close>

record 'cb channel =
  ch_fd :: int
  ch_idx :: u32
  listen_events :: u32
  ready_events :: u32
  addedToLoop :: bool
  is_io_channel :: bool
  eventHandling :: bool
  pri_callback :: "'cb option"
  in_callback :: "'cb option"
  out_callback :: "'cb option"
  err_callback :: "'cb option"
  hup_callback :: "'cb option"
  rdhup_callback :: "'cb option"
  tied :: bool
  tiedObj :: "obj option"

definition Channel :: "int \<Rightarrow> bool \<Rightarrow> 'cb channel" where
  "Channel fd io = \<lparr>ch_fd = fd, ch_idx = ch_deleted, listen_events = 0, ready_events = 0,
     addedToLoop = False, is_io_channel = io, eventHandling = False, pri_callback = None,
     in_callback = None, out_callback = None, err_callback = None, hup_callback = None,
     rdhup_callback = None, tied = False, tiedObj = None\<rparr>"

definition setIndex :: "u32 \<Rightarrow> 'cb channel \<Rightarrow> 'cb channel" where
  "setIndex i ch = ch\<lparr>ch_idx := i\<rparr>"

definition set_io_channel :: "'cb channel \<Rightarrow> 'cb channel" where
  "set_io_channel ch = ch\<lparr>is_io_channel := True\<rparr>"

definition isWriting :: "'cb channel \<Rightarrow> bool" where
  "isWriting ch \<longleftrightarrow> has_flag (listen_events ch) WRITE_EVENT"

definition isReading :: "'cb channel \<Rightarrow> bool" where
  "isReading ch \<longleftrightarrow> has_flag (listen_events ch) READ_EVENT"

definition isNoneEvent :: "'cb channel \<Rightarrow> bool" where
  "isNoneEvent ch \<longleftrightarrow> listen_events ch = NONE_EVENT"

definition reset_listen_events :: "'cb channel \<Rightarrow> 'cb channel" where
  "reset_listen_events ch = ch\<lparr>listen_events := NONE_EVENT\<rparr>"

definition reset_callbacks :: "'cb channel \<Rightarrow> 'cb channel" where
  "reset_callbacks ch = ch\<lparr>in_callback := None, out_callback := None, pri_callback := None,
     err_callback := None, rdhup_callback := None, hup_callback := None\<rparr>"

definition set_ready_event :: "u32 \<Rightarrow> 'cb channel \<Rightarrow> 'cb channel" where
  "set_ready_event ev ch = ch\<lparr>ready_events := ev\<rparr>"

text \<open>\<^verbatim>\<open>tie_\<close> with an empty \<^verbatim>\<open>shared_ptr\<close> only logs an error.\<close>

definition tie_obj :: "obj option \<Rightarrow> 'cb channel \<Rightarrow> 'cb channel" where
  "tie_obj ob ch = (case ob of Some x \<Rightarrow> ch\<lparr>tiedObj := Some x, tied := True\<rparr> | None \<Rightarrow> ch)"

definition untie :: "'cb channel \<Rightarrow> 'cb channel" where
  "untie ch = ch\<lparr>tiedObj := None, tied := False\<rparr>"

definition set_pri_callback :: "'cb option \<Rightarrow> 'cb channel \<Rightarrow> 'cb channel" where
  "set_pri_callback cb ch = ch\<lparr>pri_callback := cb\<rparr>"

definition set_in_callback :: "'cb option \<Rightarrow> 'cb channel \<Rightarrow> 'cb channel" where
  "set_in_callback cb ch = ch\<lparr>in_callback := cb\<rparr>"

definition set_out_callback :: "'cb option \<Rightarrow> 'cb channel \<Rightarrow> 'cb channel" where
  "set_out_callback cb ch = ch\<lparr>out_callback := cb\<rparr>"

definition set_err_callback :: "'cb option \<Rightarrow> 'cb channel \<Rightarrow> 'cb channel" where
  "set_err_callback cb ch = ch\<lparr>err_callback := cb\<rparr>"

definition set_hup_callback :: "'cb option \<Rightarrow> 'cb channel \<Rightarrow> 'cb channel" where
  "set_hup_callback cb ch = ch\<lparr>hup_callback := cb\<rparr>"

definition set_rdhup_callback :: "'cb option \<Rightarrow> 'cb channel \<Rightarrow> 'cb channel" where
  "set_rdhup_callback cb ch = ch\<lparr>rdhup_callback := cb\<rparr>"

lemmas channel_setters = setIndex_def set_io_channel_def reset_listen_events_def
  reset_callbacks_def set_ready_event_def untie_def tie_obj_def

subsection \<open>The poller\<close>

text \<open>
  \<open>EpollCtl op fd ev\<close>: \<open>ev\<close> is the event mask and pointer handed over, \<open>None\<close> when the
  \<^verbatim>\<open>epoll_event\<close> structure on the stack is left uninitialised.
\<close>

datatype epoll_op = EPOLL_CTL_ADD | EPOLL_CTL_MOD | EPOLL_CTL_DEL

datatype syscall =
    EpollCtl epoll_op int "(u32 \<times> ptr) option"
  | CloseFd int

record 'cb poller =
  heap :: "ptr \<Rightarrow> 'cb channel option"
  next_ptr :: ptr
  m_channels :: "int \<Rightarrow> ptr option"
  events_size :: nat
  syscalls :: "syscall list"
  loop_tid :: int
  cur_tid :: int
  live_objs :: "obj \<Rightarrow> bool"
  reports :: "string list"

definition initEventNum :: nat where "initEventNum = 16"

definition Epoller :: "int \<Rightarrow> 'cb poller" where
  "Epoller tid = \<lparr>heap = (\<lambda>_. None), next_ptr = 1, m_channels = (\<lambda>_. None),
     events_size = initEventNum, syscalls = [], loop_tid = tid, cur_tid = tid,
     live_objs = (\<lambda>_. False), reports = []\<rparr>"

definition isInLoopThread :: "('cb, 'z) poller_scheme \<Rightarrow> bool" where
  "isInLoopThread p \<longleftrightarrow> loop_tid p = cur_tid p"

definition abortNotInLoopThread :: "('cb, 'z) poller_scheme \<Rightarrow> ('cb, 'z) poller_scheme" where
  "abortNotInLoopThread p = p\<lparr>reports := reports p @ [''abortNotInLoopThread'']\<rparr>"

definition assertInLoopThread :: "('cb, 'z) poller_scheme \<Rightarrow> ('cb, 'z) poller_scheme" where
  "assertInLoopThread p = (if \<not> isInLoopThread p then abortNotInLoopThread p else p)"

text \<open>Access through a \<^verbatim>\<open>Channel*\<close>: a deleted channel is a dangling pointer.\<close>

definition deref :: "('cb, 'z) poller_scheme \<Rightarrow> ptr \<Rightarrow> 'cb channel outcome" where
  "deref p c = (case heap p c of Some ch \<Rightarrow> Inr ch | None \<Rightarrow> Inl BadPointer)"

definition modify ::
  "('cb channel \<Rightarrow> 'cb channel) \<Rightarrow> ptr \<Rightarrow> ('cb, 'z) poller_scheme \<Rightarrow> ('cb, 'z) poller_scheme outcome"
where
  "modify f c p = and_then (deref p c) (\<lambda>ch. Inr (p\<lparr>heap := (heap p)(c \<mapsto> f ch)\<rparr>))"

definition sys :: "syscall \<Rightarrow> ('cb, 'z) poller_scheme \<Rightarrow> ('cb, 'z) poller_scheme" where
  "sys s p = p\<lparr>syscalls := syscalls p @ [s]\<rparr>"

text \<open>\<^verbatim>\<open>Channel::~Channel\<close>.\<close>

definition delete_channel :: "ptr \<Rightarrow> ('cb, 'z) poller_scheme \<Rightarrow> ('cb, 'z) poller_scheme outcome" where
  "delete_channel c p =
     and_then (deref p c) (\<lambda>ch.
     assert_then (\<not> eventHandling ch) (
     assert_then (\<not> addedToLoop ch) (
     let p = assertInLoopThread p in
     Inr (sys (CloseFd (ch_fd ch)) (p\<lparr>heap := (heap p)(c := None)\<rparr>)))))"

definition hasChannal :: "ptr \<Rightarrow> ('cb, 'z) poller_scheme \<Rightarrow> bool outcome" where
  "hasChannal c p = and_then (deref p c) (\<lambda>ch. Inr (m_channels p (ch_fd ch) \<noteq> None))"

definition add_channel :: "int \<Rightarrow> ('cb, 'z) poller_scheme \<Rightarrow> ptr \<times> ('cb, 'z) poller_scheme" where
  "add_channel fd p =
     (case m_channels p fd of
        None \<Rightarrow>
          (let c = next_ptr p in
           (c, p\<lparr>heap := (heap p)(c \<mapsto> setIndex ch_deleted (Channel fd False)),
                 next_ptr := Suc c, m_channels := (m_channels p)(fd \<mapsto> c)\<rparr>))
      | Some c \<Rightarrow> (c, p))"

definition removeChannel :: "ptr \<Rightarrow> ('cb, 'z) poller_scheme \<Rightarrow> ('cb, 'z) poller_scheme outcome" where
  "removeChannel c p =
     (let p = assertInLoopThread p in
      and_then (deref p c) (\<lambda>ch.
      let fd = ch_fd ch in
      assert_then (m_channels p fd \<noteq> None) (
      delete_channel c (p\<lparr>m_channels := (m_channels p)(fd := None)\<rparr>))))"

text \<open>\<^verbatim>\<open>Poller::~Poller\<close> deletes the channels in the iteration order \<open>cs\<close> of the hash map.\<close>

fun delete_channels :: "ptr list \<Rightarrow> ('cb, 'z) poller_scheme \<Rightarrow> ('cb, 'z) poller_scheme outcome" where
  "delete_channels [] p = Inr p"
| "delete_channels (c # cs) p = and_then (delete_channel c p) (delete_channels cs)"

text \<open>\<^verbatim>\<open>Epoller::update\<close>.\<close>

definition epoller_update ::
  "epoll_op \<Rightarrow> ptr \<Rightarrow> ('cb, 'z) poller_scheme \<Rightarrow> ('cb, 'z) poller_scheme outcome"
where
  "epoller_update op c p =
     (let p = assertInLoopThread p in
      and_then (deref p c) (\<lambda>ch.
      let ev = (if listen_events ch \<noteq> 0
                then Some (listen_events ch OR EPOLLET OR EPOLLRDHUP, c) else None) in
      Inr (sys (EpollCtl op (ch_fd ch) ev) p)))"

definition updateChannel :: "ptr \<Rightarrow> ('cb, 'z) poller_scheme \<Rightarrow> ('cb, 'z) poller_scheme outcome" where
  "updateChannel c p =
     (let p = assertInLoopThread p in
      and_then (deref p c) (\<lambda>ch.
      let fd = ch_fd ch in
      if has_flag (ch_idx ch) ch_deleted then
        assert_then (m_channels p fd \<noteq> None) (
        assert_then (m_channels p fd = Some c) (
        and_then (modify (setIndex ch_added) c p) (
        epoller_update EPOLL_CTL_ADD c)))
      else if has_flag (ch_idx ch) ch_extern then
        assert_then (m_channels p fd = None) (
        and_then (modify (setIndex ch_added) c (p\<lparr>m_channels := (m_channels p)(fd \<mapsto> c)\<rparr>)) (
        epoller_update EPOLL_CTL_ADD c))
      else
        assert_then (m_channels p fd \<noteq> None) (
        assert_then (m_channels p fd = Some c) (
        if listen_events ch = 0 then
          and_then (modify (untie \<circ> setIndex ch_deleted) c p) (
          epoller_update EPOLL_CTL_DEL c)
        else epoller_update EPOLL_CTL_MOD c p))))"

text \<open>\<^verbatim>\<open>EventLoop::updateChannel\<close> and \<^verbatim>\<open>EventLoop::removeChannel\<close> check the thread once more.\<close>

definition loop_updateChannel :: "ptr \<Rightarrow> ('cb, 'z) poller_scheme \<Rightarrow> ('cb, 'z) poller_scheme outcome" where
  "loop_updateChannel c p = updateChannel c (assertInLoopThread p)"

definition loop_removeChannel :: "ptr \<Rightarrow> ('cb, 'z) poller_scheme \<Rightarrow> ('cb, 'z) poller_scheme outcome" where
  "loop_removeChannel c p = removeChannel c (assertInLoopThread p)"

subsection \<open>Channel operations that reach the poller\<close>

definition EnableRead :: "ptr \<Rightarrow> ('cb, 'z) poller_scheme \<Rightarrow> ('cb, 'z) poller_scheme outcome" where
  "EnableRead c p =
     and_then (modify (\<lambda>ch. ch\<lparr>listen_events := listen_events ch OR READ_EVENT\<rparr>) c p)
       (loop_updateChannel c)"

definition EnableWrite :: "ptr \<Rightarrow> ('cb, 'z) poller_scheme \<Rightarrow> ('cb, 'z) poller_scheme outcome" where
  "EnableWrite c p =
     and_then (modify (\<lambda>ch. ch\<lparr>listen_events := listen_events ch OR WRITE_EVENT\<rparr>) c p)
       (loop_updateChannel c)"

text \<open>\<^verbatim>\<open>Channel::update\<close>.\<close>

definition channel_update :: "ptr \<Rightarrow> ('cb, 'z) poller_scheme \<Rightarrow> ('cb, 'z) poller_scheme outcome" where
  "channel_update c p =
     and_then (modify (\<lambda>ch. ch\<lparr>addedToLoop := True\<rparr>) c p) (loop_updateChannel c)"

definition DisableRead :: "ptr \<Rightarrow> ('cb, 'z) poller_scheme \<Rightarrow> ('cb, 'z) poller_scheme outcome" where
  "DisableRead c p =
     and_then (modify (\<lambda>ch. ch\<lparr>listen_events := listen_events ch AND NOT READ_EVENT\<rparr>) c p)
       (channel_update c)"

definition DisableWrite :: "ptr \<Rightarrow> ('cb, 'z) poller_scheme \<Rightarrow> ('cb, 'z) poller_scheme outcome" where
  "DisableWrite c p =
     and_then (modify (\<lambda>ch. ch\<lparr>listen_events := listen_events ch AND NOT WRITE_EVENT\<rparr>) c p)
       (channel_update c)"

definition DisableAll :: "ptr \<Rightarrow> ('cb, 'z) poller_scheme \<Rightarrow> ('cb, 'z) poller_scheme outcome" where
  "DisableAll c p =
     and_then (modify (\<lambda>ch. ch\<lparr>listen_events := 0\<rparr>) c p) (loop_updateChannel c)"

text \<open>\<^verbatim>\<open>Channel::remove\<close>.\<close>

definition channel_remove :: "ptr \<Rightarrow> ('cb, 'z) poller_scheme \<Rightarrow> ('cb, 'z) poller_scheme outcome" where
  "channel_remove c p =
     and_then (deref p c) (\<lambda>ch.
     assert_then (isNoneEvent ch) (
     and_then (modify (\<lambda>ch. ch\<lparr>addedToLoop := False\<rparr>) c p) (loop_removeChannel c)))"

subsection \<open>Dispatch of events\<close>

text \<open>
  \<open>run cb p\<close> is the effect of calling a callback; it may change anything, also delete the channel
  being handled. Every later access of \<^verbatim>\<open>this\<close> goes through the heap again.
\<close>

definition call_opt :: "('cb \<Rightarrow> 's \<Rightarrow> 's outcome) \<Rightarrow> 'cb option \<Rightarrow> 's \<Rightarrow> 's outcome" where
  "call_opt run cb p = (case cb of Some f \<Rightarrow> run f p | None \<Rightarrow> Inr p)"

definition HandleEvent_tied ::
  "('cb \<Rightarrow> ('cb, 'z) poller_scheme \<Rightarrow> ('cb, 'z) poller_scheme outcome) \<Rightarrow> ptr \<Rightarrow>
     ('cb, 'z) poller_scheme \<Rightarrow> ('cb, 'z) poller_scheme outcome"
where
  "HandleEvent_tied run c p =
     and_then (modify (\<lambda>ch. ch\<lparr>eventHandling := True\<rparr>) c p) (\<lambda>p.
     and_then (deref p c) (\<lambda>ch.
     if has_flag (ready_events ch) EPOLLERR then call_opt run (err_callback ch) p
     else if has_flag (ready_events ch) EPOLLHUP then
       and_then (if is_io_channel ch \<and> \<not> tied ch \<and> has_flag (ready_events ch) EPOLLOUT
                 then call_opt run (out_callback ch) p else Inr p) (\<lambda>p.
       and_then (deref p c) (\<lambda>ch. call_opt run (hup_callback ch) p))
     else if has_flag (ready_events ch) EPOLLRDHUP then
       and_then (if is_io_channel ch \<and> \<not> tied ch \<and> has_flag (ready_events ch) EPOLLOUT
                 then call_opt run (out_callback ch) p else Inr p) (\<lambda>p.
       and_then (deref p c) (\<lambda>ch. call_opt run (rdhup_callback ch) p))
     else
       and_then (if has_flag (ready_events ch) EPOLLIN then call_opt run (in_callback ch) p else Inr p) (\<lambda>p.
       and_then (deref p c) (\<lambda>ch.
       and_then (if has_flag (ready_events ch) EPOLLOUT then call_opt run (out_callback ch) p else Inr p)
         (modify (\<lambda>ch. ch\<lparr>eventHandling := False\<rparr>) c)))))"

definition HandleEvent ::
  "('cb \<Rightarrow> ('cb, 'z) poller_scheme \<Rightarrow> ('cb, 'z) poller_scheme outcome) \<Rightarrow> ptr \<Rightarrow>
     ('cb, 'z) poller_scheme \<Rightarrow> ('cb, 'z) poller_scheme outcome"
where
  "HandleEvent run c p =
     and_then (deref p c) (\<lambda>ch.
     if tied ch then
       (case tiedObj ch of
          Some ob \<Rightarrow> if live_objs p ob then HandleEvent_tied run c p else Inr p
        | None \<Rightarrow> Inr p)
     else HandleEvent_tied run c p)"

subsection \<open>Waiting for events\<close>

text \<open>The answer of \<^verbatim>\<open>epoll_wait\<close>: the filled entries (none on a timeout) or an \<^verbatim>\<open>errno\<close>.\<close>

datatype wait_answer = Ready "(u32 \<times> ptr) list" | WaitFailed int

definition EINTR :: int where "EINTR = 4"
definition EAGAIN :: int where "EAGAIN = 11"

fun fillActiveChannels ::
  "(u32 \<times> ptr) list \<Rightarrow> ('cb, 'z) poller_scheme \<Rightarrow> ('cb, 'z) poller_scheme outcome"
where
  "fillActiveChannels [] p = Inr p"
| "fillActiveChannels ((ev, c) # evs) p =
     and_then (modify (set_ready_event ev) c p) (fillActiveChannels evs)"

definition Poll ::
  "wait_answer \<Rightarrow> ('cb, 'z) poller_scheme \<Rightarrow> (('cb, 'z) poller_scheme \<times> ptr list) outcome"
where
  "Poll answer p =
     (case answer of
        Ready evs \<Rightarrow>
          if events_size p < length evs then Inl KernelContract
          else if evs \<noteq> [] then
            and_then (fillActiveChannels evs p) (\<lambda>p'.
            Inr (if length evs = events_size p' then p'\<lparr>events_size := events_size p' * 2\<rparr> else p',
                 map snd evs))
          else Inr (p, [])
      | WaitFailed err \<Rightarrow>
          Inr (if err \<noteq> EINTR then p\<lparr>reports := reports p @ [''Epoller::Poll error'']\<rparr> else p, []))"

subsection \<open>Evaluation rules\<close>

lemma deref_heap [simp]: "heap p c = Some ch \<Longrightarrow> deref p c = Inr ch"
  by (simp add: deref_def)

lemma modify_heap [simp]: "heap p c = Some ch \<Longrightarrow> modify f c p = Inr (p\<lparr>heap := (heap p)(c \<mapsto> f ch)\<rparr>)"
  by (simp add: modify_def)

lemma assertInLoopThread_fields [simp]:
  "heap (assertInLoopThread p) = heap p" "next_ptr (assertInLoopThread p) = next_ptr p"
  "m_channels (assertInLoopThread p) = m_channels p"
  "events_size (assertInLoopThread p) = events_size p"
  "syscalls (assertInLoopThread p) = syscalls p" "loop_tid (assertInLoopThread p) = loop_tid p"
  "cur_tid (assertInLoopThread p) = cur_tid p" "live_objs (assertInLoopThread p) = live_objs p"
  "poller.more (assertInLoopThread p) = poller.more p"
  by (simp_all add: assertInLoopThread_def abortNotInLoopThread_def)

lemma deref_assertInLoopThread [simp]: "deref (assertInLoopThread p) = deref p"
  by (simp add: deref_def fun_eq_iff)

lemma sys_fields [simp]:
  "heap (sys s p) = heap p" "next_ptr (sys s p) = next_ptr p" "m_channels (sys s p) = m_channels p"
  "events_size (sys s p) = events_size p" "syscalls (sys s p) = syscalls p @ [s]"
  "loop_tid (sys s p) = loop_tid p" "cur_tid (sys s p) = cur_tid p"
  "live_objs (sys s p) = live_objs p" "poller.more (sys s p) = poller.more p"
  by (simp_all add: sys_def)

lemma index_flags [simp]:
  "has_flag ch_deleted ch_deleted" "\<not> has_flag ch_added ch_deleted" "\<not> has_flag ch_added ch_extern"
  "\<not> has_flag ch_extern ch_deleted" "has_flag ch_extern ch_extern" "ch_added \<noteq> ch_deleted" "ch_deleted \<noteq> ch_added"
  by (simp_all add: has_flag_def flag_simps)

subsection \<open>The interest list the calls ask for\<close>

text \<open>
  \<^verbatim>\<open>epoll_ctl(2)\<close>: ADD registers a descriptor that is not registered, MOD and DEL need a registered
  one, and closing a descriptor drops its registration. The value is what the kernel reports for
  the descriptor, \<open>None\<close> inside when it was uninitialised.
\<close>

type_synonym registration = "(u32 \<times> ptr) option"

fun ctl :: "(int \<Rightarrow> registration option) \<Rightarrow> syscall \<Rightarrow> int \<Rightarrow> registration option" where
  "ctl m (EpollCtl EPOLL_CTL_ADD fd ev) = (if m fd = None then m(fd \<mapsto> ev) else m)"
| "ctl m (EpollCtl EPOLL_CTL_MOD fd ev) = (if m fd = None then m else m(fd \<mapsto> ev))"
| "ctl m (EpollCtl EPOLL_CTL_DEL fd ev) = m(fd := None)"
| "ctl m (CloseFd fd) = m(fd := None)"

fun ctl_legal :: "(int \<Rightarrow> registration option) \<Rightarrow> syscall \<Rightarrow> bool" where
  "ctl_legal m (EpollCtl EPOLL_CTL_ADD fd ev) \<longleftrightarrow> m fd = None"
| "ctl_legal m (EpollCtl EPOLL_CTL_MOD fd ev) \<longleftrightarrow> m fd \<noteq> None \<and> ev \<noteq> None"
| "ctl_legal m (EpollCtl EPOLL_CTL_DEL fd ev) \<longleftrightarrow> m fd \<noteq> None"
| "ctl_legal m (CloseFd fd) \<longleftrightarrow> True"

definition interest :: "syscall list \<Rightarrow> int \<Rightarrow> registration option" where
  "interest ss = foldl ctl (\<lambda>_. None) ss"

definition calls_legal :: "syscall list \<Rightarrow> bool" where
  "calls_legal ss \<longleftrightarrow> (\<forall>i < length ss. ctl_legal (interest (take i ss)) (ss ! i))"

lemma interest_Nil [simp]: "interest [] = (\<lambda>_. None)"
  by (simp add: interest_def)

lemma interest_snoc [simp]: "interest (ss @ [s]) = ctl (interest ss) s"
  by (simp add: interest_def)

lemma calls_legal_Nil [simp]: "calls_legal []"
  by (simp add: calls_legal_def)

lemma calls_legal_snoc [simp]:
  "calls_legal (ss @ [s]) \<longleftrightarrow> calls_legal ss \<and> ctl_legal (interest ss) s"
  by (auto simp: calls_legal_def less_Suc_eq nth_append)

subsection \<open>The invariant of the poller\<close>

text \<open>What the program wants from the kernel for a channel, and for a descriptor.\<close>

definition wanted :: "ptr \<Rightarrow> 'cb channel \<Rightarrow> registration" where
  "wanted c ch = (if listen_events ch = 0 then None
     else Some (listen_events ch OR EPOLLET OR EPOLLRDHUP, c))"

definition wanted_fd :: "('cb, 'z) poller_scheme \<Rightarrow> int \<Rightarrow> registration option" where
  "wanted_fd p fd = (case m_channels p fd of None \<Rightarrow> None
     | Some c \<Rightarrow> (case heap p c of None \<Rightarrow> None
         | Some ch \<Rightarrow> if ch_idx ch = ch_added then Some (wanted c ch) else None))"

lemma wanted_fd_cong:
  "heap p = heap p' \<Longrightarrow> m_channels p = m_channels p' \<Longrightarrow> wanted_fd p = wanted_fd p'"
  by (auto simp: wanted_fd_def fun_eq_iff split: option.split)

lemma wanted_fd_frame [simp]:
  "wanted_fd (sys s p) = wanted_fd p" "wanted_fd (assertInLoopThread p) = wanted_fd p"
  by (rule wanted_fd_cong; simp)+

definition wf_poller :: "('cb, 'z) poller_scheme \<Rightarrow> bool" where
  "wf_poller p \<longleftrightarrow>
     (\<forall>fd c. m_channels p fd = Some c \<longrightarrow> c < next_ptr p \<and>
        (\<exists>ch. heap p c = Some ch \<and> ch_fd ch = fd \<and> (ch_idx ch = ch_added \<or> ch_idx ch = ch_deleted)))
     \<and> interest (syscalls p) = wanted_fd p \<and> calls_legal (syscalls p)"

lemma wf_pollerD:
  assumes "wf_poller p" and "m_channels p fd = Some c" and "heap p c = Some ch"
  shows "ch_fd ch = fd" and "ch_idx ch = ch_added \<or> ch_idx ch = ch_deleted"
  using assms by (fastforce simp: wf_poller_def)+

lemma wf_poller_known:
  assumes "wf_poller p" and "m_channels p fd = Some c"
  obtains ch where "heap p c = Some ch" and "ch_fd ch = fd"
    and "ch_idx ch = ch_added \<or> ch_idx ch = ch_deleted"
  using assms by (auto simp: wf_poller_def)

lemma Epoller_wf: "wf_poller (Epoller tid)"
  by (simp add: wf_poller_def Epoller_def wanted_fd_def fun_eq_iff)

lemma add_channel_wf:
  assumes "wf_poller p"
  shows "wf_poller (snd (add_channel fd p))"
    and "m_channels (snd (add_channel fd p)) fd = Some (fst (add_channel fd p))"
proof -
  have "interest (syscalls p) = wanted_fd p" using assms by (simp add: wf_poller_def)
  moreover have "wanted_fd (snd (add_channel fd p)) = wanted_fd p"
  proof
    fix fd'
    show "wanted_fd (snd (add_channel fd p)) fd' = wanted_fd p fd'"
      using assms
      by (auto simp: wanted_fd_def add_channel_def Let_def setIndex_def Channel_def wf_poller_def
          split: option.split dest: less_not_refl3)
  qed
  ultimately show "wf_poller (snd (add_channel fd p))"
    using assms
    by (auto simp: wf_poller_def add_channel_def Let_def setIndex_def Channel_def less_Suc_eq
        split: option.splits)
qed (auto simp: add_channel_def Let_def split: option.split)

text \<open>What no operation on the interest list touches.\<close>

definition same_frame :: "('cb, 'z) poller_scheme \<Rightarrow> ('cb, 'z) poller_scheme \<Rightarrow> bool" where
  "same_frame p p' \<longleftrightarrow> next_ptr p' = next_ptr p \<and> events_size p' = events_size p
     \<and> loop_tid p' = loop_tid p \<and> cur_tid p' = cur_tid p \<and> live_objs p' = live_objs p
     \<and> poller.more p' = poller.more p"

text \<open>The channel after \<open>updateChannel\<close>, and the call it makes.\<close>

definition updated :: "'cb channel \<Rightarrow> 'cb channel" where
  "updated ch = (if ch_idx ch = ch_deleted then setIndex ch_added ch
     else if listen_events ch = 0 then untie (setIndex ch_deleted ch) else ch)"

definition update_op :: "'cb channel \<Rightarrow> epoll_op" where
  "update_op ch = (if ch_idx ch = ch_deleted then EPOLL_CTL_ADD
     else if listen_events ch = 0 then EPOLL_CTL_DEL else EPOLL_CTL_MOD)"

lemma updated_fields [simp]:
  "ch_fd (updated ch) = ch_fd ch" "listen_events (updated ch) = listen_events ch"
  "ch_idx (updated ch) = (if ch_idx ch = ch_deleted then ch_added
     else if listen_events ch = 0 then ch_deleted else ch_idx ch)"
  by (simp_all add: updated_def channel_setters)

lemma wanted_updated [simp]: "wanted c (updated ch) = wanted c ch"
  by (simp add: wanted_def)

lemma updateChannel_known:
  assumes "m_channels p (ch_fd ch) = Some c" and "heap p c = Some ch"
    and "ch_idx ch = ch_added \<or> ch_idx ch = ch_deleted"
  shows "\<exists>p'. loop_updateChannel c p = Inr p' \<and> heap p' = (heap p)(c \<mapsto> updated ch)
    \<and> m_channels p' = m_channels p \<and> same_frame p p'
    \<and> syscalls p' = syscalls p @ [EpollCtl (update_op ch) (ch_fd ch) (wanted c ch)]"
  using assms
  by (auto simp: loop_updateChannel_def updateChannel_def epoller_update_def Let_def update_op_def
      updated_def wanted_def channel_setters fun_upd_idem same_frame_def)

text \<open>Changing the wanted events of a known channel and updating keeps the invariant.\<close>

lemma update_listen_wf:
  assumes wf: "wf_poller p" and fd: "m_channels p fd = Some c" and ch: "heap p c = Some ch"
    and upd: "ch_fd ch' = fd" "ch_idx ch' = ch_idx ch"
  shows "\<exists>p'. loop_updateChannel c (p\<lparr>heap := (heap p)(c \<mapsto> ch')\<rparr>) = Inr p' \<and> wf_poller p'
    \<and> heap p' = (heap p)(c \<mapsto> updated ch') \<and> m_channels p' = m_channels p \<and> same_frame p p'"
proof -
  note W = wf_pollerD [OF wf fd ch]
  obtain p' where p': "loop_updateChannel c (p\<lparr>heap := (heap p)(c \<mapsto> ch')\<rparr>) = Inr p'"
      "heap p' = (heap p)(c \<mapsto> updated ch')" "m_channels p' = m_channels p" "next_ptr p' = next_ptr p" "same_frame p p'"
      "syscalls p' = syscalls p @ [EpollCtl (update_op ch') fd (wanted c ch')]"
    using updateChannel_known [of "p\<lparr>heap := (heap p)(c \<mapsto> ch')\<rparr>" ch' c] fd upd W by (auto simp: same_frame_def)
  have other: "m_channels p fd' = Some c \<Longrightarrow> fd' = fd" for fd'
    using wf_poller_known [OF wf, of fd' c] W ch by force
  have i: "interest (syscalls p) = wanted_fd p" using wf by (simp add: wf_poller_def)
  have now: "wanted_fd p fd = (if ch_idx ch = ch_added then Some (wanted c ch) else None)"
    using fd ch by (simp add: wanted_fd_def)
  have rest: "wanted_fd p' fd' = wanted_fd p fd'" if "fd' \<noteq> fd" for fd'
    using other [of fd'] that p'(2,3) by (auto simp: wanted_fd_def split: option.split)
  have new: "wanted_fd p' fd = (if ch_idx (updated ch') = ch_added then Some (wanted c ch') else None)"
    using fd p'(2,3) by (simp add: wanted_fd_def)
  have "interest (syscalls p') = wanted_fd p'"
    using W(2) upd(2) now new rest i by (auto simp: p'(6) update_op_def fun_eq_iff)
  moreover have "calls_legal (syscalls p')"
    using wf W(2) upd(2) now i
    by (auto simp: p'(6) update_op_def wf_poller_def) (simp add: wanted_def)
  ultimately have "wf_poller p'"
    using wf p'(2-4) W(2) upd fd by (auto simp: wf_poller_def dest!: other)
  with p' show ?thesis by blast
qed

subsection \<open>Clients of the poller\<close>

text \<open>
  How the program uses the poller outside an event handler: look the channel of a descriptor up
  (or create it) with \<^verbatim>\<open>add_channel\<close> and call one of the channel operations.
\<close>

datatype channel_op = OpEnableRead | OpEnableWrite | OpDisableRead | OpDisableWrite | OpDisableAll | OpRemove

fun channel_do :: "channel_op \<Rightarrow> ptr \<Rightarrow> ('cb, 'z) poller_scheme \<Rightarrow> ('cb, 'z) poller_scheme outcome" where
  "channel_do OpEnableRead c p = EnableRead c p"
| "channel_do OpEnableWrite c p = EnableWrite c p"
| "channel_do OpDisableRead c p = DisableRead c p"
| "channel_do OpDisableWrite c p = DisableWrite c p"
| "channel_do OpDisableAll c p = DisableAll c p"
| "channel_do OpRemove c p = channel_remove c p"

fun channel_ops ::
  "(int \<times> channel_op) list \<Rightarrow> ('cb, 'z) poller_scheme \<Rightarrow> ('cb, 'z) poller_scheme outcome"
where
  "channel_ops [] p = Inr p"
| "channel_ops ((fd, op) # ops) p =
     (case add_channel fd p of (c, p') \<Rightarrow> and_then (channel_do op c p') (channel_ops ops))"

text \<open>
  The abstract poller: a mask of wanted events per descriptor. Removing a descriptor with wanted
  events is an error.
\<close>

fun mask_op :: "channel_op \<Rightarrow> u32 \<Rightarrow> u32" where
  "mask_op OpEnableRead m = m OR READ_EVENT"
| "mask_op OpEnableWrite m = m OR WRITE_EVENT"
| "mask_op OpDisableRead m = m AND NOT READ_EVENT"
| "mask_op OpDisableWrite m = m AND NOT WRITE_EVENT"
| "mask_op OpDisableAll m = 0"
| "mask_op OpRemove m = m"

fun abs_ops :: "(int \<times> channel_op) list \<Rightarrow> (int \<Rightarrow> u32) \<Rightarrow> (int \<Rightarrow> u32) option" where
  "abs_ops [] m = Some m"
| "abs_ops ((fd, op) # ops) m =
     (if op = OpRemove \<and> m fd \<noteq> 0 then None else abs_ops ops (m(fd := mask_op op (m fd))))"

definition fd_mask :: "('cb, 'z) poller_scheme \<Rightarrow> int \<Rightarrow> u32" where
  "fd_mask p fd = (case m_channels p fd of None \<Rightarrow> 0 | Some c \<Rightarrow>
     (case heap p c of None \<Rightarrow> 0 | Some ch \<Rightarrow> listen_events ch))"

text \<open>Outside event handlers no channel is marked as handling, and wanted events are registered.\<close>

definition quiet :: "('cb, 'z) poller_scheme \<Rightarrow> bool" where
  "quiet p \<longleftrightarrow> (\<forall>fd c ch. m_channels p fd = Some c \<and> heap p c = Some ch \<longrightarrow>
     \<not> eventHandling ch \<and> (listen_events ch \<noteq> 0 \<longrightarrow> ch_idx ch = ch_added))"

lemma quietD:
  "quiet p \<Longrightarrow> m_channels p fd = Some c \<Longrightarrow> heap p c = Some ch \<Longrightarrow>
     \<not> eventHandling ch \<and> (listen_events ch \<noteq> 0 \<longrightarrow> ch_idx ch = ch_added)"
  by (auto simp: quiet_def)

lemma add_channel_quiet:
  assumes "wf_poller p" and "quiet p"
  shows "quiet (snd (add_channel fd p))" and "fd_mask (snd (add_channel fd p)) = fd_mask p"
  using assms
  by (auto simp: quiet_def fd_mask_def add_channel_def Let_def setIndex_def Channel_def fun_eq_iff
      wf_poller_def split: option.splits if_splits)

text \<open>One operation that changes the wanted events of a known channel.\<close>

lemma listen_op_sim:
  assumes wf: "wf_poller p" and q: "quiet p" and fd: "m_channels p fd = Some c"
    and ch: "heap p c = Some ch"
    and upd: "ch_fd ch' = fd" "ch_idx ch' = ch_idx ch" "eventHandling ch' = eventHandling ch"
  shows "\<exists>p'. loop_updateChannel c (p\<lparr>heap := (heap p)(c \<mapsto> ch')\<rparr>) = Inr p' \<and> wf_poller p' \<and> quiet p'
    \<and> fd_mask p' = (fd_mask p)(fd := listen_events ch')"
proof -
  obtain p' where p': "loop_updateChannel c (p\<lparr>heap := (heap p)(c \<mapsto> ch')\<rparr>) = Inr p'" "wf_poller p'"
      "heap p' = (heap p)(c \<mapsto> updated ch')" "m_channels p' = m_channels p"
    using update_listen_wf [OF wf fd ch upd(1,2)] by blast
  have other: "m_channels p fd' = Some c \<Longrightarrow> fd' = fd" for fd'
    using wf_pollerD(1) [OF wf _ ch] fd by blast
  have "eventHandling (updated ch') = eventHandling ch'"
    by (simp add: updated_def channel_setters)
  then have "\<not> eventHandling (updated ch') \<and>
      (listen_events (updated ch') \<noteq> 0 \<longrightarrow> ch_idx (updated ch') = ch_added)"
    using wf_pollerD(2) [OF wf fd ch] quietD [OF q fd ch] upd(2,3) by auto
  moreover have "\<not> eventHandling ch2 \<and> (listen_events ch2 \<noteq> 0 \<longrightarrow> ch_idx ch2 = ch_added)"
    if "m_channels p fd2 = Some c2" "heap p c2 = Some ch2" for fd2 c2 ch2
    using quietD [OF q that] .
  ultimately have "quiet p'"
    unfolding quiet_def p'(3,4) by (simp split: if_split) blast
  moreover have "fd_mask p' = (fd_mask p)(fd := listen_events ch')"
  proof (rule ext)
    fix fd'
    show "fd_mask p' fd' = ((fd_mask p)(fd := listen_events ch')) fd'"
      using other [of fd'] fd by (cases "fd' = fd") (auto simp: fd_mask_def p'(3,4) split: option.split)
  qed
  ultimately show ?thesis using p'(1,2) by blast
qed

lemma remove_sim:
  assumes wf: "wf_poller p" and q: "quiet p" and fd: "m_channels p fd = Some c"
    and ch: "heap p c = Some ch" and none: "listen_events ch = 0"
  shows "\<exists>p'. channel_remove c p = Inr p' \<and> wf_poller p' \<and> quiet p' \<and> fd_mask p' = fd_mask p"
proof -
  have fd': "ch_fd ch = fd" using wf_pollerD(1) [OF wf fd ch] .
  have h: "\<not> eventHandling ch" using quietD [OF q fd ch] by simp
  have other: "m_channels p fd' = Some c \<Longrightarrow> fd' = fd" for fd'
    using wf_pollerD(1) [OF wf _ ch] fd by blast
  obtain p' where p': "channel_remove c p = Inr p'" "heap p' = (heap p)(c := None)"
      "m_channels p' = (m_channels p)(fd := None)" "next_ptr p' = next_ptr p"
      "syscalls p' = syscalls p @ [CloseFd fd]"
    using fd ch none fd' h
    by (simp add: channel_remove_def isNoneEvent_def NONE_EVENT_def loop_removeChannel_def
        removeChannel_def delete_channel_def Let_def)
  have "wanted_fd p' = (wanted_fd p)(fd := None)"
    using p'(2,3) other by (auto simp: wanted_fd_def fun_eq_iff split: option.split)
  moreover have "c' < next_ptr p' \<and> (\<exists>ch. heap p' c' = Some ch \<and> ch_fd ch = fd' \<and>
      (ch_idx ch = ch_added \<or> ch_idx ch = ch_deleted))" if "m_channels p' fd' = Some c'" for fd' c'
    using that wf other [of fd'] unfolding p'(2-4) wf_poller_def by (auto split: if_splits)
  ultimately have "wf_poller p'"
    using wf unfolding wf_poller_def by (simp add: p'(5))
  moreover have "quiet p'"
    using q unfolding quiet_def p'(2,3) by (simp split: if_split)
  moreover have "fd_mask p' = fd_mask p"
  proof (rule ext)
    fix fd'
    show "fd_mask p' fd' = fd_mask p fd'"
      using other [of fd'] fd ch none by (cases "fd' = fd") (auto simp: fd_mask_def p'(2,3) split: option.split)
  qed
  ultimately show ?thesis using p'(1) by blast
qed

lemma channel_do_sim:
  assumes wf: "wf_poller p" and q: "quiet p" and fd: "m_channels p fd = Some c"
    and ok: "op = OpRemove \<Longrightarrow> fd_mask p fd = 0"
  shows "\<exists>p'. channel_do op c p = Inr p' \<and> wf_poller p' \<and> quiet p'
    \<and> fd_mask p' = (fd_mask p)(fd := mask_op op (fd_mask p fd))"
proof -
  obtain ch where ch: "heap p c = Some ch" "ch_fd ch = fd"
    using wf_poller_known [OF wf fd] by metis
  have m: "fd_mask p fd = listen_events ch" using fd ch by (simp add: fd_mask_def)
  note S = listen_op_sim [OF wf q fd ch(1)]
  show ?thesis
  proof (cases op)
    case OpEnableRead
    then show ?thesis
      using S [of "ch\<lparr>listen_events := listen_events ch OR READ_EVENT\<rparr>"] ch m by (simp add: EnableRead_def)
  next
    case OpEnableWrite
    then show ?thesis
      using S [of "ch\<lparr>listen_events := listen_events ch OR WRITE_EVENT\<rparr>"] ch m by (simp add: EnableWrite_def)
  next
    case OpDisableRead
    then show ?thesis
      using S [of "ch\<lparr>listen_events := listen_events ch AND NOT READ_EVENT, addedToLoop := True\<rparr>"] ch m
      by (simp add: DisableRead_def channel_update_def)
  next
    case OpDisableWrite
    then show ?thesis
      using S [of "ch\<lparr>listen_events := listen_events ch AND NOT WRITE_EVENT, addedToLoop := True\<rparr>"] ch m
      by (simp add: DisableWrite_def channel_update_def)
  next
    case OpDisableAll
    then show ?thesis using S [of "ch\<lparr>listen_events := 0\<rparr>"] ch m by (simp add: DisableAll_def)
  next
    case OpRemove
    then show ?thesis using remove_sim [OF wf q fd ch(1)] ok m by (auto simp: fun_upd_idem)
  qed
qed

lemma channel_ops_sim:
  assumes "wf_poller p" and "quiet p"
  shows "case abs_ops ops (fd_mask p) of
      None \<Rightarrow> channel_ops ops p = Inl AssertionFailure
    | Some m \<Rightarrow> \<exists>p'. channel_ops ops p = Inr p' \<and> wf_poller p' \<and> quiet p' \<and> fd_mask p' = m"
  using assms
proof (induction ops arbitrary: p)
  case Nil
  then show ?case by simp
next
  case (Cons a ops)
  obtain fd op where a [simp]: "a = (fd, op)" by (cases a)
  obtain c p1 where add [simp]: "add_channel fd p = (c, p1)" by (cases "add_channel fd p")
  have p1: "wf_poller p1" "quiet p1" "fd_mask p1 = fd_mask p" "m_channels p1 fd = Some c"
    using add_channel_wf [OF Cons.prems(1), of fd] add_channel_quiet [OF Cons.prems, of fd] by simp_all
  show ?case
  proof (cases "op = OpRemove \<and> fd_mask p fd \<noteq> 0")
    case True
    obtain ch where "heap p1 c = Some ch" using wf_poller_known [OF p1(1,4)] by metis
    moreover from this have "listen_events ch \<noteq> 0" using True p1(3,4) by (metis fd_mask_def option.simps(5))
    ultimately have "channel_remove c p1 = Inl AssertionFailure"
      by (simp add: channel_remove_def isNoneEvent_def NONE_EVENT_def)
    with True show ?thesis by simp
  next
    case False
    obtain p2 where "channel_do op c p1 = Inr p2" "wf_poller p2" "quiet p2"
        "fd_mask p2 = (fd_mask p)(fd := mask_op op (fd_mask p fd))"
      using channel_do_sim [OF p1(1,2,4), of op] False p1(3) by auto
    note p2 = this
    from False have "abs_ops (a # ops) (fd_mask p) = abs_ops ops (fd_mask p2)"
      unfolding p2(4) a abs_ops.simps by (simp only: if_False)
    moreover have "channel_ops (a # ops) p = channel_ops ops p2" by (simp add: p2(1))
    ultimately show ?thesis using Cons.IH [OF p2(2,3)] by (simp only:)
  qed
qed

text \<open>A deleted channel that is disabled once more is registered with an uninitialised event.\<close>

lemma DisableAll_deleted:
  assumes "wf_poller p" and "m_channels p fd = Some c" and "heap p c = Some ch"
    and "ch_idx ch = ch_deleted"
  shows "\<exists>p'. DisableAll c p = Inr p' \<and> interest (syscalls p') fd = Some None"
proof -
  obtain p' where p': "DisableAll c p = Inr p'" "wf_poller p'"
      "heap p' = (heap p)(c \<mapsto> updated (ch\<lparr>listen_events := 0\<rparr>))" "m_channels p' = m_channels p"
    using update_listen_wf [OF assms(1-3), of "ch\<lparr>listen_events := 0\<rparr>"] wf_pollerD(1) [OF assms(1-3)] assms(3)
    by (auto simp: DisableAll_def)
  then have "interest (syscalls p') fd = wanted_fd p' fd" by (simp add: wf_poller_def)
  also have "\<dots> = Some None" using p' assms(2,4) by (simp add: wanted_fd_def wanted_def)
  finally show ?thesis using p'(1) by blast
qed

subsection \<open>Which callbacks an event runs\<close>

definition hangup_events :: u32 where
  "hangup_events = EPOLLERR OR EPOLLHUP OR EPOLLRDHUP"

definition last_write :: "'cb channel \<Rightarrow> 'cb option list" where
  "last_write ch = (if is_io_channel ch \<and> \<not> tied ch \<and> has_flag (ready_events ch) EPOLLOUT
     then [out_callback ch] else [])"

definition dispatched :: "'cb channel \<Rightarrow> 'cb option list" where
  "dispatched ch =
     (if has_flag (ready_events ch) EPOLLERR then [err_callback ch]
      else if has_flag (ready_events ch) EPOLLHUP then last_write ch @ [hup_callback ch]
      else if has_flag (ready_events ch) EPOLLRDHUP then last_write ch @ [rdhup_callback ch]
      else (if has_flag (ready_events ch) EPOLLIN then [in_callback ch] else [])
         @ (if has_flag (ready_events ch) EPOLLOUT then [out_callback ch] else []))"

fun call_all :: "('cb \<Rightarrow> 's \<Rightarrow> 's outcome) \<Rightarrow> 'cb option list \<Rightarrow> 's \<Rightarrow> 's outcome" where
  "call_all run [] p = Inr p"
| "call_all run (cb # cbs) p = and_then (call_opt run cb p) (call_all run cbs)"

lemma call_all_simps: "call_all run [] = Inr" "call_all run [cb] = call_opt run cb"
  by (simp_all add: fun_eq_iff) (metis and_then_Inr_id call_all.simps(1) ext)

text \<open>The object tied to the channel is gone.\<close>

definition tied_dead :: "('cb, 'z) poller_scheme \<Rightarrow> 'cb channel \<Rightarrow> bool" where
  "tied_dead p ch \<longleftrightarrow> tied ch \<and> (case tiedObj ch of None \<Rightarrow> True | Some ob \<Rightarrow> \<not> live_objs p ob)"

lemma has_flag_or: "has_flag w (a OR b) \<longleftrightarrow> has_flag w a \<or> has_flag w b"
  by (auto simp: has_flag_def bit_eq_iff bit_and_iff bit_or_iff)

lemma call_opt_deref:
  assumes "\<And>cb q q'. run cb q = Inr q' \<Longrightarrow> heap q' c = heap q c" and "heap p c = Some ch"
  shows "and_then (call_opt run cb p) (\<lambda>p. and_then (deref p c) (F p)) =
    and_then (call_opt run cb p) (\<lambda>p. F p ch)"
proof (cases "call_opt run cb p")
  case (Inr p')
  then have "heap p' c = Some ch"
    using assms by (auto simp: call_opt_def split: option.splits)
  with Inr show ?thesis by simp
qed simp

lemma HandleEvent_tied_eq:
  assumes keep: "\<And>cb q q'. run cb q = Inr q' \<Longrightarrow> heap q' c = heap q c"
    and ch: "heap p c = Some ch"
  shows "HandleEvent_tied run c p =
    and_then (call_all run (dispatched ch) (p\<lparr>heap := (heap p)(c \<mapsto> ch\<lparr>eventHandling := True\<rparr>)\<rparr>))
      (if has_flag (ready_events ch) hangup_events then Inr
       else modify (\<lambda>ch. ch\<lparr>eventHandling := False\<rparr>) c)"
proof -
  define p0 where "p0 = p\<lparr>heap := (heap p)(c \<mapsto> ch\<lparr>eventHandling := True\<rparr>)\<rparr>"
  have p0: "heap p0 c = Some (ch\<lparr>eventHandling := True\<rparr>)" by (simp add: p0_def)
  have start: "modify (\<lambda>ch. ch\<lparr>eventHandling := True\<rparr>) c p = Inr p0" using ch by (simp add: p0_def)
  note D = call_opt_deref [OF keep p0]
  show ?thesis
    unfolding p0_def [symmetric]
    by (simp add: HandleEvent_tied_def start p0 D dispatched_def last_write_def hangup_events_def
        has_flag_or and_then_assoc call_all_simps)
qed

text \<open>The dispatch of an event as a whole.\<close>

lemma HandleEvent_eq:
  assumes keep: "\<And>cb q q'. run cb q = Inr q' \<Longrightarrow> heap q' c = heap q c"
    and ch: "heap p c = Some ch"
  shows "HandleEvent run c p =
    (if tied_dead p ch then Inr p
     else and_then (call_all run (dispatched ch) (p\<lparr>heap := (heap p)(c \<mapsto> ch\<lparr>eventHandling := True\<rparr>)\<rparr>))
       (if has_flag (ready_events ch) hangup_events then Inr
        else modify (\<lambda>ch. ch\<lparr>eventHandling := False\<rparr>) c))"
proof -
  have "HandleEvent run c p = (if tied_dead p ch then Inr p else HandleEvent_tied run c p)"
    using ch by (simp add: HandleEvent_def tied_dead_def split: option.split)
  also have "HandleEvent_tied run c p =
      and_then (call_all run (dispatched ch) (p\<lparr>heap := (heap p)(c \<mapsto> ch\<lparr>eventHandling := True\<rparr>)\<rparr>))
       (if has_flag (ready_events ch) hangup_events then Inr
        else modify (\<lambda>ch. ch\<lparr>eventHandling := False\<rparr>) c)"
    by (rule HandleEvent_tied_eq [OF _ ch]) (rule keep)
  finally show ?thesis .
qed

subsection \<open>Properties\<close>



text \<open>Which callbacks an event runs and in which order, when they leave the channel itself alone.
  A channel tied to an object that is gone runs nothing. An error runs the error callback only; a
  hang-up runs the hang-up callback, after the write callback on an untied I/O channel that is
  writable; a half-close likewise with its own callback; otherwise reading comes before writing.
  Urgent data runs nothing. Only the last case resets the \<^verbatim>\<open>eventHandling\<close> mark.\<close>

theorem HandleEvent_dispatch:
  assumes keep: "\<And>cb q q'. run cb q = Inr q' \<Longrightarrow> heap q' c = heap q c"
    and ch: "heap p c = Some ch"
  shows "HandleEvent run c p =
    (if tied_dead p ch then Inr p
     else and_then (call_all run (dispatched ch) (p\<lparr>heap := (heap p)(c \<mapsto> ch\<lparr>eventHandling := True\<rparr>)\<rparr>))
       (if has_flag (ready_events ch) hangup_events then Inr
        else modify (\<lambda>ch. ch\<lparr>eventHandling := False\<rparr>) c))"
  by (rule HandleEvent_eq [OF keep ch])

text \<open>The witness: readable and writable, the callbacks log their names.\<close>

definition log_callback :: "string \<Rightarrow> (string, 'z) poller_scheme \<Rightarrow> (string, 'z) poller_scheme outcome" where
  "log_callback name p = Inr (p\<lparr>reports := reports p @ [name]\<rparr>)"

definition demo_channel :: "u32 \<Rightarrow> string channel" where
  "demo_channel ev = (Channel 5 True)\<lparr>in_callback := Some ''in'', out_callback := Some ''out'',
     hup_callback := Some ''hup'', ready_events := ev\<rparr>"

definition demo_poller :: "u32 \<Rightarrow> string poller" where
  "demo_poller ev = (Epoller 1)\<lparr>heap := [1 \<mapsto> demo_channel ev], next_ptr := 2, m_channels := [5 \<mapsto> 1]\<rparr>"

theorem HandleEvent_dispatch_witness:
  "\<exists>p'. HandleEvent log_callback 1 (demo_poller (EPOLLOUT OR EPOLLIN)) = Inr p'
    \<and> reports p' = [''in'', ''out''] \<and> eventHandling (the (heap p' 1)) = False"
proof -
  have "heap (demo_poller (EPOLLOUT OR EPOLLIN)) 1 = Some (demo_channel (EPOLLOUT OR EPOLLIN))"
    by (simp add: demo_poller_def)
  then show ?thesis
    by (subst HandleEvent_dispatch)
      (auto simp: log_callback_def call_opt_def dispatched_def demo_poller_def demo_channel_def
        Channel_def Epoller_def tied_dead_def has_flag_def flag_simps hangup_events_def)
qed

text \<open>After an error, hang-up or half-close event the channel stays marked as handling an event,
  so removing it afterwards hits the assertion of its destructor.\<close>

theorem hangup_blocks_removal:
  assumes keep: "\<And>cb q q'. run cb q = Inr q' \<Longrightarrow> heap q' c = heap q c"
    and ch: "heap p c = Some ch" and ev: "has_flag (ready_events ch) hangup_events"
    and live: "\<not> tied_dead p ch" and ok: "HandleEvent run c p = Inr p'"
  shows "delete_channel c p' = Inl AssertionFailure"
proof -
  let ?p0 = "p\<lparr>heap := (heap p)(c \<mapsto> ch\<lparr>eventHandling := True\<rparr>)\<rparr>"
  have all_keep: "call_all run cbs q = Inr q' \<Longrightarrow> heap q' c = heap q c" for cbs q q'
  proof (induction cbs arbitrary: q)
    case (Cons cb cbs)
    then show ?case
      by (cases cb) (auto simp: call_opt_def and_then_eq_Inr dest!: keep)
  qed simp
  have "call_all run (dispatched ch) ?p0 = Inr p'"
    using HandleEvent_eq [OF keep ch] ev live ok by simp
  from all_keep [OF this] have "heap p' c = Some (ch\<lparr>eventHandling := True\<rparr>)" by simp
  then show ?thesis by (simp add: delete_channel_def)
qed

theorem hangup_blocks_removal_witness:
  "\<exists>p'. HandleEvent log_callback 1 (demo_poller EPOLLHUP) = Inr p' \<and> reports p' = [''hup'']
    \<and> delete_channel 1 p' = Inl AssertionFailure"
proof -
  have h: "heap (demo_poller EPOLLHUP) 1 = Some (demo_channel EPOLLHUP)"
    by (simp add: demo_poller_def)
  have f: "has_flag (ready_events (demo_channel EPOLLHUP)) hangup_events"
    "\<not> tied_dead (demo_poller EPOLLHUP) (demo_channel EPOLLHUP)"
    by (simp_all add: demo_channel_def has_flag_def flag_simps hangup_events_def tied_dead_def Channel_def)
  have "\<exists>p'. HandleEvent log_callback 1 (demo_poller EPOLLHUP) = Inr p' \<and> reports p' = [''hup'']"
    by (simp add: HandleEvent_def HandleEvent_tied_def deref_def modify_def demo_poller_def demo_channel_def
        Channel_def Epoller_def call_opt_def log_callback_def has_flag_def flag_simps)
  then obtain p' where p': "HandleEvent log_callback 1 (demo_poller EPOLLHUP) = Inr p'" "reports p' = [''hup'']"
    by blast
  with hangup_blocks_removal [OF _ h f p'(1)] show ?thesis by (auto simp: log_callback_def)
qed

text \<open>\<^verbatim>\<open>Poll\<close> hands out exactly the reported channels in the order reported, each marked with its
  event; other channels keep their mark; the event array doubles exactly when it was filled, so it
  never shrinks and has always room for a next answer.\<close>

theorem Poll_delivers:
  assumes known: "\<And>ev c. (ev, c) \<in> set evs \<Longrightarrow> heap p c \<noteq> None"
    and room: "length evs \<le> events_size p" and distinct: "distinct (map snd evs)"
  shows "\<exists>p'. Poll (Ready evs) p = Inr (p', map snd evs)
    \<and> (\<forall>c. heap p' c = (case map_of (map prod.swap evs) c of None \<Rightarrow> heap p c
         | Some ev \<Rightarrow> map_option (set_ready_event ev) (heap p c)))
    \<and> events_size p' = (if evs \<noteq> [] \<and> length evs = events_size p then 2 * events_size p else events_size p)"
proof -
  have "\<exists>p'. fillActiveChannels evs p = Inr p' \<and> events_size p' = events_size p
    \<and> (\<forall>c. heap p' c = (case map_of (map prod.swap evs) c of None \<Rightarrow> heap p c
         | Some ev \<Rightarrow> map_option (set_ready_event ev) (heap p c)))"
    using known distinct
  proof (induction evs arbitrary: p)
    case Nil
    then show ?case by simp
  next
    case (Cons e evs)
    obtain ev c where e [simp]: "e = (ev, c)" by (cases e)
    from Cons.prems(1) [of ev c] obtain ch where ch: "heap p c = Some ch" by auto
    let ?p = "p\<lparr>heap := (heap p)(c \<mapsto> set_ready_event ev ch)\<rparr>"
    have nc: "map_of (map prod.swap evs) c = None"
      using Cons.prems(2) by (auto simp: map_of_eq_None_iff image_iff)
    have known': "heap ?p d \<noteq> None" if "(ev', d) \<in> set evs" for ev' d
      using Cons.prems(1) [of ev' d] that by simp
    obtain p' where "fillActiveChannels evs ?p = Inr p'" "events_size p' = events_size p"
        "\<forall>d. heap p' d = (case map_of (map prod.swap evs) d of None \<Rightarrow> heap ?p d
           | Some ev \<Rightarrow> map_option (set_ready_event ev) (heap ?p d))"
      using Cons.IH [of ?p] known' Cons.prems(2) by auto
    with ch nc show ?case by (auto split: option.split)
  qed
  with room show ?thesis by (auto simp: Poll_def)
qed

theorem Poll_delivers_witness:
  "\<exists>p'. Poll (Ready [(EPOLLIN, 1)]) (demo_poller 0) = Inr (p', [1])
    \<and> ready_events (the (heap p' 1)) = EPOLLIN"
  using Poll_delivers [of "[(EPOLLIN, 1)]" "demo_poller 0"]
  by (auto simp: demo_poller_def Epoller_def initEventNum_def set_ready_event_def)

end
