(* ===== verification/Event_Loop.thy ===== *)
theory Event_Loop
  imports Mpmc_Queue Channel_Poller
begin

text \<open>
  The event loop of \<^verbatim>\<open>src/src/EventLoop.{h,cpp}\<close>: the poller of \<open>Channel_Poller\<close> extended with the
  queue of pending functors (\<open>Mpmc_Queue\<close>), the eventfd that wakes a blocked \<^verbatim>\<open>epoll_wait\<close> and the
  loop's own flags. Functors and channel callbacks are both \<^verbatim>\<open>std::function<void()>\<close>: names of type
  \<open>'cb\<close> whose effect on the loop is the argument \<open>run\<close>. The answers of \<^verbatim>\<open>epoll_wait\<close> are a list,
  one per iteration; the loop that runs pending functors has a bound, and reaching it is
  \<open>NoReturn\<close>.
\<close>

subsection \<open>State\<close>

record 'cb event_loop = "'cb poller" +
  pendingFunctors :: "'cb mpmc_bounded_Queue"
  activeChannels :: "ptr list"
  wakeupChannel :: ptr
  cur_activeCh :: "ptr option"
  pollReturnTime :: u64
  wakeup_fd :: int
  eventfd_count :: nat
  quit :: bool
  looping :: bool
  loop_eventHandling :: bool
  callingPendingFunctors :: bool

definition add_channel_to :: "int \<Rightarrow> 'cb option \<Rightarrow> ('cb, 'z) poller_scheme \<Rightarrow> (('cb, 'z) poller_scheme \<times> ptr) outcome" where
  "add_channel_to fd cb p =
     (case add_channel fd p of (c, p) \<Rightarrow>
        and_then (modify (set_in_callback cb) c p) (\<lambda>p.
        and_then (EnableRead c p) (\<lambda>p. Inr (p, c))))"

text \<open>
  \<^verbatim>\<open>EventLoop::EventLoop\<close>, with the timer channel that \<^verbatim>\<open>TimerQueue::TimerQueue\<close> adds: \<open>evfd\<close> and
  \<open>tfd\<close> are the descriptors made by \<^verbatim>\<open>eventfd\<close> and \<^verbatim>\<open>timerfd_create\<close>, \<open>noop\<close> fills the fresh
  slots of the functor queue.
\<close>

definition EventLoop :: "int \<Rightarrow> int \<Rightarrow> int \<Rightarrow> 'cb \<Rightarrow> 'cb \<Rightarrow> 'cb \<Rightarrow> 'cb event_loop outcome" where
  "EventLoop tid evfd tfd noop on_wakeup on_timer =
     and_then (new_queue noop 1024) (\<lambda>q.
     and_then (add_channel_to evfd (Some on_wakeup)
         (poller.extend (Epoller tid)
           \<lparr>pendingFunctors = q, activeChannels = [], wakeupChannel = 0, cur_activeCh = None,
            pollReturnTime = 0, wakeup_fd = evfd, eventfd_count = 0, quit = False, looping = False,
            loop_eventHandling = False, callingPendingFunctors = False\<rparr>)) (\<lambda>(L, c).
     and_then (add_channel_to tfd (Some on_timer) (L\<lparr>wakeupChannel := c\<rparr>)) (\<lambda>(L, c). Inr L)))"

subsection \<open>Waking the loop\<close>

text \<open>
  \<^verbatim>\<open>write\<close> of 1 to an eventfd adds to its counter unless that would exceed its maximum; \<^verbatim>\<open>read\<close>
  takes the whole counter, and fails on a non-blocking eventfd whose counter is 0.
\<close>

definition wakeup :: "('cb, 'z) event_loop_scheme \<Rightarrow> ('cb, 'z) event_loop_scheme" where
  "wakeup L =
     (if eventfd_count L < 2 ^ 64 - 2 then L\<lparr>eventfd_count := Suc (eventfd_count L)\<rparr>
      else L\<lparr>reports := reports L @ [''EventLoop::wakeup failed!'']\<rparr>)"

definition handle_wakeup :: "('cb, 'z) event_loop_scheme \<Rightarrow> ('cb, 'z) event_loop_scheme" where
  "handle_wakeup L =
     (if eventfd_count L = 0 then L\<lparr>reports := reports L @ [''EventLoop::handleRead failed'']\<rparr>
      else L\<lparr>eventfd_count := 0\<rparr>)"

definition quit_loop :: "('cb, 'z) event_loop_scheme \<Rightarrow> ('cb, 'z) event_loop_scheme" where
  "quit_loop L =
     (let L = L\<lparr>quit := True\<rparr> in if \<not> isInLoopThread L then wakeup L else L)"

text \<open>\<open>others\<close> is what other threads do to the functor queue between the attempts of \<^verbatim>\<open>push\<close>.\<close>

definition queueInLoop ::
  "(nat \<Rightarrow> 'cb mpmc_bounded_Queue \<Rightarrow> 'cb mpmc_bounded_Queue) \<Rightarrow> 'cb \<Rightarrow>
     ('cb, 'z) event_loop_scheme \<Rightarrow> ('cb, 'z) event_loop_scheme outcome"
where
  "queueInLoop others cb L =
     (case push others (pendingFunctors L) cb of
        None \<Rightarrow> Inl NoReturn
      | Some (q, ok, n) \<Rightarrow>
          (let L = L\<lparr>pendingFunctors := q\<rparr> in Inr (if \<not> isInLoopThread L then wakeup L else L)))"

definition runInLoop ::
  "('cb \<Rightarrow> ('cb, 'z) event_loop_scheme \<Rightarrow> ('cb, 'z) event_loop_scheme outcome) \<Rightarrow>
     (nat \<Rightarrow> 'cb mpmc_bounded_Queue \<Rightarrow> 'cb mpmc_bounded_Queue) \<Rightarrow> 'cb \<Rightarrow>
     ('cb, 'z) event_loop_scheme \<Rightarrow> ('cb, 'z) event_loop_scheme outcome"
where
  "runInLoop run others cb L = (if isInLoopThread L then run cb L else queueInLoop others cb L)"

subsection \<open>The loop\<close>

text \<open>\<^verbatim>\<open>while (!pendingFunctors.empty())\<close>, at most \<open>n\<close> rounds.\<close>

fun drain ::
  "('cb \<Rightarrow> ('cb, 'z) event_loop_scheme \<Rightarrow> ('cb, 'z) event_loop_scheme outcome) \<Rightarrow> nat \<Rightarrow>
     ('cb, 'z) event_loop_scheme \<Rightarrow> ('cb, 'z) event_loop_scheme outcome"
where
  "drain run n L =
     (if queue_empty (pendingFunctors L) then Inr L
      else case n of
          0 \<Rightarrow> Inl NoReturn
        | Suc n' \<Rightarrow>
            (case try_pop (pendingFunctors L) of
               None \<Rightarrow> Inl NoReturn
             | Some (q, Some task) \<Rightarrow> and_then (run task (L\<lparr>pendingFunctors := q\<rparr>)) (drain run n')
             | Some (q, None) \<Rightarrow> drain run n' (L\<lparr>pendingFunctors := q\<rparr>)))"

declare drain.simps [simp del]

text \<open>The range-for over \<^verbatim>\<open>activeChannels\<close>.\<close>

fun handle_active ::
  "('cb \<Rightarrow> ('cb, 'z) event_loop_scheme \<Rightarrow> ('cb, 'z) event_loop_scheme outcome) \<Rightarrow> ptr list \<Rightarrow>
     ('cb, 'z) event_loop_scheme \<Rightarrow> ('cb, 'z) event_loop_scheme outcome"
where
  "handle_active run [] L = Inr L"
| "handle_active run (c # cs) L =
     and_then (HandleEvent run c (L\<lparr>cur_activeCh := Some c\<rparr>)) (handle_active run cs)"

text \<open>One round of \<^verbatim>\<open>while (!quit)\<close>: \<open>ans\<close> and \<open>now\<close> are the answer of \<^verbatim>\<open>epoll_wait\<close> and the clock.\<close>

definition iteration ::
  "('cb \<Rightarrow> 'cb event_loop \<Rightarrow> 'cb event_loop outcome) \<Rightarrow> nat \<Rightarrow> wait_answer \<times> u64 \<Rightarrow>
     'cb event_loop \<Rightarrow> 'cb event_loop outcome"
where
  "iteration run n = (\<lambda>(ans, now) L.
     and_then (Poll ans (L\<lparr>activeChannels := []\<rparr>)) (\<lambda>(L, active).
     and_then (handle_active run active
         (L\<lparr>activeChannels := active, pollReturnTime := now, loop_eventHandling := True\<rparr>)) (\<lambda>L.
     and_then (drain run n
         (L\<lparr>loop_eventHandling := False, cur_activeCh := None, callingPendingFunctors := True\<rparr>)) (\<lambda>L.
     Inr (L\<lparr>callingPendingFunctors := False\<rparr>)))))"

text \<open>With no answer left, a loop that has not quit stays blocked in \<^verbatim>\<open>epoll_wait\<close>.\<close>

fun loop_while ::
  "('cb \<Rightarrow> 'cb event_loop \<Rightarrow> 'cb event_loop outcome) \<Rightarrow> nat \<Rightarrow> (wait_answer \<times> u64) list \<Rightarrow>
     'cb event_loop \<Rightarrow> 'cb event_loop outcome"
where
  "loop_while run n [] L = (if quit L then Inr L else Inl NoReturn)"
| "loop_while run n (a # as) L =
     (if quit L then Inr L else and_then (iteration run n a L) (loop_while run n as))"

definition Loop ::
  "('cb \<Rightarrow> 'cb event_loop \<Rightarrow> 'cb event_loop outcome) \<Rightarrow> nat \<Rightarrow> (wait_answer \<times> u64) list \<Rightarrow>
     'cb event_loop \<Rightarrow> 'cb event_loop outcome"
where
  "Loop run n answers L =
     assert_then (\<not> looping L) (
     and_then (loop_while run n answers ((assertInLoopThread L)\<lparr>looping := True\<rparr>)) (\<lambda>L.
     Inr (L\<lparr>looping := False\<rparr>)))"

subsection \<open>Draining the functor queue\<close>

text \<open>A functor that neither looks at the functor queue nor changes it.\<close>

definition independent ::
  "('cb \<Rightarrow> ('cb, 'z) event_loop_scheme \<Rightarrow> ('cb, 'z) event_loop_scheme outcome) \<Rightarrow> 'cb \<Rightarrow> bool"
where
  "independent run t \<longleftrightarrow> (\<forall>L q. run t (L\<lparr>pendingFunctors := q\<rparr>) =
     and_then (run t L) (\<lambda>L'. Inr (L'\<lparr>pendingFunctors := q\<rparr>)))"

lemma drain_empty:
  assumes "wf_queue (pendingFunctors L)" and "queue_items (pendingFunctors L) = []"
  shows "drain run n L = Inr L"
  using assms mq.empty_iff [of "pendingFunctors L"] by (simp add: drain.simps [of run n])

lemma drain_next:
  assumes "wf_queue (pendingFunctors L)" and "queue_items (pendingFunctors L) = t # ts"
  shows "\<exists>q. wf_queue q \<and> queue_items q = ts \<and> queue_cap q = queue_cap (pendingFunctors L)
    \<and> drain run (Suc n) L = and_then (run t (L\<lparr>pendingFunctors := q\<rparr>)) (drain run n)"
proof -
  obtain q where "try_pop (pendingFunctors L) = Some (q, Some t)" "wf_queue q" "queue_items q = ts"
      "queue_cap q = queue_cap (pendingFunctors L)"
    using mq.get_item [OF assms] by blast
  moreover have "\<not> queue_empty (pendingFunctors L)"
    using mq.empty_iff [OF assms(1)] assms(2) by simp
  ultimately show ?thesis by (auto simp: drain.simps [of run "Suc n"])
qed

lemma drain_fifo:
  assumes "wf_queue (pendingFunctors L)" and "queue_items (pendingFunctors L) = ts"
    and "length ts \<le> n" and "\<And>t. t \<in> set ts \<Longrightarrow> independent run t"
  shows "\<exists>q. wf_queue q \<and> queue_items q = []
    \<and> drain run n L = and_then (call_all run (map Some ts) L) (\<lambda>L'. Inr (L'\<lparr>pendingFunctors := q\<rparr>))"
  using assms
proof (induction ts arbitrary: L n)
  case Nil
  then show ?case using drain_empty [OF Nil.prems(1,2)] by (intro exI [of _ "pendingFunctors L"]) simp
next
  case (Cons t ts)
  from Cons.prems(3) obtain m where n: "n = Suc m" "length ts \<le> m" by (cases n) auto
  obtain q where q: "wf_queue q" "queue_items q = ts"
      "drain run (Suc m) L = and_then (run t (L\<lparr>pendingFunctors := q\<rparr>)) (drain run m)"
    using drain_next [OF Cons.prems(1,2), of run m] by blast
  have ind: "run t (L\<lparr>pendingFunctors := q\<rparr>) = and_then (run t L) (\<lambda>L'. Inr (L'\<lparr>pendingFunctors := q\<rparr>))"
    using Cons.prems(4) [of t] by (simp add: independent_def)
  have IH: "\<exists>q'. wf_queue q' \<and> queue_items q' = [] \<and> drain run m (L'\<lparr>pendingFunctors := q\<rparr>) =
      and_then (call_all run (map Some ts) (L'\<lparr>pendingFunctors := q\<rparr>)) (\<lambda>L'. Inr (L'\<lparr>pendingFunctors := q'\<rparr>))"
    for L'
    using Cons.IH [of "L'\<lparr>pendingFunctors := q\<rparr>" m] q(1,2) n(2) Cons.prems(4) by simp
  have all_ind: "and_then (call_all run (map Some us) (L'\<lparr>pendingFunctors := q\<rparr>)) (\<lambda>L'. Inr (L'\<lparr>pendingFunctors := q'\<rparr>))
      = and_then (call_all run (map Some us) L') (\<lambda>L'. Inr (L'\<lparr>pendingFunctors := q'\<rparr>))"
    if "set us \<subseteq> set ts" for us L' q'
    using that
  proof (induction us arbitrary: L')
    case Nil
    then show ?case by simp
  next
    case (Cons u us)
    then have "independent run u" using Cons.prems \<open>\<And>t'. t' \<in> set (t # ts) \<Longrightarrow> independent run t'\<close> by auto
    with Cons show ?case by (cases "run u L'") (auto simp: call_opt_def independent_def)
  qed
  show ?case
  proof (cases "run t L")
    case (Inl e)
    with IH [of L] ind q(3) n(1) show ?thesis by (auto simp: call_opt_def)
  next
    case (Inr L')
    with IH [of L'] all_ind [OF subset_refl] ind q(3) n(1) show ?thesis by (auto simp: call_opt_def)
  qed
qed

subsection \<open>Queueing from another thread\<close>

lemma queueInLoop_room:
  assumes "wf_queue (pendingFunctors L)"
    and "length (queue_items (pendingFunctors L)) < queue_cap (pendingFunctors L)"
  shows "\<exists>q. wf_queue q \<and> queue_items q = queue_items (pendingFunctors L) @ [cb]
    \<and> queueInLoop (\<lambda>n q. q) cb L = Inr (let L = L\<lparr>pendingFunctors := q\<rparr> in
        if \<not> isInLoopThread L then wakeup L else L)"
  using push_room [OF assms, of cb] by (auto simp: queueInLoop_def Let_def)

lemma queueInLoop_full:
  assumes "wf_queue (pendingFunctors L)"
    and "length (queue_items (pendingFunctors L)) = queue_cap (pendingFunctors L)"
  shows "queueInLoop (\<lambda>n q. q) cb L = Inr (if \<not> isInLoopThread L then wakeup L else L)"
  using push_full [OF assms, of cb] by (simp add: queueInLoop_def Let_def)

text \<open>The wakeup channel becomes readable: its callback empties the eventfd.\<close>

lemma handle_wakeup_event:
  assumes "heap L c = Some ch" and "ready_events ch = EPOLLIN" and "in_callback ch = Some w"
    and "\<not> tied ch" and "\<And>L. run w L = Inr (handle_wakeup L)" and "0 < eventfd_count L"
  shows "HandleEvent run c L =
    Inr (L\<lparr>heap := (heap L)(c \<mapsto> ch\<lparr>eventHandling := False\<rparr>), eventfd_count := 0\<rparr>)"
  using assms
  by (simp add: HandleEvent_def HandleEvent_tied_def call_opt_def handle_wakeup_def has_flag_def flag_simps)

subsection \<open>A new loop\<close>

lemma add_channel_to_ok:
  assumes "wf_poller p" and "m_channels p fd = None"
  shows "\<exists>p'. add_channel_to fd cb p = Inr (p', next_ptr p) \<and> wf_poller p'
    \<and> next_ptr p' = Suc (next_ptr p) \<and> m_channels p' = (m_channels p)(fd \<mapsto> next_ptr p)
    \<and> heap p' = (heap p)(next_ptr p \<mapsto> (Channel fd False)\<lparr>ch_idx := ch_added, listen_events := READ_EVENT,
        in_callback := cb\<rparr>)
    \<and> events_size p' = events_size p \<and> isInLoopThread p' = isInLoopThread p \<and> poller.more p' = poller.more p"
proof -
  let ?c = "next_ptr p" and ?ch = "(Channel fd False)\<lparr>in_callback := cb\<rparr>"
  define p1 where "p1 = snd (add_channel fd p)"
  have p1: "add_channel fd p = (?c, p1)" "heap p1 = (heap p)(?c \<mapsto> setIndex ch_deleted (Channel fd False))"
      "m_channels p1 = (m_channels p)(fd \<mapsto> ?c)"
    using assms(2) by (simp_all add: p1_def add_channel_def Let_def)
  have wf1: "wf_poller p1" using add_channel_wf(1) [OF assms(1)] by (simp add: p1_def)
  let ?ch' = "(Channel fd False)\<lparr>in_callback := cb, listen_events := READ_EVENT\<rparr>"
  have listen: "READ_EVENT \<noteq> 0" by (simp add: flag_simps)
  obtain p2 where p2: "loop_updateChannel ?c (p1\<lparr>heap := (heap p1)(?c \<mapsto> ?ch')\<rparr>) = Inr p2" "wf_poller p2"
      "heap p2 = (heap p1)(?c \<mapsto> updated ?ch')" "m_channels p2 = m_channels p1"
      "same_frame p1 p2"
    using update_listen_wf [OF wf1, of fd ?c "setIndex ch_deleted (Channel fd False)" ?ch'] p1
    by (auto simp: setIndex_def Channel_def)
  have upd: "updated ?ch' = (Channel fd False)\<lparr>ch_idx := ch_added, listen_events := READ_EVENT, in_callback := cb\<rparr>"
    by (simp add: updated_def Channel_def setIndex_def)
  have *: "add_channel_to fd cb p = Inr (p2, ?c)"
    using p1 p2(1) by (simp add: add_channel_to_def EnableRead_def setIndex_def Channel_def set_in_callback_def)
  moreover have "next_ptr p1 = Suc ?c \<and> events_size p1 = events_size p \<and> loop_tid p1 = loop_tid p
      \<and> cur_tid p1 = cur_tid p \<and> poller.more p1 = poller.more p"
    using assms(2) by (simp add: p1_def add_channel_def Let_def)
  ultimately show ?thesis using p2(2-5) p1(2,3) upd by (simp add: same_frame_def isInLoopThread_def)
qed

lemma EventLoop_ok:
  assumes "evfd \<noteq> tfd"
  obtains L :: "'cb event_loop" where "EventLoop tid evfd tfd noop w tm = Inr L" and "wf_poller L"
    and "wf_queue (pendingFunctors L)" and "queue_items (pendingFunctors L) = []"
    and "queue_cap (pendingFunctors L) = 1024" and "isInLoopThread L"
    and "heap L (wakeupChannel L) = Some ((Channel evfd False)\<lparr>ch_idx := ch_added,
      listen_events := READ_EVENT, in_callback := Some w\<rparr>)"
    and "events_size L = 16" and "eventfd_count L = 0" and "\<not> quit L" and "\<not> looping L"
proof -
  have two: "(2::u64) \<le> 1024" "(1024::u64) AND (1024 - 1) = 0" by simp_all
  obtain q where q: "new_queue noop 1024 = Inr q" "wf_queue q" "queue_items q = []" "queue_cap q = unat (1024::u64)"
      "tail_pos q = 0" "head_pos q = 0"
    using new_queue_ok [OF two] .
  define E :: "'cb event_loop" where "E = poller.extend (Epoller tid) \<lparr>pendingFunctors = q, activeChannels = [], wakeupChannel = 0,
    cur_activeCh = None, pollReturnTime = 0, wakeup_fd = evfd, eventfd_count = 0, quit = False, looping = False,
    loop_eventHandling = False, callingPendingFunctors = False\<rparr>"
  have E: "wf_poller E" "m_channels E = (\<lambda>_. None)" "next_ptr E = 1" "events_size E = 16" "isInLoopThread E"
    by (simp_all add: E_def wf_poller_def Epoller_def poller.defs wanted_fd_def fun_eq_iff initEventNum_def
        isInLoopThread_def)
  obtain L1 where L1: "add_channel_to evfd (Some w) E = Inr (L1, 1)" "wf_poller L1" "next_ptr L1 = 2"
      "m_channels L1 = [evfd \<mapsto> 1]" "heap L1 1 = Some ((Channel evfd False)\<lparr>ch_idx := ch_added,
        listen_events := READ_EVENT, in_callback := Some w\<rparr>)"
      "events_size L1 = 16" "isInLoopThread L1" "poller.more L1 = poller.more E"
    using add_channel_to_ok [OF E(1), of evfd "Some w"] E(2-5) by auto
  let ?L1 = "L1\<lparr>wakeupChannel := 1\<rparr>"
  have "wanted_fd ?L1 = wanted_fd L1" by (auto simp: wanted_fd_def fun_eq_iff split: option.split)
  then have wf1: "wf_poller ?L1" using L1(2) by (simp add: wf_poller_def)
  obtain L2 where L2: "add_channel_to tfd (Some tm) ?L1 = Inr (L2, 2)" "wf_poller L2"
      "heap L2 = (heap L1)(2 \<mapsto> (Channel tfd False)\<lparr>ch_idx := ch_added, listen_events := READ_EVENT,
        in_callback := Some tm\<rparr>)" "events_size L2 = 16" "isInLoopThread L2" "poller.more L2 = poller.more ?L1"
    using add_channel_to_ok [OF wf1, of tfd "Some tm"] L1(3,4,6,7) assms by (auto simp: isInLoopThread_def)
  have "EventLoop tid evfd tfd noop w tm = Inr L2"
    using L1(1) L2(1) by (simp add: EventLoop_def q(1) E_def)
  moreover have "pendingFunctors L2 = q" "wakeupChannel L2 = 1" "eventfd_count L2 = 0" "\<not> quit L2" "\<not> looping L2"
    using L2(6) L1(8) by (cases L2, cases L1, simp add: E_def poller.defs Epoller_def)+
  ultimately show ?thesis using L2(2-5) L1(5) q(2-4) that by simp
qed

subsection \<open>Properties\<close>

text \<open>C16: a functor handed to the loop by another thread is run. If there is room in the queue,
  \<^verbatim>\<open>queueInLoop\<close> leaves the eventfd readable, and the iteration that answers it consumes the wakeup
  and runs every functor queued before and then this one, in order, leaving the queue empty.
  The functors themselves are arbitrary as long as they do not touch the functor queue.\<close>

theorem foreign_functor_runs:
  assumes wf: "wf_queue (pendingFunctors L)" and ts: "queue_items (pendingFunctors L) = ts"
    and room: "length ts < queue_cap (pendingFunctors L)" and foreign: "\<not> isInLoopThread L"
    and ch: "heap L (wakeupChannel L) = Some ch" "in_callback ch = Some w" "\<not> tied ch"
    and w: "\<And>L. run w L = Inr (handle_wakeup L)"
    and count: "eventfd_count L < 2 ^ 64 - 2" and events: "0 < events_size L"
    and ind: "\<And>t. t \<in> set (ts @ [cb]) \<Longrightarrow> independent run t" and n: "length ts < n"
  shows "\<exists>L1 L2 q. queueInLoop (\<lambda>n q. q) cb L = Inr L1 \<and> 0 < eventfd_count L1
    \<and> eventfd_count L2 = 0 \<and> callingPendingFunctors L2 \<and> queue_items q = []
    \<and> iteration run n (Ready [(EPOLLIN, wakeupChannel L)], now) (L1\<lparr>cur_tid := loop_tid L1\<rparr>) =
        and_then (call_all run (map Some (ts @ [cb])) L2)
          (\<lambda>L'. Inr (L'\<lparr>pendingFunctors := q, callingPendingFunctors := False\<rparr>))"
proof -
  obtain q1 where q1: "wf_queue q1" "queue_items q1 = ts @ [cb]"
      "queueInLoop (\<lambda>n q. q) cb L = Inr (L\<lparr>pendingFunctors := q1, eventfd_count := Suc (eventfd_count L)\<rparr>)"
    using queueInLoop_room [OF wf, of cb] ts room foreign count
    by (auto simp: Let_def isInLoopThread_def wakeup_def)
  define L1 where "L1 = L\<lparr>pendingFunctors := q1, eventfd_count := Suc (eventfd_count L)\<rparr>"
  let ?c = "wakeupChannel L"
  obtain Lp where Lp: "Poll (Ready [(EPOLLIN, ?c)]) (L1\<lparr>cur_tid := loop_tid L1, activeChannels := []\<rparr>) = Inr (Lp, [?c])"
      "heap Lp ?c = Some (ch\<lparr>ready_events := EPOLLIN\<rparr>)" "pendingFunctors Lp = q1" "0 < eventfd_count Lp"
    using ch(1) events by (auto simp: Poll_def L1_def set_ready_event_def)
  define La where "La = Lp\<lparr>activeChannels := [?c], pollReturnTime := now, loop_eventHandling := True,
    cur_activeCh := Some ?c\<rparr>"
  define L2 where "L2 = La\<lparr>heap := (heap La)(?c \<mapsto> ch\<lparr>ready_events := EPOLLIN, eventHandling := False\<rparr>),
    eventfd_count := 0, loop_eventHandling := False, cur_activeCh := None, callingPendingFunctors := True\<rparr>"
  have h: "HandleEvent run ?c La = Inr (La\<lparr>heap := (heap La)(?c \<mapsto> ch\<lparr>ready_events := EPOLLIN,
      eventHandling := False\<rparr>), eventfd_count := 0\<rparr>)"
    using Lp(2,4) ch handle_wakeup_event [of La ?c "ch\<lparr>ready_events := EPOLLIN\<rparr>" w run] w
    by (simp add: La_def)
  obtain q where q: "wf_queue q" "queue_items q = []"
      "drain run n L2 = and_then (call_all run (map Some (ts @ [cb])) L2) (\<lambda>L'. Inr (L'\<lparr>pendingFunctors := q\<rparr>))"
    using drain_fifo [of L2 "ts @ [cb]" n run] q1(1,2) Lp(3) ind n by (auto simp: L2_def La_def)
  have "iteration run n (Ready [(EPOLLIN, ?c)], now) (L1\<lparr>cur_tid := loop_tid L1\<rparr>) =
      and_then (drain run n L2) (\<lambda>L. Inr (L\<lparr>callingPendingFunctors := False\<rparr>))"
    using h by (simp add: iteration_def Lp(1) La_def L2_def)
  also have "\<dots> = and_then (call_all run (map Some (ts @ [cb])) L2)
      (\<lambda>L'. Inr (L'\<lparr>pendingFunctors := q, callingPendingFunctors := False\<rparr>))"
    by (simp add: q(3) and_then_assoc)
  finally show ?thesis
    using q1(3) q(2) by (intro exI [of _ L1] exI [of _ L2] exI [of _ q]) (simp add: L1_def L2_def)
qed

text \<open>Functors of the witnesses: the wakeup handler, a functor that logs, one that queues itself, one
  that quits the loop.\<close>

datatype demo_functor = OnWakeup | OnTimer | Say string | Requeue | Quit

fun run_demo ::
  "demo_functor \<Rightarrow> demo_functor event_loop \<Rightarrow> demo_functor event_loop outcome"
where
  "run_demo OnWakeup L = Inr (handle_wakeup L)"
| "run_demo OnTimer L = Inr L"
| "run_demo (Say s) L = Inr (L\<lparr>reports := reports L @ [s]\<rparr>)"
| "run_demo Requeue L = queueInLoop (\<lambda>n q. q) Requeue L"
| "run_demo Quit L = Inr (quit_loop L)"

definition demo_channel_3 :: "demo_functor channel" where
  "demo_channel_3 = (Channel 3 False)\<lparr>ch_idx := ch_added, listen_events := READ_EVENT,
     in_callback := Some OnWakeup\<rparr>"

definition demo_loop :: "demo_functor event_loop" where
  "demo_loop = projr (EventLoop 1 3 4 OnTimer OnWakeup OnTimer)"

lemma demo_loop:
  "EventLoop 1 3 4 OnTimer OnWakeup OnTimer = Inr demo_loop" "wf_poller demo_loop"
  "wf_queue (pendingFunctors demo_loop)" "queue_items (pendingFunctors demo_loop) = []"
  "queue_cap (pendingFunctors demo_loop) = 1024" "isInLoopThread demo_loop"
  "heap demo_loop (wakeupChannel demo_loop) = Some demo_channel_3"
  "events_size demo_loop = 16" "eventfd_count demo_loop = 0" "\<not> quit demo_loop" "\<not> looping demo_loop"
  unfolding demo_loop_def demo_channel_3_def
  by (rule EventLoop_ok [of 3 4 1 OnTimer OnWakeup OnTimer]; simp)+

lemma independent_demo: "independent run_demo (Say s)" "independent run_demo Quit"
  by (simp_all add: independent_def quit_loop_def isInLoopThread_def wakeup_def Let_def)

theorem foreign_functor_runs_witness:
  "\<exists>L1 L'. queueInLoop (\<lambda>n q. q) (Say ''a'') (demo_loop\<lparr>cur_tid := loop_tid demo_loop + 1\<rparr>) = Inr L1
    \<and> iteration run_demo 1 (Ready [(EPOLLIN, wakeupChannel demo_loop)], 7) (L1\<lparr>cur_tid := loop_tid L1\<rparr>) = Inr L'
    \<and> queue_items (pendingFunctors L') = []"
proof -
  let ?L = "demo_loop\<lparr>cur_tid := loop_tid demo_loop + 1\<rparr>"
  have "\<exists>L1 L2 q. queueInLoop (\<lambda>n q. q) (Say ''a'') ?L = Inr L1 \<and> 0 < eventfd_count L1
    \<and> eventfd_count L2 = 0 \<and> callingPendingFunctors L2 \<and> queue_items q = []
    \<and> iteration run_demo 1 (Ready [(EPOLLIN, wakeupChannel ?L)], 7) (L1\<lparr>cur_tid := loop_tid L1\<rparr>) =
        and_then (call_all run_demo (map Some ([] @ [Say ''a''])) L2)
          (\<lambda>L'. Inr (L'\<lparr>pendingFunctors := q, callingPendingFunctors := False\<rparr>))"
    by (rule foreign_functor_runs [where ch = demo_channel_3 and w = OnWakeup])
      (use demo_loop independent_demo in \<open>simp_all add: isInLoopThread_def demo_channel_3_def Channel_def\<close>)
  then show ?thesis by (auto simp: call_opt_def)
qed

text \<open>A functor that queues itself again keeps the loop in the functor phase for ever: no bound
  on the number of rounds lets the iteration end, so events are never polled again.\<close>

theorem requeueing_functor_starves_loop:
  assumes "wf_queue (pendingFunctors L)" and "queue_items (pendingFunctors L) = [t]"
    and "isInLoopThread L" and "0 < queue_cap (pendingFunctors L)"
    and requeue: "\<And>L. run t L = queueInLoop (\<lambda>n q. q) t L"
  shows "iteration run n (Ready [], now) L = Inl NoReturn"
proof -
  have "drain run n L = Inl NoReturn"
    if "wf_queue (pendingFunctors L)" "queue_items (pendingFunctors L) = [t]" "isInLoopThread L"
      "0 < queue_cap (pendingFunctors L)" for n and L :: "'a event_loop"
    using that
  proof (induction n arbitrary: L)
    case 0
    then show ?case using mq.empty_iff [OF 0(1)] by (simp add: drain.simps [of run 0])
  next
    case (Suc n)
    obtain q where q: "wf_queue q" "queue_items q = []" "queue_cap q = queue_cap (pendingFunctors L)"
        "drain run (Suc n) L = and_then (run t (L\<lparr>pendingFunctors := q\<rparr>)) (drain run n)"
      using drain_next [OF Suc.prems(1,2), of run n] by blast
    then have "length (queue_items q) < queue_cap q" using Suc.prems(4) by simp
    from push_room [OF q(1) this, of t] q(2,3) obtain q' where q': "push (\<lambda>n q. q) q t = Some (q', True, 1)"
        "wf_queue q'" "queue_items q' = [t]" "queue_cap q' = queue_cap (pendingFunctors L)" by auto
    have "run t (L\<lparr>pendingFunctors := q\<rparr>) = Inr (L\<lparr>pendingFunctors := q'\<rparr>)"
      using q'(1) Suc.prems(3) by (simp add: requeue queueInLoop_def isInLoopThread_def)
    with q(4) q'(2-4) Suc.IH [of "L\<lparr>pendingFunctors := q'\<rparr>"] Suc.prems(3,4) show ?case
      by (simp add: isInLoopThread_def)
  qed
  from this [of "L\<lparr>activeChannels := [], pollReturnTime := now, loop_eventHandling := False,
      cur_activeCh := None, callingPendingFunctors := True\<rparr>" n] assms(1-4)
  show ?thesis by (simp add: iteration_def Poll_def isInLoopThread_def)
qed

theorem requeueing_functor_starves_loop_witness:
  "\<exists>L :: demo_functor event_loop. queue_items (pendingFunctors L) = [Requeue]
    \<and> (\<forall>n. iteration run_demo n (Ready [], 7) L = Inl NoReturn)"
proof -
  have "length (queue_items (pendingFunctors demo_loop)) < queue_cap (pendingFunctors demo_loop)"
    unfolding demo_loop(4,5) by simp
  from push_room [OF demo_loop(3) this, of Requeue] demo_loop(4,5) obtain q where q: "wf_queue q" "queue_items q = [Requeue]"
      "queue_cap q = 1024" by auto
  let ?L = "demo_loop\<lparr>pendingFunctors := q\<rparr>"
  have "iteration run_demo n (Ready [], 7) ?L = Inl NoReturn" for n
    using q demo_loop(6) requeueing_functor_starves_loop [of ?L Requeue run_demo n 7] by (simp add: isInLoopThread_def)
  with q(2) show ?thesis by (intro exI [of _ ?L]) simp
qed



end
