(* ===== verification/Timers.thy ===== *)
theory Timers
  imports Net_Prelude
begin

text \<open>
  Timers: \<^verbatim>\<open>src/src/Timers/Timer.{h,cpp}\<close>, \<^verbatim>\<open>TimerQueue.{h,cpp}\<close> and \<^verbatim>\<open>Timestamp.{h,cpp}\<close>, with the
  timer calls of \<^verbatim>\<open>src/src/EventLoop.cpp\<close>. Times are 64-bit microsecond counts and wrap around as
  in the code. A \<^verbatim>\<open>double\<close> number of seconds enters the code only through
  \<^verbatim>\<open>static_cast<uint64_t>(second * 1000000)\<close> and the test against \<^verbatim>\<open>0.0\<close>, so a timer stores these
  two values. Reading the clock is an argument \<open>clk\<close>: \<open>clk i\<close> is the \<open>i\<close>-th reading. The map
  \<^verbatim>\<open>activeTimers\<close> is an association list in key order.
\<close>

subsection \<open>Timestamps\<close>

record timestamp =
  microSecondsSinceEpoch :: u64

definition timestamp_valid :: "timestamp \<Rightarrow> bool" where
  "timestamp_valid t \<longleftrightarrow> 0 < microSecondsSinceEpoch t"

definition timestamp_invalid :: timestamp where
  "timestamp_invalid = \<lparr>microSecondsSinceEpoch = 0\<rparr>"

definition timestamp_eq :: "timestamp \<Rightarrow> timestamp \<Rightarrow> bool" where
  "timestamp_eq a b \<longleftrightarrow> microSecondsSinceEpoch b = microSecondsSinceEpoch a"

definition timestamp_less :: "timestamp \<Rightarrow> timestamp \<Rightarrow> bool" where
  "timestamp_less a b \<longleftrightarrow> microSecondsSinceEpoch b > microSecondsSinceEpoch a"

text \<open>\<open>us\<close> stands for \<^verbatim>\<open>static_cast<uint64_t>(second * 1000000)\<close>.\<close>

definition timestamp_add :: "timestamp \<Rightarrow> u64 \<Rightarrow> timestamp" where
  "timestamp_add now us = \<lparr>microSecondsSinceEpoch = microSecondsSinceEpoch now + us\<rparr>"

definition addTime :: "u64 \<Rightarrow> u64 \<Rightarrow> u64" where
  "addTime now us = us + now"

text \<open>The difference in microseconds, before the division that makes it a \<^verbatim>\<open>double\<close>.\<close>

definition timeDifference_us :: "timestamp \<Rightarrow> timestamp \<Rightarrow> int" where
  "timeDifference_us high low = sint (microSecondsSinceEpoch high - microSecondsSinceEpoch low)"

text \<open>A reading of \<^verbatim>\<open>clock_gettime\<close> in microseconds.\<close>

definition now_microsecconds :: "u64 \<Rightarrow> u64 \<Rightarrow> u64" where
  "now_microsecconds tv_sec tv_nsec = tv_sec * 1000000 + tv_nsec div 1000"

subsection \<open>Timers and the timer queue\<close>

type_synonym timer_ptr = nat

record 'cb timer =
  triggerTime :: u64
  timer_cb :: 'cb
  repeat_us :: u64
  repeat :: bool

definition addPeriod :: "u64 \<Rightarrow> 'cb timer \<Rightarrow> 'cb timer" where
  "addPeriod now tm =
     tm\<lparr>triggerTime := (if repeat tm then addTime now (repeat_us tm) else 0)\<rparr>"

record itimerspec =
  tv_sec :: u64
  tv_nsec :: u64

record 'cb timer_queue =
  timers :: "timer_ptr \<Rightarrow> 'cb timer option"
  next_timer :: timer_ptr
  activeTimers :: "(u64 \<times> (timer_ptr \<times> bool) list) list"
  triggeredTimers :: "timer_ptr list"
  ticks :: nat
  armed :: "itimerspec option"
  in_loop :: bool
  queue_log :: "string list"

definition TimerQueue :: "'cb timer_queue" where
  "TimerQueue = \<lparr>timers = (\<lambda>_. None), next_timer = 0, activeTimers = [], triggeredTimers = [],
     ticks = 0, armed = None, in_loop = True, queue_log = []\<rparr>"

definition deref_timer :: "('cb, 'z) timer_queue_scheme \<Rightarrow> timer_ptr \<Rightarrow> 'cb timer outcome" where
  "deref_timer q t = (case timers q t of Some tm \<Rightarrow> Inr tm | None \<Rightarrow> Inl BadPointer)"

text \<open>\<^verbatim>\<open>std::map::operator[]\<close> on the key-ordered list, and \<^verbatim>\<open>erase\<close> of a key.\<close>

fun map_put :: "u64 \<Rightarrow> 'v \<Rightarrow> (u64 \<times> 'v) list \<Rightarrow> (u64 \<times> 'v) list" where
  "map_put k v [] = [(k, v)]"
| "map_put k v ((k', v') # m) =
     (if k < k' then (k, v) # (k', v') # m else if k = k' then (k, v) # m else (k', v') # map_put k v m)"

definition map_erase :: "u64 \<Rightarrow> (u64 \<times> 'v) list \<Rightarrow> (u64 \<times> 'v) list" where
  "map_erase k m = filter (\<lambda>e. fst e \<noteq> k) m"

subsection \<open>Arming the timer descriptor\<close>

definition period_from :: "u64 \<Rightarrow> u64 \<Rightarrow> u64" where
  "period_from t trigger =
     (let period = (if trigger > t then trigger - t else 0) in if period < 100 then 100 else period)"

definition periodFromNow :: "u64 \<Rightarrow> u64 \<Rightarrow> itimerspec" where
  "periodFromNow t trigger =
     (let period = period_from t trigger in
      \<lparr>tv_sec = period div 1000000, tv_nsec = period mod 1000000 * 1000\<rparr>)"

definition updateFd :: "(nat \<Rightarrow> u64) \<Rightarrow> u64 \<Rightarrow> ('cb, 'z) timer_queue_scheme \<Rightarrow> ('cb, 'z) timer_queue_scheme" where
  "updateFd clk trigger q =
     q\<lparr>ticks := Suc (ticks q), armed := Some (periodFromNow (clk (ticks q)) trigger)\<rparr>"

subsection \<open>Adding and cancelling\<close>

text \<open>
  \<^verbatim>\<open>TimerQueue::insert\<close>. In the first branch the bucket is copied into a local variable and the
  timer is entered into the copy; when the timer is already there the function ends without a
  \<^verbatim>\<open>return\<close>.
\<close>

definition insert_timer ::
  "timer_ptr \<Rightarrow> bool \<Rightarrow> ('cb, 'z) timer_queue_scheme \<Rightarrow> (bool \<times> ('cb, 'z) timer_queue_scheme) outcome"
where
  "insert_timer t noOwner q =
     and_then (deref_timer q t) (\<lambda>tm.
     let k = triggerTime tm in
     case map_of (activeTimers q) k of
       Some sameTime_timers \<Rightarrow>
         if t \<in> fst ` set sameTime_timers then Inl UndefinedBehaviour
         else Inr (fst (hd (activeTimers q)) > k, q)
     | None \<Rightarrow>
         let m = map_put k [(t, noOwner)] (activeTimers q) in
         Inr (fst (hd m) \<ge> k, q\<lparr>activeTimers := m\<rparr>))"

definition addTimerInLoop ::
  "(nat \<Rightarrow> u64) \<Rightarrow> timer_ptr \<Rightarrow> bool \<Rightarrow> ('cb, 'z) timer_queue_scheme \<Rightarrow> ('cb, 'z) timer_queue_scheme outcome"
where
  "addTimerInLoop clk t noOwner q =
     and_then (insert_timer t noOwner q) (\<lambda>(first, q).
     if first then and_then (deref_timer q t) (\<lambda>tm. Inr (updateFd clk (triggerTime tm) q)) else Inr q)"

text \<open>
  \<^verbatim>\<open>TimerQueue::addTimer\<close> runs \<^verbatim>\<open>addTimerInLoop\<close> at once in the loop thread. From another thread it
  queues a lambda that captures its local variable by reference, which is dangling when it runs.
\<close>

definition addTimer ::
  "(nat \<Rightarrow> u64) \<Rightarrow> timer_ptr \<Rightarrow> ('cb, 'z) timer_queue_scheme \<Rightarrow> ('cb, 'z) timer_queue_scheme outcome"
where
  "addTimer clk t q = (if in_loop q then addTimerInLoop clk t False q else Inl UndefinedBehaviour)"

definition addTimer_new ::
  "(nat \<Rightarrow> u64) \<Rightarrow> u64 \<Rightarrow> 'cb \<Rightarrow> u64 \<times> bool \<Rightarrow> ('cb, 'z) timer_queue_scheme \<Rightarrow>
     (timer_ptr \<times> ('cb, 'z) timer_queue_scheme) outcome"
where
  "addTimer_new clk trigger cb circle q =
     (let t = next_timer q;
          q = q\<lparr>timers := (timers q)(t \<mapsto> \<lparr>triggerTime = trigger, timer_cb = cb,
                  repeat_us = fst circle, repeat = snd circle\<rparr>), next_timer := Suc t\<rparr> in
      and_then (addTimer clk t q) (\<lambda>q. Inr (t, q)))"

definition cancelTimerInLoop ::
  "timer_ptr \<Rightarrow> bool \<Rightarrow> ('cb, 'z) timer_queue_scheme \<Rightarrow> ('cb, 'z) timer_queue_scheme outcome"
where
  "cancelTimerInLoop t noOwner q =
     and_then (deref_timer q t) (\<lambda>tm.
     let k = triggerTime tm in
     case map_of (activeTimers q) k of
       Some bucket \<Rightarrow>
         let bucket = filter (\<lambda>e. fst e \<noteq> t) bucket;
             q = (if noOwner then q\<lparr>timers := (timers q)(t := None)\<rparr> else q) in
         Inr (q\<lparr>activeTimers := (if bucket = [] then map_erase k (activeTimers q)
                else map_put k bucket (activeTimers q))\<rparr>)
     | None \<Rightarrow> Inr (q\<lparr>queue_log := queue_log q @ [''cancelTimerInLoop'']\<rparr>))"

definition cancelTimer ::
  "timer_ptr \<Rightarrow> bool \<Rightarrow> ('cb, 'z) timer_queue_scheme \<Rightarrow> ('cb, 'z) timer_queue_scheme outcome"
where
  "cancelTimer t noOwner q = (if in_loop q then cancelTimerInLoop t noOwner q else Inl UndefinedBehaviour)"

text \<open>The timer calls of the event loop; \<open>trigger\<close> is the converted \<^verbatim>\<open>now + _after * 1000000\<close>.\<close>

definition runAt ::
  "(nat \<Rightarrow> u64) \<Rightarrow> u64 \<Rightarrow> 'cb \<Rightarrow> ('cb, 'z) timer_queue_scheme \<Rightarrow> (timer_ptr \<times> ('cb, 'z) timer_queue_scheme) outcome"
where
  "runAt clk trigger cb q = addTimer_new clk trigger cb (0, False) q"

definition runAfter ::
  "(nat \<Rightarrow> u64) \<Rightarrow> (u64 \<Rightarrow> u64) \<Rightarrow> 'cb \<Rightarrow> ('cb, 'z) timer_queue_scheme \<Rightarrow>
     (timer_ptr \<times> ('cb, 'z) timer_queue_scheme) outcome"
where
  "runAfter clk after cb q =
     addTimer_new clk (after (clk (ticks q))) cb (0, False) (q\<lparr>ticks := Suc (ticks q)\<rparr>)"

definition runEvery ::
  "(nat \<Rightarrow> u64) \<Rightarrow> 'cb \<Rightarrow> u64 \<times> bool \<Rightarrow> ('cb, 'z) timer_queue_scheme \<Rightarrow>
     (timer_ptr \<times> ('cb, 'z) timer_queue_scheme) outcome"
where
  "runEvery clk cb circle q = addTimer_new clk (clk (ticks q)) cb circle (q\<lparr>ticks := Suc (ticks q)\<rparr>)"

subsection \<open>Expiry\<close>

text \<open>The inner loop over a copy of the first bucket.\<close>

fun run_bucket ::
  "('cb \<Rightarrow> ('cb, 'z) timer_queue_scheme \<Rightarrow> ('cb, 'z) timer_queue_scheme outcome) \<Rightarrow>
     (timer_ptr \<times> bool) list \<Rightarrow> ('cb, 'z) timer_queue_scheme \<Rightarrow> ('cb, 'z) timer_queue_scheme outcome"
where
  "run_bucket run [] q = Inr q"
| "run_bucket run ((t, noOwner) # ts) q =
     and_then (deref_timer q t) (\<lambda>tm.
     and_then (run (timer_cb tm) q) (\<lambda>q.
     and_then (deref_timer q t) (\<lambda>tm.
     run_bucket run ts
       (if repeat tm then q\<lparr>triggeredTimers := triggeredTimers q @ [t]\<rparr>
        else if noOwner then q\<lparr>timers := (timers q)(t := None)\<rparr> else q))))"

text \<open>
  The outer loop, at most \<open>n\<close> rounds. \<^verbatim>\<open>activeTimers.begin()\<close> of an empty map is the end iterator;
  reading or erasing through it is undefined.
\<close>

fun expire ::
  "('cb \<Rightarrow> ('cb, 'z) timer_queue_scheme \<Rightarrow> ('cb, 'z) timer_queue_scheme outcome) \<Rightarrow> u64 \<Rightarrow> nat \<Rightarrow>
     ('cb, 'z) timer_queue_scheme \<Rightarrow> ('cb, 'z) timer_queue_scheme outcome"
where
  "expire run now n q =
     (case activeTimers q of
        [] \<Rightarrow> Inl UndefinedBehaviour
      | (k, bucket) # _ \<Rightarrow>
          if k \<le> now then
            case n of
              0 \<Rightarrow> Inl NoReturn
            | Suc n' \<Rightarrow>
                and_then (run_bucket run bucket q) (\<lambda>q.
                case activeTimers q of
                  [] \<Rightarrow> Inl UndefinedBehaviour
                | _ # m \<Rightarrow>
                    let q = q\<lparr>activeTimers := m\<rparr> in
                    if m = [] then Inr q else expire run now n' q)
          else Inr q)"

declare expire.simps [simp del]

fun readd ::
  "(nat \<Rightarrow> u64) \<Rightarrow> u64 \<Rightarrow> u64 \<Rightarrow> timer_ptr list \<Rightarrow> ('cb, 'z) timer_queue_scheme \<Rightarrow>
     (u64 \<times> ('cb, 'z) timer_queue_scheme) outcome"
where
  "readd clk now earliest [] q = Inr (earliest, q)"
| "readd clk now earliest (t # ts) q =
     and_then (deref_timer q t) (\<lambda>tm.
     let tm' = addPeriod now tm in
     and_then (addTimer clk t (q\<lparr>timers := (timers q)(t \<mapsto> tm')\<rparr>)) (\<lambda>q.
     readd clk now (min earliest (triggerTime tm')) ts q))"

definition reset_queue ::
  "(nat \<Rightarrow> u64) \<Rightarrow> u64 \<Rightarrow> ('cb, 'z) timer_queue_scheme \<Rightarrow> ('cb, 'z) timer_queue_scheme outcome"
where
  "reset_queue clk now q =
     and_then (readd clk now 0xffffffffffffffff (triggeredTimers q) q) (\<lambda>(earliest, q).
     Inr (if earliest \<noteq> 0 then updateFd clk earliest q else q))"

definition handle_timers ::
  "('cb \<Rightarrow> ('cb, 'z) timer_queue_scheme \<Rightarrow> ('cb, 'z) timer_queue_scheme outcome) \<Rightarrow> (nat \<Rightarrow> u64) \<Rightarrow> nat \<Rightarrow>
     ('cb, 'z) timer_queue_scheme \<Rightarrow> ('cb, 'z) timer_queue_scheme outcome"
where
  "handle_timers run clk n q =
     (let now = clk (ticks q) in
      and_then (expire run now n (q\<lparr>triggeredTimers := [], ticks := Suc (ticks q)\<rparr>))
        (reset_queue clk now))"

subsection \<open>Key-ordered lists\<close>

definition keys_sorted :: "(u64 \<times> 'v) list \<Rightarrow> bool" where
  "keys_sorted m \<longleftrightarrow> sorted_wrt (<) (map fst m)"

lemma set_map_put: "k \<notin> fst ` set m \<Longrightarrow> set (map_put k v m) = insert (k, v) (set m)"
  by (induction k v m rule: map_put.induct) (auto split: if_splits)

lemma keys_map_put: "fst ` set (map_put k v m) = insert k (fst ` set m)"
  by (induction k v m rule: map_put.induct) (simp_all add: insert_commute)

lemma keys_sorted_map_put: "keys_sorted m \<Longrightarrow> keys_sorted (map_put k v m)"
proof (induction m)
  case (Cons e m)
  have "\<forall>x \<in> fst ` set (map_put k v m). fst e < x" if "fst e < k"
    using Cons.prems that by (auto simp: keys_sorted_def keys_map_put)
  with Cons show ?case
    by (cases e) (auto simp: keys_sorted_def)
qed (simp add: keys_sorted_def)

lemma keys_sorted_distinct: "keys_sorted m \<Longrightarrow> distinct (map fst m)"
  by (auto simp: keys_sorted_def dest: strict_sorted_imp_sorted intro: strict_sorted_iff [THEN iffD1, THEN conjunct2])

lemma keys_sorted_filter: "keys_sorted m \<Longrightarrow> keys_sorted (filter P m)"
  by (auto simp: keys_sorted_def sorted_wrt_map intro: sorted_wrt_filter)

lemma keys_sorted_Cons:
  "keys_sorted (e # m) \<longleftrightarrow> (\<forall>e' \<in> set m. fst e < fst e') \<and> keys_sorted m"
  by (auto simp: keys_sorted_def)

lemma hd_map_put_le:
  "keys_sorted m \<Longrightarrow> k \<notin> fst ` set m \<Longrightarrow>
     k \<le> fst (hd (map_put k v m)) \<longleftrightarrow> (\<forall>k' \<in> fst ` set m. k < k')"
proof (cases m)
  case (Cons e m')
  assume m: "keys_sorted m" "k \<notin> fst ` set m"
  with Cons have "k \<noteq> fst e" "\<forall>e' \<in> set m'. fst e < fst e'" by (auto simp: keys_sorted_Cons)
  then show ?thesis using Cons by (cases e) (auto dest: less_trans)
qed simp

subsection \<open>Well-formed timer queues\<close>

text \<open>Every bucket holds exactly one timer, whose trigger time is the key.\<close>

definition entry_ok :: "('cb, 'z) timer_queue_scheme \<Rightarrow> u64 \<times> (timer_ptr \<times> bool) list \<Rightarrow> bool" where
  "entry_ok q e \<longleftrightarrow> (\<exists>t tm. snd e = [(t, False)] \<and> timers q t = Some tm \<and> triggerTime tm = fst e)"

definition wf_timers :: "('cb, 'z) timer_queue_scheme \<Rightarrow> bool" where
  "wf_timers q \<longleftrightarrow> keys_sorted (activeTimers q) \<and> (\<forall>e \<in> set (activeTimers q). entry_ok q e)
     \<and> (\<forall>t. timers q t \<noteq> None \<longrightarrow> t < next_timer q)"

definition active :: "('cb, 'z) timer_queue_scheme \<Rightarrow> timer_ptr set" where
  "active q = {t. \<exists>e \<in> set (activeTimers q). t \<in> fst ` set (snd e)}"

definition trigger_times :: "('cb, 'z) timer_queue_scheme \<Rightarrow> u64 set" where
  "trigger_times q = fst ` set (activeTimers q)"

lemma TimerQueue_wf: "wf_timers TimerQueue"
  by (simp add: wf_timers_def TimerQueue_def keys_sorted_def)

lemma deref_timer_Some [simp]: "timers q t = Some tm \<Longrightarrow> deref_timer q t = Inr tm"
  by (simp add: deref_timer_def)

text \<open>Adding a timer that is not active: entered and, if it is now the first, armed; with the trigger
  time of another timer it is not entered at all.\<close>

definition added :: "(nat \<Rightarrow> u64) \<Rightarrow> timer_ptr \<Rightarrow> u64 \<Rightarrow> ('cb, 'z) timer_queue_scheme \<Rightarrow> ('cb, 'z) timer_queue_scheme" where
  "added clk t k q =
     (if k \<in> trigger_times q then q
      else let q' = q\<lparr>activeTimers := map_put k [(t, False)] (activeTimers q)\<rparr> in
           if \<forall>k' \<in> trigger_times q. k < k' then updateFd clk k q' else q')"

lemma addTimer_added:
  assumes wf: "wf_timers q" and "in_loop q" and t: "timers q t = Some tm" "t \<notin> active q"
  shows "addTimer clk t q = Inr (added clk t (triggerTime tm) q)"
proof (cases "triggerTime tm \<in> trigger_times q")
  case True
  then obtain b where b: "map_of (activeTimers q) (triggerTime tm) = Some b"
    by (cases "map_of (activeTimers q) (triggerTime tm)") (auto simp: trigger_times_def map_of_eq_None_iff)
  then have mem: "(triggerTime tm, b) \<in> set (activeTimers q)" by (rule map_of_SomeD)
  with t(2) have "t \<notin> fst ` set b" by (force simp: active_def)
  moreover have "\<not> fst (hd (activeTimers q)) > triggerTime tm"
    using wf mem by (cases "activeTimers q") (auto simp: wf_timers_def keys_sorted_Cons)
  ultimately show ?thesis
    using True assms(2) t b by (simp add: addTimer_def addTimerInLoop_def insert_timer_def Let_def added_def)
next
  case False
  then have "map_of (activeTimers q) (triggerTime tm) = None" by (simp add: trigger_times_def map_of_eq_None_iff)
  moreover have "triggerTime tm \<le> fst (hd (map_put (triggerTime tm) [(t, False)] (activeTimers q)))
      \<longleftrightarrow> (\<forall>k' \<in> trigger_times q. triggerTime tm < k')"
    unfolding trigger_times_def
    by (rule hd_map_put_le) (use wf False in \<open>simp_all add: wf_timers_def trigger_times_def\<close>)
  ultimately show ?thesis
    using False assms(2) t by (simp add: addTimer_def addTimerInLoop_def insert_timer_def Let_def added_def)
qed

lemma added_fields [simp]:
  "timers (added clk t k q) = timers q" "next_timer (added clk t k q) = next_timer q"
  "in_loop (added clk t k q) = in_loop q" "triggeredTimers (added clk t k q) = triggeredTimers q"
  "timer_queue.more (added clk t k q) = timer_queue.more q"
  "activeTimers (added clk t k q) = (if k \<in> trigger_times q then activeTimers q
     else map_put k [(t, False)] (activeTimers q))"
  by (simp_all add: added_def Let_def updateFd_def)

lemma added_wf:
  assumes wf: "wf_timers q" and t: "timers q t = Some tm"
  shows "wf_timers (added clk t (triggerTime tm) q)"
    and "active (added clk t (triggerTime tm) q) \<subseteq> insert t (active q)"
proof -
  have "set (activeTimers (added clk t (triggerTime tm) q)) \<subseteq>
      insert (triggerTime tm, [(t, False)]) (set (activeTimers q))"
    by (auto simp: trigger_times_def set_map_put)
  note sub = this
  show "active (added clk t (triggerTime tm) q) \<subseteq> insert t (active q)"
    using sub unfolding active_def by fastforce
  show "wf_timers (added clk t (triggerTime tm) q)"
    using wf t subsetD [OF sub] by (fastforce simp: wf_timers_def entry_ok_def keys_sorted_map_put)
qed

subsection \<open>Expiry with callbacks that leave the timer queue alone\<close>

text \<open>The callbacks act on the rest of the program, the part \<open>more\<close> of the state.\<close>

definition outside ::
  "('cb \<Rightarrow> 'z \<Rightarrow> 'z) \<Rightarrow> 'cb \<Rightarrow> ('cb, 'z) timer_queue_scheme \<Rightarrow> ('cb, 'z) timer_queue_scheme outcome"
where
  "outside f cb q = Inr (q\<lparr>timer_queue.more := f cb (timer_queue.more q)\<rparr>)"

definition timer_at :: "('cb, 'z) timer_queue_scheme \<Rightarrow> u64 \<times> (timer_ptr \<times> bool) list \<Rightarrow> 'cb timer" where
  "timer_at q e = the (timers q (fst (hd (snd e))))"

definition due :: "u64 \<Rightarrow> ('cb, 'z) timer_queue_scheme \<Rightarrow> (u64 \<times> (timer_ptr \<times> bool) list) list" where
  "due now q = filter (\<lambda>e. fst e \<le> now) (activeTimers q)"

definition not_due :: "u64 \<Rightarrow> ('cb, 'z) timer_queue_scheme \<Rightarrow> (u64 \<times> (timer_ptr \<times> bool) list) list" where
  "not_due now q = filter (\<lambda>e. now < fst e) (activeTimers q)"

definition due_callbacks :: "u64 \<Rightarrow> ('cb, 'z) timer_queue_scheme \<Rightarrow> 'cb list" where
  "due_callbacks now q = map (\<lambda>e. timer_cb (timer_at q e)) (due now q)"

definition due_repeating :: "u64 \<Rightarrow> ('cb, 'z) timer_queue_scheme \<Rightarrow> timer_ptr list" where
  "due_repeating now q = map (\<lambda>e. fst (hd (snd e))) (filter (\<lambda>e. repeat (timer_at q e)) (due now q))"

lemma more_last:
  "q\<lparr>timer_queue.more := z\<rparr>\<lparr>activeTimers := m\<rparr> = q\<lparr>activeTimers := m\<rparr>\<lparr>timer_queue.more := z\<rparr>"
  "q\<lparr>timer_queue.more := z\<rparr>\<lparr>triggeredTimers := ts\<rparr> = q\<lparr>triggeredTimers := ts\<rparr>\<lparr>timer_queue.more := z\<rparr>"
  "q\<lparr>triggeredTimers := ts\<rparr>\<lparr>activeTimers := m\<rparr> = q\<lparr>activeTimers := m\<rparr>\<lparr>triggeredTimers := ts\<rparr>"
  by (cases q; simp)+

lemma not_due_first:
  "keys_sorted (e # m) \<Longrightarrow> now < fst e \<Longrightarrow>
     filter (\<lambda>e. fst e \<le> now) (e # m) = [] \<and> filter (\<lambda>e. now < fst e) (e # m) = e # m"
  by (auto simp: keys_sorted_Cons filter_empty_conv filter_id_conv)

lemma expire_outside:
  assumes "wf_timers q" and "activeTimers q \<noteq> []" and "length (activeTimers q) \<le> n"
  shows "expire (outside f) now n q = Inr (q\<lparr>activeTimers := not_due now q,
      triggeredTimers := triggeredTimers q @ due_repeating now q,
      timer_queue.more := fold f (due_callbacks now q) (timer_queue.more q)\<rparr>)"
  using assms
proof (induction "activeTimers q" arbitrary: q n)
  case Nil
  then show ?case by simp
next
  case (Cons e m)
  have am: "activeTimers q = e # m" using Cons(2) by simp
  obtain t tm where e: "snd e = [(t, False)]" "timers q t = Some tm" "triggerTime tm = fst e"
    using Cons.prems(1) am by (auto simp: wf_timers_def entry_ok_def)
  have at: "timer_at q e = tm" using e by (simp add: timer_at_def)
  have ks: "keys_sorted (e # m)" using Cons.prems(1) am by (simp add: wf_timers_def)
  obtain n' where n: "n = Suc n'" "length m \<le> n'" using Cons.prems(3) am by (cases n) auto
  show ?case
  proof (cases "fst e \<le> now")
    case False
    with not_due_first [OF ks, of now] have "due now q = []" "not_due now q = activeTimers q"
      by (simp_all add: due_def not_due_def am)
    with False am show ?thesis
      by (cases e) (simp add: expire.simps [of "outside f"] due_callbacks_def due_repeating_def)
  next
    case True
    define q1 where "q1 = q\<lparr>activeTimers := m, triggeredTimers := triggeredTimers q @ (if repeat tm then [t] else []),
      timer_queue.more := f (timer_cb tm) (timer_queue.more q)\<rparr>"
    have step: "expire (outside f) now n q = (if m = [] then Inr q1 else expire (outside f) now n' q1)"
      using True am e by (cases e) (simp add: expire.simps [of "outside f" now "Suc n'"] n(1) outside_def q1_def Let_def more_last)
    have at1: "timer_at q1 = timer_at q" by (simp add: timer_at_def q1_def fun_eq_iff)
    have d: "due now q = e # due now q1" "not_due now q = not_due now q1"
      using True by (simp_all add: due_def not_due_def am q1_def)
    then have "due_callbacks now q = timer_cb tm # due_callbacks now q1"
      "due_repeating now q = (if repeat tm then [t] else []) @ due_repeating now q1"
      using e(1) at at1 by (simp_all add: due_callbacks_def due_repeating_def)
    moreover have "expire (outside f) now n q = Inr (q1\<lparr>activeTimers := not_due now q1,
      triggeredTimers := triggeredTimers q1 @ due_repeating now q1,
      timer_queue.more := fold f (due_callbacks now q1) (timer_queue.more q1)\<rparr>)"
    proof (cases "m = []")
      case True
      then show ?thesis
        by (simp add: step q1_def not_due_def due_repeating_def due_callbacks_def due_def)
    next
      case False
      have "wf_timers q1"
        using Cons.prems(1) ks am by (auto simp: wf_timers_def entry_ok_def q1_def keys_sorted_Cons)
      with False n(2) Cons.hyps(1) [of q1 n'] show ?thesis by (simp add: step) (simp add: q1_def more_last)
    qed
    ultimately show ?thesis using d(2) by (simp add: q1_def more_last)
  qed
qed

subsection \<open>Entering repeating timers again\<close>

definition next_trigger :: "u64 \<Rightarrow> ('cb, 'z) timer_queue_scheme \<Rightarrow> timer_ptr \<Rightarrow> u64" where
  "next_trigger now q t = repeat_us (the (timers q t)) + now"

lemma trigger_times_added [simp]: "trigger_times (added clk t k q) = insert k (trigger_times q)"
  by (auto simp: trigger_times_def keys_map_put)

lemma readd_ok:
  assumes "wf_timers q" and "in_loop q" and "distinct ts"
    and "\<And>t. t \<in> set ts \<Longrightarrow> t \<notin> active q \<and> (\<exists>tm. timers q t = Some tm \<and> repeat tm)"
  shows "\<exists>q'. readd clk now e ts q = Inr (foldl min e (map (next_trigger now q) ts), q') \<and> wf_timers q'
    \<and> timer_queue.more q' = timer_queue.more q
    \<and> trigger_times q' = trigger_times q \<union> next_trigger now q ` set ts
    \<and> (ts = [] \<longrightarrow> q' = q)"
  using assms
proof (induction ts arbitrary: q e)
  case Nil
  then show ?case by simp
next
  case (Cons t ts)
  obtain tm where tm: "timers q t = Some tm" "repeat tm" "t \<notin> active q" using Cons.prems(4) [of t] by auto
  define q0 where "q0 = q\<lparr>timers := (timers q)(t \<mapsto> addPeriod now tm)\<rparr>"
  define k where "k = next_trigger now q t"
  have k: "triggerTime (addPeriod now tm) = k" using tm by (simp add: addPeriod_def addTime_def k_def next_trigger_def)
  have ne: "snd e' \<noteq> [(t, False)]" if "e' \<in> set (activeTimers q)" for e'
    using tm(3) that by (force simp: active_def)
  have "entry_ok q0 e'" if "e' \<in> set (activeTimers q)" for e'
    using Cons.prems(1) ne [OF that] that by (fastforce simp: wf_timers_def entry_ok_def q0_def)
  then have wf0: "wf_timers q0" using Cons.prems(1) tm(1) by (auto simp: wf_timers_def q0_def)
  have a0: "active q0 = active q" "trigger_times q0 = trigger_times q" "in_loop q0 = in_loop q"
      "timer_queue.more q0 = timer_queue.more q" "timers q0 t = Some (addPeriod now tm)"
    by (simp_all add: active_def trigger_times_def q0_def)
  define q1 where "q1 = added clk t k q0"
  have add: "addTimer clk t q0 = Inr q1"
    using addTimer_added [OF wf0, of t "addPeriod now tm" clk] a0 Cons.prems(2) tm(3) k by (simp add: q1_def)
  have wf1: "wf_timers q1" "active q1 \<subseteq> insert t (active q)"
    using added_wf [OF wf0 a0(5), of clk] k a0(1) by (simp_all add: q1_def)
  have other: "timers q1 t' = timers q t'" if "t' \<noteq> t" for t'
    using that by (simp add: q1_def q0_def)
  have ts: "t' \<notin> active q1 \<and> (\<exists>tm. timers q1 t' = Some tm \<and> repeat tm)" if "t' \<in> set ts" for t'
    using Cons.prems(3) Cons.prems(4) [of t'] that wf1(2) other [of t'] by (cases "t' = t") auto
  have nt: "map (next_trigger now q1) ts = map (next_trigger now q) ts"
    using Cons.prems(3) other by (auto simp: next_trigger_def) (metis other)
  have img: "next_trigger now q1 ` set ts = next_trigger now q ` set ts"
    using arg_cong [OF nt, of set] by simp
  have loop1: "in_loop q1" and dist: "distinct ts"
    using Cons.prems(2,3) a0(3) by (simp_all add: q1_def)
  obtain q' where q': "readd clk now (min e k) ts q1 = Inr (foldl min (min e k) (map (next_trigger now q) ts), q')"
      "wf_timers q'" "timer_queue.more q' = timer_queue.more q1"
      "trigger_times q' = trigger_times q1 \<union> next_trigger now q ` set ts"
    using Cons.IH [OF wf1(1) loop1 dist ts, of "min e k"] unfolding nt img by blast
  have "readd clk now e (t # ts) q = Inr (foldl min e (map (next_trigger now q) (t # ts)), q')"
    using q'(1) add tm(1) k by (simp add: Let_def q0_def k_def)
  with q'(2-4) a0 show ?case by (auto simp: q1_def k_def)
qed

lemma due_repeating_ok:
  assumes "wf_timers q" and "t \<in> set (due_repeating now q)"
  shows "\<exists>e tm. e \<in> set (activeTimers q) \<and> fst e \<le> now \<and> snd e = [(t, False)] \<and> timers q t = Some tm
    \<and> triggerTime tm = fst e \<and> repeat tm"
  using assms by (fastforce simp: due_repeating_def due_def wf_timers_def entry_ok_def timer_at_def)

lemma due_repeating_distinct:
  assumes "wf_timers q"
  shows "distinct (due_repeating now q)"
proof -
  have "distinct (map fst (activeTimers q))" using assms by (auto simp: wf_timers_def intro: keys_sorted_distinct)
  then have d: "distinct (activeTimers q)" by (simp add: distinct_map)
  have "inj_on (\<lambda>e. fst (hd (snd e))) (set (activeTimers q))"
  proof (rule inj_onI)
    fix e e' assume e: "e \<in> set (activeTimers q)" "e' \<in> set (activeTimers q)" "fst (hd (snd e)) = fst (hd (snd e'))"
    then have "entry_ok q e" "entry_ok q e'" using assms by (auto simp: wf_timers_def)
    with e(3) have "fst e = fst e'" "snd e = snd e'" by (auto simp: entry_ok_def)
    then show "e = e'" by (rule prod_eqI)
  qed
  then show ?thesis
    using d by (auto simp: due_repeating_def due_def distinct_map intro: inj_on_subset)
qed

subsection \<open>Properties\<close>

lemma due_repeating_free:
  assumes wf: "wf_timers q" and t: "t \<in> set (due_repeating now q)"
    and q1: "activeTimers q1 = not_due now q" "timers q1 = timers q"
  shows "t \<notin> active q1 \<and> (\<exists>tm. timers q1 t = Some tm \<and> repeat tm)"
proof -
  obtain e tm where e: "e \<in> set (activeTimers q)" "fst e \<le> now" "snd e = [(t, False)]" "timers q t = Some tm"
      "triggerTime tm = fst e" "repeat tm"
    using due_repeating_ok [OF wf t] by blast
  have "t \<notin> active q1"
  proof
    assume "t \<in> active q1"
    then obtain e' where e': "e' \<in> set (activeTimers q)" "now < fst e'" "t \<in> fst ` set (snd e')"
      unfolding active_def q1 not_due_def by force
    then have "fst e' = triggerTime tm" using wf e(4) by (fastforce simp: wf_timers_def entry_ok_def)
    with e'(2) e(2,5) show False by simp
  qed
  with e(4,6) q1(2) show ?thesis by simp
qed


text \<open>The callbacks of the witnesses: they append their name to the rest of the state.\<close>

definition say :: "string \<Rightarrow> string list \<Rightarrow> string list" where
  "say s log = log @ [s]"

definition demo_queue :: "(string, string list) timer_queue_scheme" where
  "demo_queue = timer_queue.extend TimerQueue [] \<lparr>timers := [0 \<mapsto> \<lparr>triggerTime = 5, timer_cb = ''late'', repeat_us = 0, repeat = False\<rparr>,
       1 \<mapsto> \<lparr>triggerTime = 3, timer_cb = ''every'', repeat_us = 1000, repeat = True\<rparr>,
       2 \<mapsto> \<lparr>triggerTime = 900, timer_cb = ''later'', repeat_us = 0, repeat = False\<rparr>],
     next_timer := 3, activeTimers := [(3, [(1, False)]), (5, [(0, False)]), (900, [(2, False)])]\<rparr>"

lemma demo_queue_wf: "wf_timers demo_queue" "in_loop demo_queue" "timer_queue.more demo_queue = []"
  by (auto simp: wf_timers_def demo_queue_def entry_ok_def keys_sorted_def timer_queue.defs TimerQueue_def)


text \<open>Entering a new timer. With a trigger time no other timer has, it gets its own entry in key
  order, and the descriptor is armed for it exactly when it comes before all others; the other
  entries stay. With the trigger time of an active timer it is dropped: no entry is made and the
  descriptor is not touched.\<close>

theorem addTimer_new_spec:
  assumes wf: "wf_timers q" and loop: "in_loop q"
  shows "\<exists>q'. addTimer_new clk k cb circle q = Inr (next_timer q, q') \<and> wf_timers q'
    \<and> set (activeTimers q') = (if k \<in> trigger_times q then set (activeTimers q)
        else insert (k, [(next_timer q, False)]) (set (activeTimers q)))
    \<and> armed q' = (if \<forall>k' \<in> trigger_times q. k < k' then Some (periodFromNow (clk (ticks q)) k) else armed q)"
proof -
  define t where "t = next_timer q"
  define tm where "tm = \<lparr>triggerTime = k, timer_cb = cb, repeat_us = fst circle, repeat = snd circle\<rparr>"
  define q0 where "q0 = q\<lparr>timers := (timers q)(t \<mapsto> tm), next_timer := Suc t\<rparr>"
  have fresh: "timers q t = None" using wf by (auto simp: wf_timers_def t_def)
  have ok0: "entry_ok q0 e" if "e \<in> set (activeTimers q)" for e
    using that wf fresh by (fastforce simp: wf_timers_def entry_ok_def q0_def)
  have wf0: "wf_timers q0"
    using wf ok0 by (auto simp: wf_timers_def q0_def t_def less_Suc_eq)
  have inact: "t \<notin> active q0"
    using wf fresh by (fastforce simp: active_def wf_timers_def entry_ok_def q0_def)
  have tm0: "timers q0 t = Some tm" by (simp add: q0_def)
  have "addTimer clk t q0 = Inr (added clk t k q0)"
    using addTimer_added [OF wf0 _ tm0 inact] loop by (simp add: q0_def tm_def)
  then have a: "addTimer_new clk k cb circle q = Inr (t, added clk t k q0)"
    by (simp add: addTimer_new_def Let_def t_def q0_def tm_def)
  have tt: "trigger_times q0 = trigger_times q" by (simp add: trigger_times_def q0_def)
  have wf': "wf_timers (added clk t k q0)" using added_wf(1) [OF wf0 tm0, of clk] by (simp add: tm_def)
  have "set (activeTimers (added clk t k q0)) = (if k \<in> trigger_times q then set (activeTimers q)
      else insert (k, [(t, False)]) (set (activeTimers q)))"
    using tt by (auto simp: q0_def trigger_times_def set_map_put)
  moreover have "armed (added clk t k q0) =
      (if \<forall>k' \<in> trigger_times q. k < k' then Some (periodFromNow (clk (ticks q)) k) else armed q)"
    using tt by (auto simp: added_def Let_def updateFd_def q0_def)
  ultimately show ?thesis
    using a wf' unfolding t_def by (intro exI [of _ "added clk (next_timer q) k q0"]) simp
qed

theorem addTimer_new_spec_witness:
  "\<exists>q'. addTimer_new (\<lambda>_. 0) 5 ''second'' (0, False) demo_queue = Inr (3, q')
    \<and> set (activeTimers q') = {(3, [(1, False)]), (5, [(0, False)]), (900, [(2, False)])}"
proof -
  have "5 \<in> trigger_times demo_queue" by (simp add: trigger_times_def demo_queue_def)
  with addTimer_new_spec [OF demo_queue_wf(1,2), of "\<lambda>_. 0" 5 "''second''" "(0, False)"]
  show ?thesis by (auto simp: demo_queue_def)
qed

text \<open>After an expiry that ran no repeating timer the descriptor is armed for the largest
  64-bit time, whatever timers are still pending.\<close>

theorem one_shot_expiry_disarms:
  assumes wf: "wf_timers q" and some: "activeTimers q \<noteq> []"
    and n: "length (activeTimers q) \<le> n" and none: "due_repeating (clk (ticks q)) q = []"
  shows "\<exists>q'. handle_timers (outside f) clk n q = Inr q'
    \<and> activeTimers q' = not_due (clk (ticks q)) q
    \<and> armed q' = Some (periodFromNow (clk (Suc (ticks q))) 0xffffffffffffffff)"
proof -
  define now where "now = clk (ticks q)"
  define q0 where "q0 = q\<lparr>triggeredTimers := [], ticks := Suc (ticks q)\<rparr>"
  have q0: "wf_timers q0" using wf by (auto simp: q0_def wf_timers_def entry_ok_def)
  have same: "due_repeating now q0 = []" "not_due now q0 = not_due now q"
    using none by (simp_all add: due_repeating_def not_due_def due_def timer_at_def q0_def now_def)
  have "expire (outside f) now n q0 = Inr (q0\<lparr>activeTimers := not_due now q,
      timer_queue.more := fold f (due_callbacks now q0) (timer_queue.more q0)\<rparr>)"
    using expire_outside [OF q0, of n f now] some n same by (simp add: q0_def)
  then show ?thesis
    by (simp add: handle_timers_def Let_def reset_queue_def updateFd_def q0_def now_def)
qed

theorem one_shot_expiry_disarms_witness:
  "\<exists>q'. handle_timers (outside say) (\<lambda>_. 4) 3 (demo_queue\<lparr>activeTimers := [(5, [(0, False)]), (900, [(2, False)])]\<rparr>) = Inr q'
    \<and> activeTimers q' = [(5, [(0, False)]), (900, [(2, False)])]
    \<and> armed q' = Some (periodFromNow 4 0xffffffffffffffff)"
proof -
  let ?q = "demo_queue\<lparr>activeTimers := [(5, [(0, False)]), (900, [(2, False)])]\<rparr>"
  have "wf_timers ?q" by (auto simp: wf_timers_def demo_queue_def entry_ok_def keys_sorted_def)
  moreover have "due_repeating 4 ?q = []" "not_due 4 ?q = [(5, [(0, False)]), (900, [(2, False)])]"
    by (simp_all add: due_repeating_def due_def not_due_def)
  ultimately show ?thesis using one_shot_expiry_disarms [of ?q 3 "\<lambda>_. 4" say] by simp
qed

text \<open>The time span handed to \<^verbatim>\<open>timerfd_settime\<close> is valid and exact: the nanoseconds are below one
  second, and together they are the time from now to the trigger time, but at least 100
  microseconds.\<close>

theorem periodFromNow_exact:
  "unat (tv_nsec (periodFromNow t k)) < 1000000000
   \<and> unat (tv_sec (periodFromNow t k)) * 1000000000 + unat (tv_nsec (periodFromNow t k))
      = 1000 * max 100 (unat k - unat t)"
proof -
  define p where "p = unat (period_from t k)"
  have p: "p = max 100 (unat k - unat t)"
  proof (cases "t < k")
    case True
    then have "unat (k - t) = unat k - unat t" by (intro unat_sub) simp
    moreover have "k - t < 100 \<longleftrightarrow> unat (k - t) < 100" by (simp add: word_less_nat_alt)
    ultimately show ?thesis using True by (simp add: p_def period_from_def Let_def max_def)
  next
    case False
    then have "unat k \<le> unat t" by (simp add: word_less_nat_alt)
    with False show ?thesis by (simp add: p_def period_from_def Let_def max_def)
  qed
  have s: "unat (tv_sec (periodFromNow t k)) = p div 1000000"
    by (simp add: periodFromNow_def Let_def p_def unat_div_distrib)
  have "p mod 1000000 * 1000 < 1000000000" by simp
  then have n: "unat (tv_nsec (periodFromNow t k)) = p mod 1000000 * 1000"
    by (simp add: periodFromNow_def Let_def p_def unat_word_ariths(2) unat_mod_distrib)
  have "p div 1000000 * 1000000 + p mod 1000000 = p" by (rule div_mult_mod_eq)
  then have "p div 1000000 * 1000000000 + p mod 1000000 * 1000 = 1000 * p" by linarith
  with s n p show ?thesis by simp
qed

end
