(* ===== verification/Tcp_State.thy ===== *)
theory Tcp_State
  imports Net_Prelude
begin

unbundle bit_operations_syntax

text \<open>
  The state word of a connection (\<^verbatim>\<open>state_\<close> in \<^verbatim>\<open>src/src/TcpConnection.{h,cpp}\<close>): six flag bits and,
  above them, the number of sends admitted and not yet finished. Any number of threads run the
  gates of \<^verbatim>\<open>send\<close>, \<^verbatim>\<open>set_unused\<close> and \<^verbatim>\<open>shutdown\<close> against the loop thread, which finishes the sends
  and handles hang-ups. One step is one access to the word. A futex wait blocks while the word has
  the awaited value, or returns early (\<open>spur\<close>). \<^verbatim>\<open>kw_unlikely(old_state & Disconnected)\<close> expands to
  \<^verbatim>\<open>!!old_state & Disconnected\<close>, which is 0 for every state, so these tests are not in the model.
  \<^verbatim>\<open>forceCloseWithDelay\<close>, which stores the word without synchronisation, is in \<open>Tcp_Connection\<close>.
\<close>

subsection \<open>Flags\<close>

definition Connecting :: u64 where "Connecting = 1"
definition Disconnecting :: u64 where "Disconnecting = 2"
definition Disconnected :: u64 where "Disconnected = 4"
definition Connected :: u64 where "Connected = 8"
definition used :: u64 where "used = 16"
definition writing :: u64 where "writing = 32"

definition senders_offset :: nat where "senders_offset = 6"

definition one_sender :: u64 where "one_sender = 64"

lemmas state_flags [flag_simps] = Connecting_def Disconnecting_def Disconnected_def Connected_def
  used_def writing_def one_sender_def senders_offset_def

subsection \<open>The gate of send\<close>

datatype sender_pc =
    SLoad
  | SWait
  | SLoad2
  | SLoop u64
  | SCasAdd u64
  | SCasWriting u64
  | SReload
  | SCasInc u64
  | SReturned bool

text \<open>\<^verbatim>\<open>SReturned True\<close>: the message goes on to \<^verbatim>\<open>sendInLoop\<close>; \<^verbatim>\<open>SReturned False\<close>: the call ends here.\<close>

fun sender_step :: "bool \<Rightarrow> u64 \<Rightarrow> sender_pc \<Rightarrow> u64 \<times> sender_pc" where
  "sender_step spur st SLoad = (st, if has_flag st Connecting then SWait else SLoop st)"
| "sender_step spur st SWait = (st, if futex_blocks st Connecting \<and> \<not> spur then SWait else SLoad2)"
| "sender_step spur st SLoad2 = (st, SLoop st)"
| "sender_step spur st (SLoop old) =
     (st, if \<not> has_flag old used then SReturned False
          else if has_flag old writing then SCasAdd old else SCasWriting old)"
| "sender_step spur st (SCasAdd old) =
     (if st = old then (old + one_sender, SReturned True) else (st, SLoop st))"
| "sender_step spur st (SCasWriting old) =
     (if st = old then (old OR writing, SCasInc (old OR writing)) else (st, SReload))"
| "sender_step spur st SReload = (st, SLoop st)"
| "sender_step spur st (SCasInc old) =
     (if st = old then (old + one_sender, SReturned True) else (st, SReturned False))"
| "sender_step spur st (SReturned r) = (st, SReturned r)"

subsection \<open>set_unused and shutdown\<close>

datatype unused_pc =
    ULoad
  | UWait
  | ULoad2
  | ULoop u64
  | UWaitWriting u64
  | UCas u64
  | UDone

fun unused_step :: "bool \<Rightarrow> u64 \<Rightarrow> unused_pc \<Rightarrow> u64 \<times> unused_pc" where
  "unused_step spur st ULoad = (st, if has_flag st Connecting then UWait else ULoop st)"
| "unused_step spur st UWait = (st, if futex_blocks st Connecting \<and> \<not> spur then UWait else ULoad2)"
| "unused_step spur st ULoad2 = (st, ULoop st)"
| "unused_step spur st (ULoop old) =
     (st, if \<not> has_flag old used then UDone
          else if has_flag old writing then UWaitWriting old else UCas old)"
| "unused_step spur st (UWaitWriting old) =
     (st, if futex_blocks st old \<and> \<not> spur then UWaitWriting old else ULoad2)"
| "unused_step spur st (UCas old) = (if st = old then (old - used, UDone) else (st, ULoop st))"
| "unused_step spur st UDone = (st, UDone)"

datatype shutdown_pc =
    HLoad
  | HWait
  | HLoad2
  | HLoop u64
  | HWaitLocal u64
  | HCas u64
  | HDone bool

text \<open>\<^verbatim>\<open>futex_wait(&old_state, (Connected | used))\<close> waits on a local variable nobody else writes.\<close>

fun shutdown_step :: "bool \<Rightarrow> u64 \<Rightarrow> shutdown_pc \<Rightarrow> u64 \<times> shutdown_pc" where
  "shutdown_step spur st HLoad = (st, if has_flag st Connecting then HWait else HLoop st)"
| "shutdown_step spur st HWait = (st, if futex_blocks st Connecting \<and> \<not> spur then HWait else HLoad2)"
| "shutdown_step spur st HLoad2 = (st, HLoop st)"
| "shutdown_step spur st (HLoop old) =
     (st, if has_flag old Disconnected then HDone False
          else if has_flag old Disconnecting then HDone False
          else if has_flag old used then HWaitLocal old else HCas old)"
| "shutdown_step spur st (HWaitLocal old) =
     (st, if futex_blocks old (Connected OR used) \<and> \<not> spur then HWaitLocal old else HLoad2)"
| "shutdown_step spur st (HCas old) = (if st = old then (Disconnecting, HDone True) else (st, HLoop st))"
| "shutdown_step spur st (HDone r) = (st, HDone r)"

subsection \<open>The loop thread\<close>

text \<open>
  \<^verbatim>\<open>sendInLoop\<close>: the word is loaded at the start (\<open>LData\<close>, while the data is written), and used after
  the data was written or stored to count the sender down (\<open>LDec\<close>) and, for the last one, to clear
  \<^verbatim>\<open>writing\<close> (\<open>LClear\<close>). A failed compare-and-swap ends the call.
\<close>

datatype loop_pc =
    LIdle
  | LData u64
  | LDec u64
  | LClear u64

fun loop_step :: "u64 \<Rightarrow> loop_pc \<Rightarrow> u64 \<times> loop_pc" where
  "loop_step st LIdle = (st, LData st)"
| "loop_step st (LData old) =
     (st, if \<not> has_flag old used then LIdle else if has_flag old writing then LDec old else LIdle)"
| "loop_step st (LDec old) =
     (if st = old then
        (old - one_sender,
         if drop_bit senders_offset old XOR 1 = 0 then LClear (old XOR one_sender) else LIdle)
      else (st, LIdle))"
| "loop_step st (LClear old) = (if st = old then old XOR writing else st, LIdle)"

text \<open>The state stores of \<^verbatim>\<open>handle_ep_hup\<close> and \<^verbatim>\<open>connectEstablished\<close>.\<close>

definition hup_store :: "u64 \<Rightarrow> u64" where
  "hup_store st = (if has_flag st Disconnected then st else Disconnected)"

definition established_store :: u64 where
  "established_store = Connected OR used"

subsection \<open>All threads\<close>

text \<open>
  \<open>pending\<close> counts the sends admitted by the gate and not yet taken up by the loop thread; the ghost
  \<open>leaked\<close> counts the sends that ended without counting themselves down.
\<close>

record tcp_system =
  st :: u64
  senders :: "nat \<Rightarrow> sender_pc"
  unusers :: "nat \<Rightarrow> unused_pc"
  shutters :: "nat \<Rightarrow> shutdown_pc"
  loop :: loop_pc
  pending :: nat
  leaked :: nat
  established :: bool
  closed :: bool

definition tcp_start :: tcp_system where
  "tcp_start = \<lparr>st = Connecting, senders = (\<lambda>_. SReturned False), unusers = (\<lambda>_. UDone),
     shutters = (\<lambda>_. HDone False), loop = LIdle, pending = 0, leaked = 0, established = False, closed = False\<rparr>"

text \<open>Whether this access admits a send, and whether it ends one without counting it down.\<close>

fun admits :: "u64 \<Rightarrow> sender_pc \<Rightarrow> bool" where
  "admits w (SCasAdd old) \<longleftrightarrow> w = old"
| "admits w (SCasInc old) \<longleftrightarrow> w = old"
| "admits w _ \<longleftrightarrow> False"

fun leaks :: "u64 \<Rightarrow> loop_pc \<Rightarrow> bool" where
  "leaks w (LData old) \<longleftrightarrow> \<not> has_flag old used \<or> \<not> has_flag old writing"
| "leaks w (LDec old) \<longleftrightarrow> w \<noteq> old"
| "leaks w _ \<longleftrightarrow> False"

inductive tcp_step :: "tcp_system \<Rightarrow> tcp_system \<Rightarrow> bool" where
  send_call: "senders s t = SReturned r \<Longrightarrow> tcp_step s (s\<lparr>senders := (senders s)(t := SLoad)\<rparr>)"
| send_access: "sender_step spur (st s) (senders s t) = (w, pc) \<Longrightarrow>
    tcp_step s (s\<lparr>st := w, senders := (senders s)(t := pc),
      pending := pending s + (if admits (st s) (senders s t) then 1 else 0)\<rparr>)"
| unused_call: "unusers s t = UDone \<Longrightarrow> tcp_step s (s\<lparr>unusers := (unusers s)(t := ULoad)\<rparr>)"
| unused_access: "unused_step spur (st s) (unusers s t) = (w, pc) \<Longrightarrow>
    tcp_step s (s\<lparr>st := w, unusers := (unusers s)(t := pc)\<rparr>)"
| shutdown_call: "shutters s t = HDone r \<Longrightarrow> tcp_step s (s\<lparr>shutters := (shutters s)(t := HLoad)\<rparr>)"
| shutdown_access: "shutdown_step spur (st s) (shutters s t) = (w, pc) \<Longrightarrow>
    tcp_step s (s\<lparr>st := w, shutters := (shutters s)(t := pc)\<rparr>)"
| loop_take: "loop s = LIdle \<Longrightarrow> pending s = Suc n \<Longrightarrow> loop_step (st s) LIdle = (w, pc) \<Longrightarrow>
    tcp_step s (s\<lparr>st := w, loop := pc, pending := n\<rparr>)"
| loop_access: "loop s \<noteq> LIdle \<Longrightarrow> loop_step (st s) (loop s) = (w, pc) \<Longrightarrow>
    tcp_step s (s\<lparr>st := w, loop := pc, leaked := leaked s + (if leaks (st s) (loop s) then 1 else 0)\<rparr>)"
| hup: "loop s = LIdle \<Longrightarrow> tcp_step s (s\<lparr>st := hup_store (st s), closed := True\<rparr>)"
| establish: "\<not> established s \<Longrightarrow> \<not> closed s \<Longrightarrow>
    tcp_step s (s\<lparr>st := established_store, established := True\<rparr>)"

definition outstanding :: "tcp_system \<Rightarrow> nat" where
  "outstanding s = pending s + (case loop s of LData _ \<Rightarrow> 1 | LDec _ \<Rightarrow> 1 | _ \<Rightarrow> 0)"

text \<open>Fewer sends than the counter can hold.\<close>

inductive tcp_reachable :: "tcp_system \<Rightarrow> bool" where
  start: "tcp_reachable tcp_start"
| step: "tcp_reachable s \<Longrightarrow> tcp_step s s' \<Longrightarrow> outstanding s' + leaked s' < 2 ^ 57 \<Longrightarrow> tcp_reachable s'"

subsection \<open>The values of the word\<close>

definition pack :: "nat \<Rightarrow> u64" where
  "pack n = word_of_nat (56 + 64 * n)"

lemma has_flag_bit: "has_flag w (2 ^ k) \<longleftrightarrow> bit w k" for w :: u64
  by (simp add: has_flag_def and_exp_eq_0_iff_not_bit)

lemma pack_bit: "n < 2 ^ 57 \<Longrightarrow> k < 6 \<Longrightarrow> bit (pack n) k \<longleftrightarrow> odd ((56 + 64 * n) div 2 ^ k)"
  unfolding pack_def bit_of_nat_iff by (simp add: bit_iff_odd)

lemma pack_flags [simp]:
  assumes "n < 2 ^ 57"
  shows "has_flag (pack n) used" "has_flag (pack n) writing" "\<not> has_flag (pack n) Connecting"
    "\<not> has_flag (pack n) Disconnecting" "\<not> has_flag (pack n) Disconnected"
proof -
  have d: "(56 + 64 * n) div 16 = 3 + 4 * n" "(56 + 64 * n) div 32 = 1 + 2 * n" "(56 + 64 * n) div 2 = 28 + 32 * n"
    "(56 + 64 * n) div 4 = 14 + 16 * n" by presburger+
  show "has_flag (pack n) used" "has_flag (pack n) writing" "\<not> has_flag (pack n) Connecting"
    "\<not> has_flag (pack n) Disconnecting" "\<not> has_flag (pack n) Disconnected"
    using pack_bit [OF assms, of 4] pack_bit [OF assms, of 5] pack_bit [OF assms, of 0] pack_bit [OF assms, of 1]
      pack_bit [OF assms, of 2] has_flag_bit [of "pack n" 4] has_flag_bit [of "pack n" 5] has_flag_bit [of "pack n" 0]
      has_flag_bit [of "pack n" 1] has_flag_bit [of "pack n" 2] d
    by (simp_all add: flag_simps)
qed

lemma unat_pack: "n < 2 ^ 57 \<Longrightarrow> unat (pack n) = 56 + 64 * n"
  unfolding pack_def by (subst unat_of_nat) (simp add: take_bit_nat_eq_self)

lemma pack_inj [simp]: "m < 2 ^ 57 \<Longrightarrow> n < 2 ^ 57 \<Longrightarrow> pack m = pack n \<longleftrightarrow> m = n"
  by (metis unat_pack add_left_cancel mult_cancel1 zero_neq_numeral)

lemma pack_arith [simp]:
  "pack n + one_sender = pack (Suc n)" "pack (Suc n) - one_sender = pack n"
  by (simp_all add: pack_def flag_simps)

lemma xor_is_0: "x XOR y = 0 \<longleftrightarrow> x = y" for x y :: u64
proof
  assume "x XOR y = 0"
  then have "(x XOR y) XOR y = 0 XOR y" by simp
  then show "x = y" unfolding xor.assoc xor_self_eq by simp
qed simp

lemma pack_last:
  assumes "n < 2 ^ 57"
  shows "drop_bit senders_offset (pack n) XOR 1 = 0 \<longleftrightarrow> n = 1"
proof -
  have "unat (drop_bit 6 (pack n)) = drop_bit 6 (unat (pack n))" by (rule unat_drop_bit_eq)
  also have "\<dots> = n" unfolding unat_pack [OF assms] by (simp add: drop_bit_eq_div)
  finally have "unat (drop_bit 6 (pack n)) = n" .
  moreover have "drop_bit 6 (pack n) XOR 1 = 0 \<longleftrightarrow> drop_bit 6 (pack n) = 1"
    using xor_is_0 [of "drop_bit 6 (pack n)"] .
  ultimately show ?thesis by (auto simp: senders_offset_def word_unat_eq_iff)
qed

lemma pack_values: "pack 0 = 56" "pack (Suc 0) = 120"
  by (simp_all add: pack_def)

definition idle_words :: "u64 set" where
  "idle_words = {Connecting, Disconnecting, Connected, Connected OR used}"

definition word_ok :: "u64 \<Rightarrow> bool" where
  "word_ok w \<longleftrightarrow> w \<in> insert Disconnected idle_words \<or> (\<exists>n < 2 ^ 57. w = pack n)"

lemma pack_ne_small:
  assumes "n < 2 ^ 57"
  shows "pack n \<notin> insert Disconnected idle_words"
proof
  assume "pack n \<in> insert Disconnected idle_words"
  then have "unat (pack n) \<le> 24" by (auto simp: idle_words_def flag_simps)
  with unat_pack [OF assms] show False by simp
qed

lemma idle_flags:
  "w \<in> insert Disconnected idle_words \<Longrightarrow> has_flag w used \<Longrightarrow> w = 24"
  "w \<in> insert Disconnected idle_words \<Longrightarrow> \<not> has_flag w writing"
  "w \<in> idle_words \<Longrightarrow> \<not> has_flag w Disconnected"
  "w \<in> insert Disconnected idle_words \<Longrightarrow> \<not> has_flag w used \<Longrightarrow> \<not> has_flag w Disconnected \<Longrightarrow>
     \<not> has_flag w Disconnecting \<Longrightarrow> w = 1 \<or> w = 8"
  by (auto simp: idle_words_def has_flag_def flag_simps)

lemma word_okE:
  assumes "word_ok w"
  obtains "w \<in> insert Disconnected idle_words" | n where "n < 2 ^ 57" "w = pack n"
  using assms by (auto simp: word_ok_def)

subsection \<open>The invariant\<close>

text \<open>What the threads remember of the word.\<close>

fun sender_ok :: "sender_pc \<Rightarrow> bool" where
  "sender_ok (SLoop old) \<longleftrightarrow> word_ok old"
| "sender_ok (SCasAdd old) \<longleftrightarrow> (\<exists>n < 2 ^ 57. old = pack n)"
| "sender_ok (SCasWriting old) \<longleftrightarrow> old = 24"
| "sender_ok (SCasInc old) \<longleftrightarrow> old = pack 0"
| "sender_ok _ \<longleftrightarrow> True"

fun unused_ok :: "unused_pc \<Rightarrow> bool" where
  "unused_ok (ULoop old) \<longleftrightarrow> word_ok old"
| "unused_ok (UCas old) \<longleftrightarrow> old = 24"
| "unused_ok _ \<longleftrightarrow> True"

fun shutdown_ok :: "shutdown_pc \<Rightarrow> bool" where
  "shutdown_ok (HLoop old) \<longleftrightarrow> word_ok old"
| "shutdown_ok (HCas old) \<longleftrightarrow> old = 1 \<or> old = 8"
| "shutdown_ok _ \<longleftrightarrow> True"

fun loop_ok :: "loop_pc \<Rightarrow> bool" where
  "loop_ok (LData old) \<longleftrightarrow> word_ok old"
| "loop_ok (LDec old) \<longleftrightarrow> (\<exists>n < 2 ^ 57. old = pack n)"
| "loop_ok (LClear old) \<longleftrightarrow> old = pack 0"
| "loop_ok LIdle \<longleftrightarrow> True"

text \<open>The word counts the outstanding sends, or no send is outstanding.\<close>

definition counts :: "u64 \<Rightarrow> nat \<Rightarrow> bool \<Rightarrow> bool \<Rightarrow> bool" where
  "counts w n est cls \<longleftrightarrow> (if cls then w = Disconnected
     else w = pack n \<and> n < 2 ^ 57 \<and> est \<or> w \<in> idle_words \<and> n = 0 \<and> (w = 24 \<longrightarrow> est))"

definition tcp_inv :: "tcp_system \<Rightarrow> bool" where
  "tcp_inv s \<longleftrightarrow> counts (st s) (outstanding s + leaked s) (established s) (closed s)
     \<and> (\<forall>t. sender_ok (senders s t)) \<and> (\<forall>t. unused_ok (unusers s t)) \<and> (\<forall>t. shutdown_ok (shutters s t))
     \<and> loop_ok (loop s)"

lemma counts_word_ok: "counts w n est cls \<Longrightarrow> word_ok w"
  by (auto simp: counts_def word_ok_def split: if_splits)

lemma counts_pack:
  assumes "counts (pack k) n est cls" and "k < 2 ^ 57"
  shows "n = k" and "est" and "\<not> cls"
  using assms pack_ne_small [OF assms(2)] by (auto simp: counts_def split: if_splits)

lemma counts_idle:
  assumes "counts w n est cls" and "w \<in> idle_words"
  shows "n = 0" and "\<not> cls" and "w = 24 \<Longrightarrow> est"
  using assms pack_ne_small [of n] idle_flags(3) [OF assms(2)]
  by (auto simp: counts_def has_flag_def flag_simps split: if_splits)

lemma sender_access:
  assumes "counts w n est cls" and "sender_ok pc" and "sender_step spur w pc = (w', pc')"
    and "n + (if admits w pc then 1 else 0) < 2 ^ 57"
  shows "counts w' (n + (if admits w pc then 1 else 0)) est cls \<and> sender_ok pc'"
proof (cases pc)
  case (SLoop old)
  with assms have old: "word_ok old" and r: "w' = w" "pc' = (if \<not> has_flag old used then SReturned False
      else if has_flag old writing then SCasAdd old else SCasWriting old)" by auto
  have "sender_ok pc'"
    using old idle_flags(1,2) [of old] by (auto simp: r(2) elim!: word_okE)
  with SLoop assms(1) r(1) show ?thesis by simp
next
  case (SCasAdd old)
  then obtain k where k: "k < 2 ^ 57" "old = pack k" using assms(2) by auto
  show ?thesis
  proof (cases "w = old")
    case True
    have c: "n = k" est "\<not> cls" using counts_pack [OF assms(1) [unfolded True k(2)] k(1)] .
    have "w' = pack (Suc k)" "pc' = SReturned True" using SCasAdd True assms(3) k(2) by auto
    with True SCasAdd assms(4) c show ?thesis by (simp add: counts_def)
  next
    case False
    with SCasAdd assms(1,3) show ?thesis by (auto simp: counts_word_ok)
  qed
next
  case (SCasWriting old)
  then have old: "old = 24" using assms(2) by simp
  show ?thesis
  proof (cases "w = old")
    case True
    moreover have "24 \<in> idle_words" by (simp add: idle_words_def flag_simps)
    ultimately have c: "n = 0" est "\<not> cls" using counts_idle [OF assms(1)] old by auto
    have "w' = pack 0" "pc' = SCasInc (pack 0)" using SCasWriting True assms(3) old by (auto simp: pack_values flag_simps)
    with SCasWriting c show ?thesis by (simp add: counts_def)
  next
    case False
    with SCasWriting assms(1,3) show ?thesis by auto
  qed
next
  case (SCasInc old)
  then have old: "old = pack 0" using assms(2) by simp
  show ?thesis
  proof (cases "w = old")
    case True
    have c: "n = 0" est "\<not> cls" using counts_pack [OF assms(1) [unfolded True old]] by auto
    have "w' = pack (Suc 0)" "pc' = SReturned True" using SCasInc True assms(3) old by auto
    with True SCasInc c show ?thesis by (simp add: counts_def)
  next
    case False
    with SCasInc assms(1,3) show ?thesis by auto
  qed
qed (use assms in \<open>auto simp: counts_word_ok split: if_splits\<close>)

lemma unused_access_ok:
  assumes "counts w n est cls" and "unused_ok pc" and "unused_step spur w pc = (w', pc')"
  shows "counts w' n est cls \<and> unused_ok pc'"
proof (cases pc)
  case (ULoop old)
  with assms(2) have "word_ok old" by simp
  then have "unused_ok (if \<not> has_flag old used then UDone else if has_flag old writing then UWaitWriting old else UCas old)"
    using idle_flags(1) [of old] by (auto elim!: word_okE)
  with ULoop assms(1,3) show ?thesis by auto
next
  case (UCas old)
  then have old: "old = 24" using assms(2) by simp
  show ?thesis
  proof (cases "w = old")
    case True
    have "24 \<in> idle_words" "8 \<in> idle_words" by (simp_all add: idle_words_def flag_simps)
    with counts_idle [OF assms(1)] True old have "n = 0" "\<not> cls" by auto
    moreover have "w' = 8" "pc' = UDone" using UCas True assms(3) old by (auto simp: flag_simps)
    ultimately show ?thesis using \<open>8 \<in> idle_words\<close> by (simp add: counts_def)
  next
    case False
    with UCas assms(1,3) show ?thesis by (auto simp: counts_word_ok)
  qed
qed (use assms in \<open>auto simp: counts_word_ok split: if_splits\<close>)

lemma shutdown_access_ok:
  assumes "counts w n est cls" and "shutdown_ok pc" and "shutdown_step spur w pc = (w', pc')"
  shows "counts w' n est cls \<and> shutdown_ok pc'"
proof (cases pc)
  case (HLoop old)
  with assms(2) have "word_ok old" by simp
  then have "shutdown_ok (if has_flag old Disconnected then HDone False else if has_flag old Disconnecting then HDone False
      else if has_flag old used then HWaitLocal old else HCas old)"
    using idle_flags(4) [of old] by (auto elim!: word_okE)
  with HLoop assms(1,3) show ?thesis by auto
next
  case (HCas old)
  then have old: "old = 1 \<or> old = 8" using assms(2) by simp
  show ?thesis
  proof (cases "w = old")
    case True
    have i: "old \<in> idle_words" "2 \<in> idle_words" using old by (auto simp: idle_words_def flag_simps)
    with counts_idle [OF assms(1)] True have "n = 0" "\<not> cls" by auto
    moreover have "w' = 2" "pc' = HDone True" using HCas True assms(3) by (auto simp: flag_simps)
    ultimately show ?thesis using i(2) by (simp add: counts_def)
  next
    case False
    with HCas assms(1,3) show ?thesis by (auto simp: counts_word_ok)
  qed
qed (use assms in \<open>auto simp: counts_word_ok split: if_splits\<close>)

text \<open>An access of the loop thread: \<open>b\<close> is the send in progress.\<close>

definition in_progress :: "loop_pc \<Rightarrow> nat" where
  "in_progress pc = (case pc of LData _ \<Rightarrow> 1 | LDec _ \<Rightarrow> 1 | _ \<Rightarrow> 0)"

lemma loop_access_ok:
  assumes "counts w (p + in_progress pc + l) est cls" and "loop_ok pc" and "pc \<noteq> LIdle"
    and "loop_step w pc = (w', pc')"
  shows "counts w' (p + in_progress pc' + (l + (if leaks w pc then 1 else 0))) est cls \<and> loop_ok pc'"
proof (cases pc)
  case (LData old)
  with assms(2) have "word_ok old" by simp
  then have "loop_ok (if \<not> has_flag old used then LIdle else if has_flag old writing then LDec old else LIdle)"
    using idle_flags(2) [of old] by (auto elim!: word_okE)
  with LData assms(1,4) show ?thesis by (auto simp: in_progress_def)
next
  case (LDec old)
  then obtain k where k: "k < 2 ^ 57" "old = pack k" using assms(2) by auto
  show ?thesis
  proof (cases "w = old")
    case True
    have c: "p + in_progress pc + l = k" est "\<not> cls"
      using counts_pack [OF assms(1) [unfolded True k(2)] k(1)] .
    then obtain j where j: "k = Suc j" "p + l = j" using LDec by (auto simp: in_progress_def)
    have w': "w' = pack j" using LDec True assms(4) k(2) j(1) by (auto split: if_splits)
    have pc': "pc' = (if k = 1 then LClear (old XOR one_sender) else LIdle)"
      using LDec True assms(4) pack_last [OF k(1)] k(2) by auto
    have "k = 1 \<Longrightarrow> old XOR one_sender = pack 0" using k(2) by (simp add: pack_values flag_simps)
    with w' pc' c j k(1) LDec True show ?thesis by (auto simp: counts_def in_progress_def)
  next
    case False
    with LDec assms(1,4) show ?thesis by (simp add: in_progress_def)
  qed
next
  case (LClear old)
  then have old: "old = pack 0" using assms(2) by simp
  show ?thesis
  proof (cases "w = old")
    case True
    have c: "p + in_progress pc + l = 0" est "\<not> cls"
      using counts_pack [OF assms(1) [unfolded True old]] by auto
    have "w' = 24" "pc' = LIdle" using LClear True assms(4) old by (auto simp: pack_values flag_simps)
    moreover have "24 \<in> idle_words" by (simp add: idle_words_def flag_simps)
    ultimately show ?thesis using c LClear by (simp add: counts_def in_progress_def)
  next
    case False
    with LClear assms(1,4) show ?thesis by (simp add: in_progress_def)
  qed
qed (use assms(3) in simp)

lemma outstanding_in_progress: "outstanding s = pending s + in_progress (loop s)"
  by (simp add: outstanding_def in_progress_def)

lemma counts_hup: "counts w n est cls \<Longrightarrow> counts (hup_store w) n est True"
  using pack_flags(5) idle_flags(3) by (auto simp: counts_def hup_store_def has_flag_def flag_simps split: if_splits)

lemma counts_establish: "counts w n False False \<Longrightarrow> counts established_store n True False"
  by (auto simp: counts_def established_store_def idle_words_def)

lemma tcp_invD:
  assumes "tcp_inv s"
  shows "counts (st s) (pending s + in_progress (loop s) + leaked s) (established s) (closed s)"
    and "sender_ok (senders s t)" and "unused_ok (unusers s t)" and "shutdown_ok (shutters s t)"
    and "loop_ok (loop s)"
  using assms by (auto simp: tcp_inv_def outstanding_in_progress)

lemma tcp_step_inv:
  assumes "tcp_step s s'" and inv: "tcp_inv s" and b: "outstanding s' + leaked s' < 2 ^ 57"
  shows "tcp_inv s'"
  using assms(1)
proof (cases rule: tcp_step.cases)
  case (send_access spur t w pc)
  have "counts w (pending s + in_progress (loop s) + leaked s + (if admits (st s) (senders s t) then 1 else 0))
      (established s) (closed s) \<and> sender_ok pc"
    by (rule sender_access [OF tcp_invD(1,2) [OF inv] send_access(2)])
      (use b in \<open>simp add: send_access(1) outstanding_in_progress add.commute add.left_commute\<close>)
  with inv send_access(1) show ?thesis
    by (auto simp: tcp_inv_def outstanding_in_progress add.commute add.left_commute)
next
  case (unused_access spur t w pc)
  with unused_access_ok [OF tcp_invD(1,3) [OF inv] unused_access(2)] inv show ?thesis
    by (auto simp: tcp_inv_def outstanding_in_progress)
next
  case (shutdown_access spur t w pc)
  with shutdown_access_ok [OF tcp_invD(1,4) [OF inv] shutdown_access(2)] inv show ?thesis
    by (auto simp: tcp_inv_def outstanding_in_progress)
next
  case (loop_take n w pc)
  with inv tcp_invD(1) [OF inv] counts_word_ok show ?thesis
    by (auto simp: tcp_inv_def outstanding_in_progress in_progress_def)
next
  case (loop_access w pc)
  with loop_access_ok [OF tcp_invD(1,5) [OF inv] loop_access(2,3)] inv show ?thesis
    by (auto simp: tcp_inv_def outstanding_in_progress)
next
  case hup
  with inv counts_hup show ?thesis by (auto simp: tcp_inv_def outstanding_in_progress)
next
  case establish
  with inv counts_establish show ?thesis by (auto simp: tcp_inv_def outstanding_in_progress)
qed (use inv in \<open>auto simp: tcp_inv_def outstanding_in_progress\<close>)

lemma tcp_start_inv: "tcp_inv tcp_start"
  by (simp add: tcp_inv_def tcp_start_def outstanding_in_progress in_progress_def counts_def idle_words_def
      Connecting_def)

lemma tcp_reachable_inv: "tcp_reachable s \<Longrightarrow> tcp_inv s"
  by (induction rule: tcp_reachable.induct) (auto intro: tcp_start_inv tcp_step_inv)

subsection \<open>Schedules\<close>

datatype tcp_action = CallSend nat | Send nat | CallUnused nat | Unused nat | TakeSend | LoopAccess | Hup | Establish

fun tcp_act :: "tcp_system \<Rightarrow> tcp_action \<Rightarrow> tcp_system" where
  "tcp_act s (CallSend t) =
     (case senders s t of SReturned r \<Rightarrow> s\<lparr>senders := (senders s)(t := SLoad)\<rparr> | _ \<Rightarrow> s)"
| "tcp_act s (Send t) =
     (case sender_step False (st s) (senders s t) of (w, pc) \<Rightarrow>
        s\<lparr>st := w, senders := (senders s)(t := pc),
          pending := pending s + (if admits (st s) (senders s t) then 1 else 0)\<rparr>)"
| "tcp_act s (CallUnused t) =
     (case unusers s t of UDone \<Rightarrow> s\<lparr>unusers := (unusers s)(t := ULoad)\<rparr> | _ \<Rightarrow> s)"
| "tcp_act s (Unused t) =
     (case unused_step False (st s) (unusers s t) of (w, pc) \<Rightarrow>
        s\<lparr>st := w, unusers := (unusers s)(t := pc)\<rparr>)"
| "tcp_act s TakeSend =
     (case (loop s, pending s) of
        (LIdle, Suc n) \<Rightarrow> (case loop_step (st s) LIdle of (w, pc) \<Rightarrow> s\<lparr>st := w, loop := pc, pending := n\<rparr>)
      | _ \<Rightarrow> s)"
| "tcp_act s LoopAccess =
     (if loop s = LIdle then s
      else case loop_step (st s) (loop s) of (w, pc) \<Rightarrow>
        s\<lparr>st := w, loop := pc, leaked := leaked s + (if leaks (st s) (loop s) then 1 else 0)\<rparr>)"
| "tcp_act s Hup = (if loop s = LIdle then s\<lparr>st := hup_store (st s), closed := True\<rparr> else s)"
| "tcp_act s Establish =
     (if \<not> established s \<and> \<not> closed s then s\<lparr>st := established_store, established := True\<rparr> else s)"

lemma tcp_act_step: "tcp_step s (tcp_act s a) \<or> tcp_act s a = s"
proof (cases a)
  case (CallSend t)
  then show ?thesis by (cases "senders s t") (auto intro: tcp_step.send_call)
next
  case (Send t)
  obtain w pc where "sender_step False (st s) (senders s t) = (w, pc)" by fastforce
  with tcp_step.send_access [OF this] Send show ?thesis by simp
next
  case (CallUnused t)
  then show ?thesis by (cases "unusers s t") (auto intro: tcp_step.unused_call)
next
  case (Unused t)
  then show ?thesis by (cases "unused_step False (st s) (unusers s t)") (auto intro: tcp_step.unused_access)
next
  case TakeSend
  show ?thesis
  proof (cases "loop s = LIdle \<and> pending s \<noteq> 0")
    case True
    then obtain n where "pending s = Suc n" "loop s = LIdle" by (metis not0_implies_Suc)
    with tcp_step.loop_take [of s n "st s" "LData (st s)"] TakeSend show ?thesis by simp
  qed (auto simp: TakeSend split: loop_pc.split nat.split)
next
  case LoopAccess
  obtain w pc where "loop_step (st s) (loop s) = (w, pc)" by fastforce
  with tcp_step.loop_access [OF _ this] LoopAccess show ?thesis by simp
qed (auto intro: tcp_step.hup tcp_step.establish)

lemma tcp_act_counts: "outstanding (tcp_act s a) + leaked (tcp_act s a) \<le> Suc (outstanding s + leaked s)"
  by (cases a; cases "loop s")
    (auto simp: outstanding_def split: sender_pc.split unused_pc.split nat.split prod.split if_splits)

lemma tcp_schedule_reachable:
  "tcp_reachable s \<Longrightarrow> outstanding s + leaked s + length as < 2 ^ 57 \<Longrightarrow> tcp_reachable (foldl tcp_act s as)"
proof (induction as arbitrary: s)
  case (Cons a as)
  have b: "outstanding (tcp_act s a) + leaked (tcp_act s a) + length as < 2 ^ 57"
    using tcp_act_counts [of s a] Cons.prems(2) by simp
  with Cons.prems(1) have "tcp_reachable (tcp_act s a)"
    using tcp_act_step [of s a] by (metis add_lessD1 tcp_reachable.step)
  with b Cons.IH show ?case by simp
qed simp

lemma tcp_start_schedule: "length as < 2 ^ 57 \<Longrightarrow> tcp_reachable (foldl tcp_act tcp_start as)"
  by (rule tcp_schedule_reachable [OF tcp_reachable.start]) (simp add: outstanding_def tcp_start_def)

subsection \<open>Properties\<close>

text \<open>C3: admitted sends hold the connection. In every interleaving of senders, \<^verbatim>\<open>set_unused\<close> and
  \<^verbatim>\<open>shutdown\<close> callers with the loop thread, as long as no hang-up happened: while a send that passed
  the gate is unfinished the flags \<^verbatim>\<open>used\<close> and \<^verbatim>\<open>writing\<close> are set and the counter of the word is at
  least the number of such sends; hence no step of \<^verbatim>\<open>set_unused\<close> clears \<^verbatim>\<open>used\<close> and no step of
  \<^verbatim>\<open>shutdown\<close> moves to \<^verbatim>\<open>Disconnecting\<close> before all of them are finished.\<close>

theorem sends_hold_connection:
  assumes "tcp_reachable s" and "\<not> closed s"
  shows "(outstanding s \<noteq> 0 \<longrightarrow> has_flag (st s) used \<and> has_flag (st s) writing
      \<and> outstanding s \<le> unat (drop_bit senders_offset (st s)))
    \<and> (\<forall>spur t w pc. unused_step spur (st s) (unusers s t) = (w, pc) \<and> w \<noteq> st s \<longrightarrow> outstanding s = 0)
    \<and> (\<forall>spur t w pc. shutdown_step spur (st s) (shutters s t) = (w, pc) \<and> w \<noteq> st s \<longrightarrow> outstanding s = 0)"
proof -
  have inv: "tcp_inv s" by (rule tcp_reachable_inv [OF assms(1)])
  have c: "st s = pack (outstanding s + leaked s) \<and> outstanding s + leaked s < 2 ^ 57 \<or>
      st s \<in> idle_words \<and> outstanding s = 0"
    using inv assms(2) by (auto simp: tcp_inv_def counts_def)
  have cnt: "unat (drop_bit senders_offset (pack n)) = n" if "n < 2 ^ 57" for n
    unfolding senders_offset_def unat_drop_bit_eq unat_pack [OF that] by (simp add: drop_bit_eq_div)
  have idle: "outstanding s = 0" if "st s \<in> idle_words"
    using c that pack_ne_small by auto
  have "outstanding s = 0" if "unused_step spur (st s) (unusers s t) = (w, pc)" "w \<noteq> st s" for spur t w pc
    using that tcp_invD(3) [OF inv, of t] idle
    by (cases "unusers s t") (auto split: if_splits simp: idle_words_def flag_simps)
  moreover have "outstanding s = 0" if "shutdown_step spur (st s) (shutters s t) = (w, pc)" "w \<noteq> st s" for spur t w pc
    using that tcp_invD(4) [OF inv, of t] idle
    by (cases "shutters s t") (auto split: if_splits simp: idle_words_def flag_simps)
  ultimately show ?thesis using c cnt by auto
qed

theorem sends_hold_connection_witness:
  "\<exists>s. tcp_reachable s \<and> \<not> closed s \<and> outstanding s = 1 \<and> unusers s 0 = UWaitWriting (st s)
    \<and> has_flag (st s) used \<and> has_flag (st s) writing"
proof -
  let ?as = "[Establish, CallSend 0, Send 0, Send 0, Send 0, Send 0, CallUnused 0, Unused 0, Unused 0]"
  define s where "s = foldl tcp_act tcp_start ?as"
  have r: "tcp_reachable s" unfolding s_def by (rule tcp_start_schedule) simp
  have v: "\<not> closed s" "outstanding s = 1" "unusers s 0 = UWaitWriting (st s)"
    unfolding s_def by code_simp+
  with sends_hold_connection [OF r v(1)] r show ?thesis by auto
qed

text \<open>Once a send was finished without being counted down, the connection keeps the flags \<^verbatim>\<open>used\<close>
  and \<^verbatim>\<open>writing\<close> until a hang-up, so \<^verbatim>\<open>set_unused\<close> waits for ever: the number of such sends never
  decreases. The witness shows that two overlapping sends are enough to get there.\<close>

theorem leaked_send_blocks_unused:
  assumes "tcp_reachable s" and "0 < leaked s"
  shows "(closed s \<or> has_flag (st s) used \<and> has_flag (st s) writing) \<and> (\<forall>s'. tcp_step s s' \<longrightarrow> leaked s \<le> leaked s')"
proof -
  have "tcp_inv s" by (rule tcp_reachable_inv [OF assms(1)])
  then have "closed s \<or> has_flag (st s) used \<and> has_flag (st s) writing"
    using assms(2) by (auto simp: tcp_inv_def counts_def split: if_splits)
  moreover have "leaked s \<le> leaked s'" if "tcp_step s s'" for s'
    using that by (cases rule: tcp_step.cases) auto
  ultimately show ?thesis by blast
qed

theorem leaked_send_blocks_unused_witness:
  "\<exists>s. tcp_reachable s \<and> \<not> closed s \<and> outstanding s = 0 \<and> leaked s = 1
    \<and> has_flag (st s) used \<and> has_flag (st s) writing"
proof -
  let ?as = "[Establish, CallSend 0, Send 0, Send 0, Send 0, Send 0, TakeSend, CallSend 1, Send 1, Send 1, Send 1,
    LoopAccess, LoopAccess, TakeSend, LoopAccess, LoopAccess]"
  define s where "s = foldl tcp_act tcp_start ?as"
  have r: "tcp_reachable s" unfolding s_def by (rule tcp_start_schedule) simp
  have v: "\<not> closed s" "outstanding s = 0" "leaked s = 1"
    unfolding s_def by code_simp+
  with leaked_send_blocks_unused [OF r] r show ?thesis by auto
qed



text \<open>Two overlapping sends can lose a message. After the connection is established and with no call
  of \<^verbatim>\<open>set_unused\<close>, \<^verbatim>\<open>shutdown\<close> and no hang-up, the second sender passes the gate between the two
  compare-and-swaps of the first, whose call then returns without handing its message on.\<close>

theorem overlapping_sends_lose_one:
  "let s = foldl tcp_act tcp_start [Establish, CallSend 0, CallSend 1, Send 0, Send 0, Send 0,
     Send 1, Send 1, Send 1, Send 0] in
   tcp_reachable s \<and> senders s 0 = SReturned False \<and> senders s 1 = SReturned True
   \<and> pending s = 1 \<and> has_flag (st s) used \<and> \<not> closed s"
proof -
  define s where "s = foldl tcp_act tcp_start [Establish, CallSend 0, CallSend 1, Send 0, Send 0, Send 0,
     Send 1, Send 1, Send 1, Send 0]"
  have "tcp_reachable s" unfolding s_def by (rule tcp_start_schedule) simp
  moreover have "senders s 0 = SReturned False \<and> senders s 1 = SReturned True
     \<and> pending s = 1 \<and> has_flag (st s) used \<and> \<not> closed s"
    unfolding s_def by code_simp
  ultimately show ?thesis unfolding s_def [symmetric] Let_def by blast
qed

end
