(* ===== verification/Tcp_Connection.thy ===== *)
theory Tcp_Connection
  imports Byte_Buffer Channel_Poller Tcp_State
begin

unbundle bit_operations_syntax

text \<open>
  A TCP connection as the loop thread runs it: \<^verbatim>\<open>src/src/TcpConnection.{h,cpp}\<close>. The record
  \<open>tcp_conn\<close> has the members of the class; \<open>net\<close> is the poller its channel lives in. Answers of the
  kernel to \<^verbatim>\<open>readv\<close>, \<^verbatim>\<open>recv\<close> and \<^verbatim>\<open>write\<close> are lists handed to the handlers, one entry per call;
  running out of them is \<open>NoReturn\<close>. \<open>sent\<close> collects the bytes the kernel took. Calls of user
  callbacks and functors queued to the loop are recorded in \<open>conn_log\<close>; calling an empty
  \<^verbatim>\<open>std::function\<close> throws.
\<close>

subsection \<open>State\<close>

datatype conn_cb = EpIn | EpOut | EpRdhup | EpHup | EpErr

datatype conn_event =
    ConnectionSeen
  | MessageSeen "byte list"
  | OobSeen byte
  | WriteCompleteQueued
  | WriteCompleteSeen
  | HighWaterQueued u64
  | CloseSeen
  | ShutdownWrite
  | SendQueued "byte list"
  | ShutdownQueued
  | ForceCloseQueued
  | DelayedClose u64

record tcp_conn =
  net :: "conn_cb poller"
  conn_channel :: ptr
  conn_self :: obj
  socket_fd :: int
  inputBuffer :: buffer
  outputBuffers :: "buffer list"
  state_word :: u64
  reading :: bool
  rdhup_phrase :: "bool option"
  highWaterMark :: u64
  oldLen :: u64
  connectionCallback :: bool
  messageCallback :: "(buffer \<Rightarrow> buffer) option"
  OOB_messageCallback :: bool
  writeCompleteCallback :: bool
  highWaterMarkCallback :: bool
  closeCallback :: bool
  sent :: "byte list"
  conn_log :: "conn_event list"

definition log_event :: "conn_event \<Rightarrow> tcp_conn \<Rightarrow> tcp_conn" where
  "log_event e c = c\<lparr>conn_log := conn_log c @ [e]\<rparr>"

definition with_net :: "(conn_cb poller \<Rightarrow> conn_cb poller outcome) \<Rightarrow> tcp_conn \<Rightarrow> tcp_conn outcome" where
  "with_net f c = and_then (f (net c)) (\<lambda>p. Inr (c\<lparr>net := p\<rparr>))"

text \<open>\<^verbatim>\<open>rdhup_phrase\<close> has no initial value.\<close>

definition set_conn_callbacks :: "conn_cb channel \<Rightarrow> conn_cb channel" where
  "set_conn_callbacks ch = set_err_callback (Some EpErr) (set_hup_callback (Some EpHup)
     (set_rdhup_callback (Some EpRdhup) (set_out_callback (Some EpOut) (set_in_callback (Some EpIn) ch))))"

definition TcpConnection_on :: "ptr \<Rightarrow> int \<Rightarrow> obj \<Rightarrow> conn_cb poller \<Rightarrow> tcp_conn outcome" where
  "TcpConnection_on ch fd self p =
     and_then (modify set_conn_callbacks ch p) (\<lambda>p.
     Inr \<lparr>net = p, conn_channel = ch, conn_self = self, socket_fd = fd,
          inputBuffer = \<lparr>buf = replicate InitialSize 0, read_idx = 0, write_idx = 0\<rparr>,
          outputBuffers = [], state_word = Connecting, reading = True, rdhup_phrase = None,
          highWaterMark = 64 * 1024 * 1024, oldLen = 0, connectionCallback = False,
          messageCallback = None, OOB_messageCallback = False, writeCompleteCallback = False,
          highWaterMarkCallback = False, closeCallback = False, sent = [], conn_log = []\<rparr>)"

definition TcpConnection_fd :: "int \<Rightarrow> obj \<Rightarrow> conn_cb poller \<Rightarrow> tcp_conn outcome" where
  "TcpConnection_fd fd self p = (case add_channel fd p of (ch, p) \<Rightarrow> TcpConnection_on ch fd self p)"

definition connected :: "tcp_conn \<Rightarrow> bool" where
  "connected c \<longleftrightarrow> has_flag (state_word c) Connected"

definition disconnected :: "tcp_conn \<Rightarrow> bool" where
  "disconnected c \<longleftrightarrow> has_flag (state_word c) Disconnected"

definition defaultMessageCallback :: "buffer \<Rightarrow> buffer" where
  "defaultMessageCallback b = retrieveAll b"

definition stateToString :: "u64 \<Rightarrow> string" where
  "stateToString s =
     (if has_flag s Connecting then ''Connecting|'' else '''') @
     (if has_flag s Connected then ''Connected|'' else '''') @
     (if has_flag s Disconnecting then ''Disconnecting|'' else '''') @
     (if has_flag s Disconnected then ''Disconnected|'' else '''') @
     (if has_flag s used then ''used|'' else '''') @
     (if has_flag s writing then ''writing|'' else '''') @
     (if drop_bit senders_offset s \<noteq> 0 then ''have sender'' else '''')"

definition setConnectionCallback :: "tcp_conn \<Rightarrow> tcp_conn" where
  "setConnectionCallback c = c\<lparr>connectionCallback := True\<rparr>"

definition setMessageCallback :: "(buffer \<Rightarrow> buffer) \<Rightarrow> tcp_conn \<Rightarrow> tcp_conn" where
  "setMessageCallback f c = c\<lparr>messageCallback := Some f\<rparr>"

definition set_OOB_callback :: "tcp_conn \<Rightarrow> tcp_conn" where
  "set_OOB_callback c = c\<lparr>OOB_messageCallback := True\<rparr>"

definition setWriteCompleteCallback :: "tcp_conn \<Rightarrow> tcp_conn" where
  "setWriteCompleteCallback c = c\<lparr>writeCompleteCallback := True\<rparr>"

definition setCloseCallback :: "tcp_conn \<Rightarrow> tcp_conn" where
  "setCloseCallback c = c\<lparr>closeCallback := True\<rparr>"

definition setHighWaterMarkCallback :: "u64 \<Rightarrow> tcp_conn \<Rightarrow> tcp_conn" where
  "setHighWaterMarkCallback m c = c\<lparr>highWaterMarkCallback := True, highWaterMark := m\<rparr>"

subsection \<open>Establishing and hang-up\<close>

definition connectEstablished :: "tcp_conn \<Rightarrow> tcp_conn outcome" where
  "connectEstablished c =
     and_then (with_net (modify (tie_obj (Some (conn_self c))) (conn_channel c)) (c\<lparr>net := assertInLoopThread (net c)\<rparr>)) (\<lambda>c.
     and_then (with_net (EnableRead (conn_channel c)) c) (\<lambda>c.
     let c = c\<lparr>state_word := Connected OR used\<rparr> in
     if connectionCallback c then Inr (log_event ConnectionSeen c) else Inl UncaughtException))"

text \<open>\<^verbatim>\<open>connectDestroyed\<close> only logs a state other than \<^verbatim>\<open>Disconnected\<close>.\<close>

definition connectDestroyed :: "tcp_conn \<Rightarrow> tcp_conn" where
  "connectDestroyed c = c"

definition socket_close :: "tcp_conn \<Rightarrow> tcp_conn" where
  "socket_close c = c\<lparr>net := sys (CloseFd (socket_fd c)) (net c), socket_fd := -1\<rparr>"

definition handle_ep_hup :: "tcp_conn \<Rightarrow> tcp_conn outcome" where
  "handle_ep_hup c =
     (let c = c\<lparr>net := assertInLoopThread (net c)\<rparr> in
      if has_flag (state_word c) Disconnected then Inr c
      else
        and_then (with_net (DisableAll (conn_channel c)) c) (\<lambda>c.
        and_then (with_net (modify reset_callbacks (conn_channel c)) c) (\<lambda>c.
        and_then (with_net (modify reset_listen_events (conn_channel c)) c) (\<lambda>c.
        let c = (socket_close c)\<lparr>state_word := Disconnected\<rparr> in
        if closeCallback c then Inr (log_event CloseSeen c) else Inl UncaughtException))))"

definition handle_ep_err :: "int \<Rightarrow> tcp_conn \<Rightarrow> tcp_conn outcome" where
  "handle_ep_err so_error c = (if so_error \<noteq> 0 then handle_ep_hup c else Inr c)"

subsection \<open>Reading\<close>

definition call_message :: "tcp_conn \<Rightarrow> tcp_conn outcome" where
  "call_message c =
     (case messageCallback c of
        Some f \<Rightarrow> Inr (log_event (MessageSeen (contents (inputBuffer c))) (c\<lparr>inputBuffer := f (inputBuffer c)\<rparr>))
      | None \<Rightarrow> Inl UncaughtException)"

text \<open>
  The loop of \<^verbatim>\<open>readFd\<close> calls shared by \<^verbatim>\<open>handle_ep_in\<close> and \<^verbatim>\<open>finish_in_out\<close>: it ends at the end of the
  stream (\<open>None\<close>) or with an error other than \<^verbatim>\<open>EINTR\<close>; \<open>n\<close> counts the bytes read.
\<close>

fun read_all :: "readv_answer list \<Rightarrow> nat \<Rightarrow> buffer \<Rightarrow> (int option \<times> nat \<times> buffer) outcome" where
  "read_all [] n b = Inl NoReturn"
| "read_all (a # as) n b =
     and_then (readFd a b) (\<lambda>(cur, err, b).
     if cur > 0 then read_all as (n + nat cur) b
     else if cur = 0 then Inr (None, n, b)
     else case err of
         Some e \<Rightarrow> if e = EINTR then read_all as n b else Inr (Some e, n, b)
       | None \<Rightarrow> Inr (Some 0, n, b))"

definition handle_ep_in :: "readv_answer list \<Rightarrow> tcp_conn \<Rightarrow> tcp_conn outcome" where
  "handle_ep_in answers c =
     (let c = c\<lparr>net := assertInLoopThread (net c)\<rparr> in
      and_then (read_all answers 0 (inputBuffer c)) (\<lambda>(stop, n, b).
      let c = c\<lparr>inputBuffer := b\<rparr> in
      case stop of
        None \<Rightarrow> and_then (if n > 0 then call_message c else Inr c) handle_ep_hup
      | Some e \<Rightarrow>
          if e = EAGAIN \<or> e = 0 then (if n > 0 then call_message c else Inr c) else handle_ep_hup c))"

text \<open>Answers of \<^verbatim>\<open>recv(..., MSG_OOB)\<close>.\<close>

datatype oob_answer = OobByte byte | OobEof | OobFailed int

fun read_oob :: "oob_answer list \<Rightarrow> nat \<Rightarrow> byte \<Rightarrow> (int option \<times> nat \<times> byte) outcome" where
  "read_oob [] n x = Inl NoReturn"
| "read_oob (OobByte y # as) n x = read_oob as (Suc n) y"
| "read_oob (OobEof # as) n x = Inr (None, n, x)"
| "read_oob (OobFailed e # as) n x = (if e = EINTR then read_oob as n x else Inr (Some e, n, x))"

definition handle_ep_pri :: "oob_answer list \<Rightarrow> tcp_conn \<Rightarrow> tcp_conn outcome" where
  "handle_ep_pri answers c =
     (let c = c\<lparr>net := assertInLoopThread (net c)\<rparr> in
      and_then (read_oob answers 0 0) (\<lambda>(stop, n, x).
      case stop of
        None \<Rightarrow> and_then (if n > 0 then call_message c else Inr c) handle_ep_hup
      | Some e \<Rightarrow>
          if e = EAGAIN \<or> e = 0 then
            (if n = 1 then (if OOB_messageCallback c then Inr (log_event (OobSeen x) c) else Inl UncaughtException)
             else Inr c)
          else handle_ep_hup c))"

subsection \<open>Writing\<close>

text \<open>
  Answers of \<^verbatim>\<open>write\<close>: \<open>Wrote n\<close> for a positive count, \<open>WriteFailed e\<close> for 0 or a negative result
  with what \<^verbatim>\<open>getSocketError\<close> then returns.
\<close>

datatype write_answer = Wrote nat | WriteFailed int

datatype flush_end = FlushDone | FlushBlocked | FlushFailed

text \<open>
  \<^verbatim>\<open>while (left)\<close> on the front buffer: \<open>left\<close> is not changed in the loop. The kernel reads \<open>left\<close>
  bytes from the start of the unread bytes, also when fewer are unread.
\<close>

fun flush_front ::
  "write_answer list \<Rightarrow> nat \<Rightarrow> buffer \<Rightarrow> byte list \<Rightarrow> (flush_end \<times> buffer \<times> byte list \<times> write_answer list) outcome"
where
  "flush_front answers left b out =
     (if left = 0 then Inr (FlushDone, b, out, answers)
      else case answers of
          [] \<Rightarrow> Inl NoReturn
        | Wrote n # as \<Rightarrow>
            if n = 0 \<or> left < n then Inl KernelContract
            else if length (buf b) < read_idx b + left then Inl OutOfBounds
            else and_then (retrieve n b) (\<lambda>b'.
                 flush_front as left b' (out @ take n (drop (read_idx b) (buf b))))
        | WriteFailed e # as \<Rightarrow>
            if e = EAGAIN then Inr (FlushBlocked, b, out, as)
            else if e = EINTR then flush_front as left b out
            else Inr (FlushFailed, b, out, as))"

declare flush_front.simps [simp del]

text \<open>\<^verbatim>\<open>while (!outputBuffers_.empty())\<close>, on the buffers \<open>bs\<close> still queued.\<close>

fun flush_all :: "buffer list \<Rightarrow> write_answer list \<Rightarrow> tcp_conn \<Rightarrow> (flush_end \<times> tcp_conn) outcome" where
  "flush_all [] answers c = Inr (FlushDone, c\<lparr>outputBuffers := []\<rparr>)"
| "flush_all (b # bs) answers c =
     and_then (flush_front answers (readableBytes b) b (sent c)) (\<lambda>(r, b', out, as).
     let c = c\<lparr>outputBuffers := b' # bs, sent := out\<rparr> in
     case r of
       FlushDone \<Rightarrow>
         if readableBytes b' = 0 then
           flush_all bs as (let c = c\<lparr>outputBuffers := bs\<rparr> in
             if writeCompleteCallback c then log_event WriteCompleteQueued c else c)
         else Inl NoReturn
     | _ \<Rightarrow> Inr (r, c))"

text \<open>After a fatal error \<^verbatim>\<open>outputBuffers_\<close> is cleared and the reference to its front is used again.\<close>

definition handle_ep_out :: "write_answer list \<Rightarrow> tcp_conn \<Rightarrow> tcp_conn outcome" where
  "handle_ep_out answers c =
     (let c = c\<lparr>net := assertInLoopThread (net c)\<rparr> in
      if outputBuffers c = [] then with_net (DisableWrite (conn_channel c)) c
      else and_then (flush_all (outputBuffers c) answers c) (\<lambda>(r, c).
        case r of
          FlushBlocked \<Rightarrow> Inr c
        | FlushFailed \<Rightarrow> and_then (handle_ep_hup c) (\<lambda>c. Inl BadPointer)
        | FlushDone \<Rightarrow>
            (case rdhup_phrase c of
               None \<Rightarrow> Inl UndefinedBehaviour
             | Some ph \<Rightarrow> if ph then handle_ep_hup c else Inr c)))"

definition finish_in_out :: "readv_answer list \<Rightarrow> write_answer list \<Rightarrow> tcp_conn \<Rightarrow> (bool \<times> tcp_conn) outcome" where
  "finish_in_out reads writes c =
     (let c = c\<lparr>net := assertInLoopThread (net c)\<rparr> in
      and_then (read_all reads 0 (inputBuffer c)) (\<lambda>(stop, n, b).
      let c = c\<lparr>inputBuffer := b\<rparr> in
      case stop of
        Some e \<Rightarrow> and_then (handle_ep_hup c) (\<lambda>c. Inr (False, c))
      | None \<Rightarrow>
          and_then (if n > 0 then call_message c else Inr c) (\<lambda>c.
          and_then (flush_all (outputBuffers c) writes c) (\<lambda>(r, c).
          case r of
            FlushDone \<Rightarrow> Inr (True, c)
          | FlushBlocked \<Rightarrow> Inr (False, c)
          | FlushFailed \<Rightarrow> and_then (handle_ep_hup c) (\<lambda>c. Inr (False, c))))))"

text \<open>\<^verbatim>\<open>handle_ep_rdhup\<close> on the loop thread: waiting while \<^verbatim>\<open>Connecting\<close> would wait for itself.\<close>

definition handle_ep_rdhup :: "readv_answer list \<Rightarrow> write_answer list \<Rightarrow> tcp_conn \<Rightarrow> tcp_conn outcome" where
  "handle_ep_rdhup reads writes c =
     (if has_flag (state_word c) Connecting then Inl NoReturn
      else and_then (finish_in_out reads writes c) (\<lambda>(fin, c).
        and_then (if fin then handle_ep_hup c else Inr c) (\<lambda>c.
        Inr (c\<lparr>rdhup_phrase := Some True\<rparr>))))"

subsection \<open>Sending\<close>

text \<open>
  \<^verbatim>\<open>while (remaining)\<close> of \<^verbatim>\<open>sendInLoop\<close>: every round offers the whole of \<open>data\<close> again. The result is
  whether a fatal error happened, \<^verbatim>\<open>remaining\<close> and the last \<^verbatim>\<open>nwrote\<close>.
\<close>

fun write_direct ::
  "write_answer list \<Rightarrow> byte list \<Rightarrow> nat \<Rightarrow> int \<Rightarrow> tcp_conn \<Rightarrow> (bool \<times> nat \<times> int \<times> tcp_conn) outcome"
where
  "write_direct answers data remaining nwrote c =
     (if remaining = 0 then Inr (False, remaining, nwrote, c)
      else case answers of
          [] \<Rightarrow> Inl NoReturn
        | Wrote n # as \<Rightarrow>
            if length data < n then Inl KernelContract
            else
              let c = c\<lparr>sent := sent c @ take n data\<rparr>; remaining = length data - n in
              write_direct as data remaining (int n)
                (if remaining = 0 \<and> writeCompleteCallback c then log_event WriteCompleteQueued c else c)
        | WriteFailed e # as \<Rightarrow>
            if e = EAGAIN then Inr (False, remaining, -1, c)
            else if e = EINTR then write_direct as data remaining (-1) c
            else Inr (True, remaining, -1, c))"

declare write_direct.simps [simp del]

text \<open>Keeping what was not written: \<open>static_cast<const char*>(data) + nwrote\<close> may lie before the data.\<close>

definition store_rest :: "byte list \<Rightarrow> nat \<Rightarrow> int \<Rightarrow> tcp_conn \<Rightarrow> tcp_conn outcome" where
  "store_rest data remaining nwrote c =
     and_then (Buffer remaining) (\<lambda>b.
     let c = c\<lparr>oldLen := oldLen c + word_of_nat remaining\<rparr>;
         c = (if highWaterMark c \<le> oldLen c \<and> oldLen c < highWaterMark c \<and> highWaterMarkCallback c
              then log_event (HighWaterQueued (oldLen c)) c else c) in
     if nwrote < 0 \<or> length data < nat nwrote + remaining then Inl OutOfBounds
     else
       and_then (buf_append b (take remaining (drop (nat nwrote) data))) (\<lambda>b.
       let c = c\<lparr>outputBuffers := b # outputBuffers c\<rparr> in
       and_then (deref (net c) (conn_channel c)) (\<lambda>ch.
       if \<not> isWriting ch then with_net (EnableWrite (conn_channel c)) c else Inr c)))"

text \<open>The end of \<^verbatim>\<open>sendInLoop\<close>: counting the sender down, with the word loaded at the start.\<close>

fun finish_send :: "nat \<Rightarrow> u64 \<Rightarrow> loop_pc \<Rightarrow> u64" where
  "finish_send 0 w pc = w"
| "finish_send (Suc n) w pc = (if pc = LIdle then w else case loop_step w pc of (w', pc') \<Rightarrow> finish_send n w' pc')"

definition sendInLoop :: "write_answer list \<Rightarrow> byte list \<Rightarrow> tcp_conn \<Rightarrow> tcp_conn outcome" where
  "sendInLoop answers data c =
     (let c = c\<lparr>net := assertInLoopThread (net c)\<rparr>; old = state_word c in
      and_then (deref (net c) (conn_channel c)) (\<lambda>ch.
      and_then (if \<not> isWriting ch \<and> outputBuffers c = [] then write_direct answers data (length data) 0 c
                else Inr (False, length data, 0, c)) (\<lambda>(fault, remaining, nwrote, c).
      assert_then (remaining \<le> length data) (
      and_then (if \<not> fault \<and> remaining > 0 then store_rest data remaining nwrote c else Inr c) (\<lambda>c.
      Inr (c\<lparr>state_word := finish_send 3 (state_word c) (LData old)\<rparr>))))))"

text \<open>The gate of the send functions when no other thread interferes; \<open>None\<close>: the call blocks.\<close>

fun pass_gate :: "nat \<Rightarrow> u64 \<Rightarrow> sender_pc \<Rightarrow> (u64 \<times> bool) option" where
  "pass_gate n w (SReturned r) = Some (w, r)"
| "pass_gate 0 w pc = None"
| "pass_gate (Suc n) w pc = (case sender_step False w pc of (w', pc') \<Rightarrow> pass_gate n w' pc')"

definition send_gate :: "(tcp_conn \<Rightarrow> tcp_conn outcome) \<Rightarrow> tcp_conn \<Rightarrow> tcp_conn outcome" where
  "send_gate rest c =
     (case pass_gate 5 (state_word c) SLoad of
        None \<Rightarrow> Inl NoReturn
      | Some (w, admitted) \<Rightarrow> (let c = c\<lparr>state_word := w\<rparr> in if admitted then rest c else Inr c))"

definition send :: "write_answer list \<Rightarrow> byte list \<Rightarrow> tcp_conn \<Rightarrow> tcp_conn outcome" where
  "send answers msg c =
     send_gate (\<lambda>c. if isInLoopThread (net c) then sendInLoop answers msg c
                    else Inr (log_event (SendQueued msg) c)) c"

definition send_Buffer :: "write_answer list \<Rightarrow> buffer \<Rightarrow> tcp_conn \<Rightarrow> (tcp_conn \<times> buffer) outcome" where
  "send_Buffer answers b c =
     (case pass_gate 5 (state_word c) SLoad of
        None \<Rightarrow> Inl NoReturn
      | Some (w, admitted) \<Rightarrow>
          (let c = c\<lparr>state_word := w\<rparr> in
           if \<not> admitted then Inr (c, b)
           else if isInLoopThread (net c) then
             and_then (sendInLoop answers (contents b) c) (\<lambda>c. Inr (c, retrieveAll b))
           else and_then (retrieveAllAsString b) (\<lambda>(d, b). Inr (log_event (SendQueued d) c, b))))"

text \<open>\<^verbatim>\<open>send_OOB\<close> sends its message as ordinary data.\<close>

definition send_OOB :: "write_answer list \<Rightarrow> byte list \<Rightarrow> tcp_conn \<Rightarrow> tcp_conn outcome" where
  "send_OOB answers msg c =
     send_gate (\<lambda>c. if isInLoopThread (net c) then sendInLoop answers msg c
                    else Inr (log_event (SendQueued msg) c)) c"

subsection \<open>Closing\<close>

fun run_unused :: "nat \<Rightarrow> u64 \<Rightarrow> unused_pc \<Rightarrow> u64 option" where
  "run_unused n w UDone = Some w"
| "run_unused 0 w pc = None"
| "run_unused (Suc n) w pc = (case unused_step False w pc of (w', pc') \<Rightarrow> run_unused n w' pc')"

definition set_unused :: "tcp_conn \<Rightarrow> tcp_conn outcome" where
  "set_unused c = (case run_unused 4 (state_word c) ULoad of
     None \<Rightarrow> Inl NoReturn | Some w \<Rightarrow> Inr (c\<lparr>state_word := w\<rparr>))"

definition forceCloseInLoop :: "tcp_conn \<Rightarrow> tcp_conn outcome" where
  "forceCloseInLoop c =
     and_then (set_unused (c\<lparr>net := assertInLoopThread (net c)\<rparr>)) handle_ep_hup"

definition forceClose :: "tcp_conn \<Rightarrow> tcp_conn outcome" where
  "forceClose c = (if isInLoopThread (net c) then forceCloseInLoop c else Inr (log_event ForceCloseQueued c))"

definition forceCloseWithDelay :: "u64 \<Rightarrow> tcp_conn \<Rightarrow> tcp_conn" where
  "forceCloseWithDelay trigger c =
     (if state_word c = Connected \<or> state_word c = Disconnecting
      then log_event (DelayedClose trigger) (c\<lparr>state_word := Disconnecting\<rparr>) else c)"

definition shutdownInLoop :: "tcp_conn \<Rightarrow> tcp_conn" where
  "shutdownInLoop c = log_event ShutdownWrite (c\<lparr>net := assertInLoopThread (net c)\<rparr>)"

fun run_shutdown :: "nat \<Rightarrow> u64 \<Rightarrow> shutdown_pc \<Rightarrow> (u64 \<times> bool) option" where
  "run_shutdown n w (HDone r) = Some (w, r)"
| "run_shutdown 0 w pc = None"
| "run_shutdown (Suc n) w pc = (case shutdown_step False w pc of (w', pc') \<Rightarrow> run_shutdown n w' pc')"

definition conn_shutdown :: "tcp_conn \<Rightarrow> tcp_conn outcome" where
  "conn_shutdown c = (case run_shutdown 4 (state_word c) HLoad of
     None \<Rightarrow> Inl NoReturn
   | Some (w, r) \<Rightarrow>
       (let c = c\<lparr>state_word := w\<rparr> in
        Inr (if \<not> r then c else if isInLoopThread (net c) then shutdownInLoop c else log_event ShutdownQueued c)))"

subsection \<open>Reading on and off\<close>

definition startReadInLoop :: "tcp_conn \<Rightarrow> tcp_conn outcome" where
  "startReadInLoop c =
     (let c = c\<lparr>net := assertInLoopThread (net c)\<rparr> in
      and_then (deref (net c) (conn_channel c)) (\<lambda>ch.
      if \<not> isReading ch then with_net (EnableRead (conn_channel c)) c else Inr c))"

definition stopReadInLoop :: "tcp_conn \<Rightarrow> tcp_conn outcome" where
  "stopReadInLoop c =
     (let c = c\<lparr>net := assertInLoopThread (net c)\<rparr> in
      and_then (deref (net c) (conn_channel c)) (\<lambda>ch.
      if reading c \<or> isReading ch
      then and_then (with_net (DisableRead (conn_channel c)) c) (\<lambda>c. Inr (c\<lparr>reading := False\<rparr>))
      else Inr c))"

subsection \<open>A connection in use\<close>

text \<open>
  The channel of the connection is registered, the buffers are well formed, and the message and
  close callbacks are set, as the server and the client do before \<^verbatim>\<open>connectEstablished\<close>.
\<close>

definition conn_ok :: "tcp_conn \<Rightarrow> bool" where
  "conn_ok c \<longleftrightarrow> wf_poller (net c) \<and> m_channels (net c) (socket_fd c) = Some (conn_channel c)
     \<and> (\<exists>ch. heap (net c) (conn_channel c) = Some ch \<and> ch_idx ch = ch_added)
     \<and> wf_buffer (inputBuffer c) \<and> (\<forall>b \<in> set (outputBuffers c). wf_buffer b)
     \<and> closeCallback c \<and> messageCallback c \<noteq> None"

lemma wf_poller_assert [simp]: "wf_poller (assertInLoopThread p) = wf_poller p"
  by (simp add: wf_poller_def)

lemma conn_ok_assert [simp]: "conn_ok (c\<lparr>net := assertInLoopThread (net c)\<rparr>) = conn_ok c"
  by (simp add: conn_ok_def)

lemma handle_ep_hup_ok:
  assumes ok: "conn_ok c" and up: "\<not> has_flag (state_word c) Disconnected"
  shows "\<exists>p. handle_ep_hup c = Inr (c\<lparr>net := p, socket_fd := -1, state_word := Disconnected,
      conn_log := conn_log c @ [CloseSeen]\<rparr>)
    \<and> wf_poller p \<and> interest (syscalls p) (socket_fd c) = None"
proof -
  let ?ch = "conn_channel c" and ?fd = "socket_fd c"
  define p0 where "p0 = assertInLoopThread (net c)"
  obtain ch where ch: "heap p0 ?ch = Some ch" "ch_idx ch = ch_added"
    and wf0: "wf_poller p0" and fd0: "m_channels p0 ?fd = Some ?ch"
    using ok by (auto simp: conn_ok_def p0_def)
  have fdch: "ch_fd ch = ?fd" using wf_pollerD(1) [OF wf0 fd0 ch(1)] .
  let ?ch1 = "ch\<lparr>listen_events := 0\<rparr>"
  obtain p1 where p1: "DisableAll ?ch p0 = Inr p1" "wf_poller p1" "heap p1 = (heap p0)(?ch \<mapsto> updated ?ch1)"
      "m_channels p1 = m_channels p0"
    using update_listen_wf [OF wf0 fd0 ch(1), of ?ch1] ch(1) fdch by (auto simp: DisableAll_def)
  let ?ch2 = "reset_listen_events (reset_callbacks (updated ?ch1))"
  define p2 where "p2 = p1\<lparr>heap := (heap p1)(?ch \<mapsto> ?ch2)\<rparr>"
  define p3 where "p3 = sys (CloseFd ?fd) p2"
  have idx: "ch_idx (updated ?ch1) = ch_deleted" "ch_fd (updated ?ch1) = ?fd" "listen_events (updated ?ch1) = 0"
    using ch(2) fdch by simp_all
  have other: "fd' = ?fd" if "m_channels p1 fd' = Some ?ch" for fd'
    using wf_pollerD(1) [OF p1(2) that] p1(3) idx(2) by simp
  have w2: "wanted_fd p2 fd' = wanted_fd p1 fd'" for fd'
    using idx p1(3) by (auto simp: p2_def wanted_fd_def channel_setters wanted_def split: option.split)
  have wn: "wanted_fd p1 ?fd = None"
    using idx p1(3,4) fd0 by (simp add: wanted_fd_def)
  have i1: "interest (syscalls p1) = wanted_fd p1" "calls_legal (syscalls p1)"
    using p1(2) by (simp_all add: wf_poller_def)
  have s3: "syscalls p3 = syscalls p1 @ [CloseFd ?fd]" by (simp add: p3_def p2_def)
  have i3: "interest (syscalls p3) = wanted_fd p3"
  proof (rule ext)
    fix fd'
    have "wanted_fd p3 fd' = wanted_fd p1 fd'"
      using w2 [of fd'] by (simp add: p3_def)
    then show "interest (syscalls p3) fd' = wanted_fd p3 fd'"
      using i1(1) wn unfolding s3 interest_snoc by simp
  qed
  have k3: "c' < next_ptr p3 \<and> (\<exists>ch. heap p3 c' = Some ch \<and> ch_fd ch = fd' \<and> (ch_idx ch = ch_added \<or> ch_idx ch = ch_deleted))"
    if "m_channels p3 fd' = Some c'" for fd' c'
  proof -
    have m: "m_channels p1 fd' = Some c'" using that by (simp add: p3_def p2_def)
    then have "c' < next_ptr p1" using p1(2) by (auto simp: wf_poller_def)
    moreover obtain ch' where "heap p1 c' = Some ch'" "ch_fd ch' = fd'" "ch_idx ch' = ch_added \<or> ch_idx ch' = ch_deleted"
      using wf_poller_known [OF p1(2) m] by blast
    ultimately show ?thesis
      using other [of fd'] m idx by (cases "c' = ?ch") (auto simp: p3_def p2_def channel_setters)
  qed
  have "wf_poller p3"
    unfolding wf_poller_def using k3 i3 i1(2) by (auto simp: s3)
  moreover have "interest (syscalls p3) ?fd = None" unfolding s3 by simp
  moreover have "handle_ep_hup c = Inr (c\<lparr>net := p3, socket_fd := -1, state_word := Disconnected,
      conn_log := conn_log c @ [CloseSeen]\<rparr>)"
    using up ok p1(1,3)
    by (simp add: handle_ep_hup_def Let_def with_net_def p0_def socket_close_def log_event_def conn_ok_def
        p3_def p2_def)
  ultimately show ?thesis by blast
qed

subsection \<open>Reading everything there is\<close>

lemma readv_room: "length bs \<le> 65536 \<Longrightarrow> length bs \<le> sum_list (readv_blocks b)"
  by (simp add: readv_blocks_def extra_size_def)

lemma read_all_data:
  assumes "wf_buffer b" and "\<And>bs. bs \<in> set bss \<Longrightarrow> bs \<noteq> [] \<and> length bs \<le> 65536"
  shows "\<exists>b'. wf_buffer b' \<and> contents b' = contents b @ concat bss
    \<and> read_all (map ReadvData bss @ rest) n b = read_all rest (n + length (concat bss)) b'"
  using assms
proof (induction bss arbitrary: b n)
  case Nil
  then show ?case by auto
next
  case (Cons bs bss)
  obtain b1 where b1: "readFd (ReadvData bs) b = Inr (int (length bs), None, b1)" "wf_buffer b1"
      "contents b1 = contents b @ bs"
    using readFd_data_ok [OF Cons.prems(1) readv_room, of bs] Cons.prems(2) [of bs] by auto
  have "bs \<noteq> []" using Cons.prems(2) [of bs] by simp
  then have "read_all (map ReadvData (bs # bss) @ rest) n b = read_all (map ReadvData bss @ rest) (n + length bs) b1"
    using b1(1) by simp
  moreover obtain b' where "wf_buffer b'" "contents b' = contents b1 @ concat bss"
      "read_all (map ReadvData bss @ rest) (n + length bs) b1 = read_all rest (n + length bs + length (concat bss)) b'"
    using Cons.IH [OF b1(2), of "n + length bs"] Cons.prems(2) by auto
  ultimately show ?case using b1(3) by (auto simp: add.assoc)
qed

lemma readFd_eof:
  "wf_buffer b \<Longrightarrow> \<exists>b'. readFd (ReadvData []) b = Inr (0, None, b') \<and> wf_buffer b' \<and> contents b' = contents b"
  using readFd_data_ok [of b "[]"] by simp

subsection \<open>Event handlers\<close>

text \<open>One epoll event with the answers of the kernel, and a sequence of them.\<close>

datatype conn_input =
    InputIn "readv_answer list"
  | InputPri "oob_answer list"
  | InputOut "write_answer list"
  | InputRdhup "readv_answer list" "write_answer list"
  | InputHup
  | InputErr int

fun conn_do :: "conn_input \<Rightarrow> tcp_conn \<Rightarrow> tcp_conn outcome" where
  "conn_do (InputIn as) c = handle_ep_in as c"
| "conn_do (InputPri as) c = handle_ep_pri as c"
| "conn_do (InputOut as) c = handle_ep_out as c"
| "conn_do (InputRdhup rs ws) c = handle_ep_rdhup rs ws c"
| "conn_do InputHup c = handle_ep_hup c"
| "conn_do (InputErr e) c = handle_ep_err e c"

fun conn_run :: "conn_input list \<Rightarrow> tcp_conn \<Rightarrow> tcp_conn outcome" where
  "conn_run [] c = Inr c"
| "conn_run (i # evs) c = and_then (conn_do i c) (conn_run evs)"

text \<open>The close callback ran once if the connection is disconnected and not at all otherwise.\<close>

definition closed_once :: "tcp_conn \<Rightarrow> bool" where
  "closed_once c \<longleftrightarrow> count_list (conn_log c) CloseSeen = (if has_flag (state_word c) Disconnected then 1 else 0)"

lemma count_list_snoc: "count_list (xs @ [x]) y = count_list xs y + (if x = y then 1 else 0)"
  by (induction xs) auto

lemma closed_once_log: "e \<noteq> CloseSeen \<Longrightarrow> closed_once (log_event e c) = closed_once c"
  by (simp add: closed_once_def log_event_def count_list_snoc)

lemma closed_once_fields [simp]:
  "closed_once (c\<lparr>net := p\<rparr>) = closed_once c" "closed_once (c\<lparr>inputBuffer := b\<rparr>) = closed_once c"
  "closed_once (c\<lparr>outputBuffers := bs\<rparr>) = closed_once c" "closed_once (c\<lparr>sent := out\<rparr>) = closed_once c"
  "closed_once (c\<lparr>rdhup_phrase := r\<rparr>) = closed_once c"
  by (simp_all add: closed_once_def)

lemma with_net_closed_once: "with_net f c = Inr c' \<Longrightarrow> closed_once c \<Longrightarrow> closed_once c'"
  by (auto simp: with_net_def and_then_eq_Inr)

lemma call_message_closed_once: "call_message c = Inr c' \<Longrightarrow> closed_once c \<Longrightarrow> closed_once c'"
  by (auto simp: call_message_def closed_once_log split: option.splits)

lemma handle_ep_hup_closed_once: "handle_ep_hup c = Inr c' \<Longrightarrow> closed_once c \<Longrightarrow> closed_once c'"
  by (auto simp: handle_ep_hup_def Let_def and_then_eq_Inr with_net_def socket_close_def closed_once_def
      log_event_def count_list_snoc has_flag_def flag_simps split: if_splits)

lemma flush_all_closed_once: "flush_all bs as c = Inr (r, c') \<Longrightarrow> closed_once c \<Longrightarrow> closed_once c'"
proof (induction bs as c rule: flush_all.induct)
  case (2 b bs answers c)
  from 2(2) obtain r' b' out as where f: "flush_front answers (readableBytes b) b (sent c) = Inr (r', b', out, as)"
    by (auto simp: and_then_eq_Inr)
  show ?case
  proof (cases "r' = FlushDone \<and> readableBytes b' = 0")
    case True
    with 2 f show ?thesis by (auto simp: Let_def closed_once_log split: if_splits)
  next
    case False
    with 2(2,3) f show ?thesis by (auto simp: Let_def split: flush_end.splits if_splits)
  qed
qed auto

lemma message_if_closed_once:
  "(if n > 0 then call_message c else Inr c) = Inr c' \<Longrightarrow> closed_once c \<Longrightarrow> closed_once c'"
  by (auto split: if_splits dest: call_message_closed_once)

lemma finish_in_out_closed_once:
  assumes "finish_in_out rs ws c = Inr (b, c')" and "closed_once c"
  shows "closed_once c'"
proof -
  define c0 where "c0 = c\<lparr>net := assertInLoopThread (net c)\<rparr>"
  obtain stop n ib where r: "read_all rs 0 (inputBuffer c0) = Inr (stop, n, ib)"
    using assms(1) by (auto simp: finish_in_out_def Let_def and_then_eq_Inr c0_def)
  have c0: "closed_once (c0\<lparr>inputBuffer := ib\<rparr>)" using assms(2) by (simp add: c0_def)
  show ?thesis
  proof (cases stop)
    case (Some e)
    with assms(1) r c0 show ?thesis
      by (auto simp: finish_in_out_def Let_def and_then_eq_Inr c0_def dest: handle_ep_hup_closed_once)
  next
    case None
    obtain c1 where c1: "(if n > 0 then call_message (c0\<lparr>inputBuffer := ib\<rparr>) else Inr (c0\<lparr>inputBuffer := ib\<rparr>)) = Inr c1"
      and rest: "and_then (flush_all (outputBuffers c1) ws c1) (\<lambda>(r, c). case r of FlushDone \<Rightarrow> Inr (True, c)
        | FlushBlocked \<Rightarrow> Inr (False, c) | FlushFailed \<Rightarrow> and_then (handle_ep_hup c) (\<lambda>c. Inr (False, c))) = Inr (b, c')"
      using assms(1) r None unfolding finish_in_out_def Let_def c0_def [symmetric] by (auto simp: and_then_eq_Inr)
    obtain f c2 where f: "flush_all (outputBuffers c1) ws c1 = Inr (f, c2)"
      using rest by (auto simp: and_then_eq_Inr)
    have "closed_once c2" using flush_all_closed_once [OF f] message_if_closed_once [OF c1 c0] by blast
    with rest f show ?thesis
      by (cases f) (auto simp: and_then_eq_Inr dest: handle_ep_hup_closed_once)
  qed
qed

lemma handle_ep_in_closed_once:
  assumes "handle_ep_in as c = Inr c'" and "closed_once c"
  shows "closed_once c'"
proof -
  define c0 where "c0 = c\<lparr>net := assertInLoopThread (net c)\<rparr>"
  obtain stop n ib where r: "read_all as 0 (inputBuffer c0) = Inr (stop, n, ib)"
    using assms(1) by (auto simp: handle_ep_in_def Let_def and_then_eq_Inr c0_def)
  have c0: "closed_once (c0\<lparr>inputBuffer := ib\<rparr>)" using assms(2) by (simp add: c0_def)
  show ?thesis
  proof (cases stop)
    case None
    then obtain c1 where "(if n > 0 then call_message (c0\<lparr>inputBuffer := ib\<rparr>) else Inr (c0\<lparr>inputBuffer := ib\<rparr>)) = Inr c1"
        "handle_ep_hup c1 = Inr c'"
      using assms(1) r unfolding handle_ep_in_def Let_def c0_def [symmetric] by (auto simp: and_then_eq_Inr)
    with c0 show ?thesis using handle_ep_hup_closed_once message_if_closed_once by blast
  next
    case (Some e)
    with assms(1) r have "(if e = EAGAIN \<or> e = 0 then (if n > 0 then call_message (c0\<lparr>inputBuffer := ib\<rparr>)
        else Inr (c0\<lparr>inputBuffer := ib\<rparr>)) else handle_ep_hup (c0\<lparr>inputBuffer := ib\<rparr>)) = Inr c'"
      unfolding handle_ep_in_def Let_def c0_def [symmetric] by (simp only: and_then.simps prod.case option.case)
    with c0 show ?thesis using handle_ep_hup_closed_once message_if_closed_once by metis
  qed
qed

lemma handle_ep_pri_closed_once:
  assumes "handle_ep_pri as c = Inr c'" and "closed_once c"
  shows "closed_once c'"
proof -
  define c0 where "c0 = c\<lparr>net := assertInLoopThread (net c)\<rparr>"
  obtain stop n x where r: "read_oob as 0 0 = Inr (stop, n, x)"
    using assms(1) by (auto simp: handle_ep_pri_def Let_def and_then_eq_Inr c0_def)
  have c0: "closed_once c0" using assms(2) by (simp add: c0_def)
  show ?thesis
  proof (cases stop)
    case None
    then obtain c1 where "(if n > 0 then call_message c0 else Inr c0) = Inr c1" "handle_ep_hup c1 = Inr c'"
      using assms(1) r unfolding handle_ep_pri_def Let_def c0_def [symmetric] by (auto simp: and_then_eq_Inr)
    with c0 show ?thesis using handle_ep_hup_closed_once message_if_closed_once by blast
  next
    case (Some e)
    with assms(1) r have "(if e = EAGAIN \<or> e = 0 then (if n = 1 then (if OOB_messageCallback c0 then Inr (log_event (OobSeen x) c0)
        else Inl UncaughtException) else Inr c0) else handle_ep_hup c0) = Inr c'"
      unfolding handle_ep_pri_def Let_def c0_def [symmetric] by (simp only: and_then.simps prod.case option.case)
    with c0 show ?thesis
      by (auto simp: closed_once_log split: if_splits dest: handle_ep_hup_closed_once)
  qed
qed

lemma handle_ep_out_closed_once:
  assumes "handle_ep_out as c = Inr c'" and "closed_once c"
  shows "closed_once c'"
proof -
  define c0 where "c0 = c\<lparr>net := assertInLoopThread (net c)\<rparr>"
  have c0: "closed_once c0" using assms(2) by (simp add: c0_def)
  show ?thesis
  proof (cases "outputBuffers c0 = []")
    case True
    with assms(1) have "with_net (DisableWrite (conn_channel c0)) c0 = Inr c'"
      by (simp add: handle_ep_out_def Let_def c0_def)
    with c0 show ?thesis using with_net_closed_once by blast
  next
    case False
    then obtain f c2 where f: "flush_all (outputBuffers c0) as c0 = Inr (f, c2)"
      and rest: "(case f of FlushBlocked \<Rightarrow> Inr c2 | FlushFailed \<Rightarrow> and_then (handle_ep_hup c2) (\<lambda>c. Inl BadPointer)
        | FlushDone \<Rightarrow> (case rdhup_phrase c2 of None \<Rightarrow> Inl UndefinedBehaviour
          | Some ph \<Rightarrow> if ph then handle_ep_hup c2 else Inr c2)) = Inr c'"
      using assms(1) unfolding handle_ep_out_def Let_def c0_def [symmetric] by (auto simp: and_then_eq_Inr)
    have "closed_once c2" using flush_all_closed_once [OF f c0] .
    with rest show ?thesis
      by (cases f) (auto simp: and_then_eq_Inr split: option.splits if_splits dest: handle_ep_hup_closed_once)
  qed
qed

lemma handle_ep_rdhup_closed_once:
  assumes "handle_ep_rdhup rs ws c = Inr c'" and "closed_once c"
  shows "closed_once c'"
proof -
  obtain fin c1 where f: "finish_in_out rs ws c = Inr (fin, c1)"
    and rest: "and_then (if fin then handle_ep_hup c1 else Inr c1) (\<lambda>c. Inr (c\<lparr>rdhup_phrase := Some True\<rparr>)) = Inr c'"
    using assms(1) by (auto simp: handle_ep_rdhup_def and_then_eq_Inr split: if_splits)
  from finish_in_out_closed_once [OF f assms(2)] rest show ?thesis
    by (cases fin) (auto simp: and_then_eq_Inr dest: handle_ep_hup_closed_once)
qed

lemmas handlers_closed_once = handle_ep_in_closed_once handle_ep_pri_closed_once handle_ep_out_closed_once
  handle_ep_rdhup_closed_once handle_ep_hup_closed_once

lemma conn_do_closed_once: "conn_do i c = Inr c' \<Longrightarrow> closed_once c \<Longrightarrow> closed_once c'"
  by (cases i) (auto simp: handle_ep_err_def split: if_splits dest: handlers_closed_once)

subsection \<open>Sending from the loop thread\<close>

text \<open>An established connection with nothing left to write.\<close>

definition ready_to_send :: "tcp_conn \<Rightarrow> bool" where
  "ready_to_send c \<longleftrightarrow> isInLoopThread (net c) \<and> state_word c = Connected OR used \<and> outputBuffers c = []
     \<and> (\<exists>ch. heap (net c) (conn_channel c) = Some ch \<and> \<not> isWriting ch)"

lemma gate_free: "pass_gate 5 (Connected OR used) SLoad = Some (pack 1, True)"
  by code_simp

lemma finish_free: "finish_send 3 (pack 1) (LData (pack 1)) = Connected OR used"
  by code_simp

lemma write_interrupted:
  "remaining \<noteq> 0 \<Longrightarrow> write_direct (replicate k (WriteFailed EINTR) @ as) data remaining nwrote c =
     write_direct as data remaining (if k = 0 then nwrote else -1) c"
proof (induction k arbitrary: nwrote)
  case (Suc k)
  have "EINTR \<noteq> EAGAIN" by (simp add: EAGAIN_def EINTR_def)
  with Suc show ?case by (simp add: write_direct.simps [of "WriteFailed EINTR # _"])
qed simp

lemma write_whole:
  "data \<noteq> [] \<Longrightarrow> remaining \<noteq> 0 \<Longrightarrow> write_direct (Wrote (length data) # as) data remaining nwrote c =
     (let c = c\<lparr>sent := sent c @ data\<rparr> in
      Inr (False, 0, int (length data), if writeCompleteCallback c then log_event WriteCompleteQueued c else c))"
  by (simp add: write_direct.simps [of "Wrote _ # _"] write_direct.simps [of _ _ 0] Let_def)

lemma write_partial:
  "0 < k \<Longrightarrow> k < length data \<Longrightarrow> remaining \<noteq> 0 \<Longrightarrow> write_direct (Wrote k # as) data remaining nwrote c =
     write_direct as data (length data - k) (int k) (c\<lparr>sent := sent c @ take k data\<rparr>)"
  by (simp add: write_direct.simps [of "Wrote _ # _"] Let_def)

lemma write_blocked:
  "remaining \<noteq> 0 \<Longrightarrow> write_direct (WriteFailed EAGAIN # as) data remaining nwrote c = Inr (False, remaining, -1, c)"
  by (simp add: write_direct.simps [of "WriteFailed EAGAIN # _"])

text \<open>A send by the loop thread on a connection that is ready: gate, direct write, countdown.\<close>

lemma send_ready:
  assumes "ready_to_send c"
  shows "send answers msg c =
    and_then (write_direct answers msg (length msg) 0 (c\<lparr>state_word := pack 1, net := net c\<rparr>)) (\<lambda>(fault, remaining, nwrote, c).
    assert_then (remaining \<le> length msg) (
    and_then (if \<not> fault \<and> remaining > 0 then store_rest msg remaining nwrote c else Inr c) (\<lambda>c.
    Inr (c\<lparr>state_word := finish_send 3 (state_word c) (LData (pack 1))\<rparr>))))"
proof -
  obtain ch where "heap (net c) (conn_channel c) = Some ch" "\<not> isWriting ch"
    using assms by (auto simp: ready_to_send_def)
  then show ?thesis
    using assms gate_free
    by (simp add: ready_to_send_def send_def send_gate_def sendInLoop_def Let_def assertInLoopThread_def)
qed

text \<open>While something is queued, a message is put in front of the messages queued before it.\<close>

lemma queued_sends_reversed:
  assumes "outputBuffers c = b # bs" and "heap (net c) (conn_channel c) = Some ch" and "isWriting ch" and "msg \<noteq> []"
  shows "\<exists>c'. sendInLoop answers msg c = Inr c'
    \<and> map contents (outputBuffers c') = msg # map contents (outputBuffers c) \<and> sent c' = sent c"
proof -
  obtain b' where "buf_append \<lparr>buf = replicate (length msg) 0, read_idx = 0, write_idx = 0\<rparr> msg = Inr b'"
      "contents b' = contents \<lparr>buf = replicate (length msg) 0, read_idx = 0, write_idx = 0\<rparr> @ msg"
    by (rule buf_append_ok [of "\<lparr>buf = replicate (length msg) 0, read_idx = 0, write_idx = 0\<rparr>" msg])
      (simp add: wf_buffer_def)
  moreover have "contents \<lparr>buf = replicate (length msg) 0, read_idx = 0, write_idx = 0\<rparr> = []"
    by (simp add: contents_def readableBytes_def)
  ultimately show ?thesis
    using assms by (simp add: sendInLoop_def store_rest_def Let_def log_event_def)
qed

lemma flush_front_positive:
  assumes "0 < left" and "\<And>a. a \<in> set answers \<Longrightarrow> \<exists>n. a = Wrote n"
  shows "\<exists>e. flush_front answers left b out = Inl e"
  using assms
proof (induction answers arbitrary: b out)
  case Nil
  then show ?case by (simp add: flush_front.simps)
next
  case (Cons a answers)
  from Cons.prems(2) [of a] obtain n where a: "a = Wrote n" by auto
  have IH: "\<exists>e. flush_front answers left b' out' = Inl e" for b' out'
    using Cons by simp
  show ?case
    using Cons.prems(1) IH by (cases "retrieve n b") (simp_all add: a flush_front.simps [of "Wrote n # answers"])
qed

subsection \<open>Properties\<close>

text \<open>C11: the close callback runs at most once. Whatever events the loop delivers to the connection,
  in whatever order and with whatever answers of the kernel, if the handlers return then the callback
  ran exactly once when the connection is disconnected at the end, and not at all otherwise.\<close>

theorem close_callback_once:
  assumes "conn_run evs c = Inr c'" and "\<not> has_flag (state_word c) Disconnected" and "CloseSeen \<notin> set (conn_log c)"
  shows "count_list (conn_log c') CloseSeen = (if has_flag (state_word c') Disconnected then 1 else 0)"
proof -
  have "conn_run evs c = Inr c' \<Longrightarrow> closed_once c \<Longrightarrow> closed_once c'" for evs c
    by (induction evs arbitrary: c) (auto simp: and_then_eq_Inr dest: conn_do_closed_once)
  moreover have "closed_once c" using assms(2,3) by (simp add: closed_once_def count_list_0_iff)
  ultimately show ?thesis using assms(1) unfolding closed_once_def by blast
qed


text \<open>A connection for the witnesses: descriptor 7, established, its message callback empties the buffer.\<close>

definition demo_net :: "conn_cb poller" where
  "demo_net = (Epoller 1)\<lparr>heap := [1 \<mapsto> (Channel 7 False)\<lparr>ch_idx := ch_added, listen_events := READ_EVENT\<rparr>],
     next_ptr := 2, m_channels := [7 \<mapsto> 1],
     syscalls := [EpollCtl EPOLL_CTL_ADD 7 (Some (READ_EVENT OR EPOLLET OR EPOLLRDHUP, 1))]\<rparr>"

definition demo_conn :: tcp_conn where
  "demo_conn = \<lparr>net = demo_net, conn_channel = 1, conn_self = 5, socket_fd = 7,
     inputBuffer = \<lparr>buf = [0, 0, 0], read_idx = 0, write_idx = 0\<rparr>, outputBuffers = [],
     state_word = Connected OR used, reading = True, rdhup_phrase = None, highWaterMark = 1000, oldLen = 0,
     connectionCallback = True, messageCallback = Some retrieveAll, OOB_messageCallback = False,
     writeCompleteCallback = True, highWaterMarkCallback = False, closeCallback = True, sent = [], conn_log = []\<rparr>"

lemma demo_conn_ok: "conn_ok demo_conn" "ready_to_send demo_conn" "\<not> has_flag (state_word demo_conn) Disconnected"
proof -
  have "READ_EVENT \<noteq> 0" by (simp add: flag_simps)
  then have "wf_poller demo_net"
    by (auto simp: wf_poller_def demo_net_def interest_def calls_legal_def wanted_fd_def wanted_def fun_eq_iff Channel_def)
  then show "conn_ok demo_conn"
    by (simp add: conn_ok_def demo_conn_def demo_net_def wf_buffer_def Channel_def)
  show "ready_to_send demo_conn"
    by (simp add: ready_to_send_def demo_conn_def demo_net_def Epoller_def isInLoopThread_def isWriting_def has_flag_def
        flag_simps Channel_def)
  show "\<not> has_flag (state_word demo_conn) Disconnected"
    by (simp add: demo_conn_def has_flag_def flag_simps)
qed

theorem close_callback_once_witness:
  "\<exists>c'. conn_run [InputErr 104, InputHup] demo_conn = Inr c' \<and> count_list (conn_log c') CloseSeen = 1"
proof -
  obtain p where p: "handle_ep_hup demo_conn = Inr (demo_conn\<lparr>net := p, socket_fd := -1, state_word := Disconnected,
      conn_log := conn_log demo_conn @ [CloseSeen]\<rparr>)"
    using handle_ep_hup_ok [OF demo_conn_ok(1,3)] by blast
  have d: "has_flag Disconnected Disconnected" by (simp add: has_flag_def flag_simps)
  obtain c' where c': "conn_run [InputErr 104, InputHup] demo_conn = Inr c'" "state_word c' = Disconnected"
    using p d by (simp add: handle_ep_err_def handle_ep_hup_def [of "demo_conn\<lparr>net := p, socket_fd := -1,
      state_word := Disconnected, conn_log := conn_log demo_conn @ [CloseSeen]\<rparr>"])
  have "CloseSeen \<notin> set (conn_log demo_conn)" by (simp add: demo_conn_def)
  from close_callback_once [OF c'(1) demo_conn_ok(3) this] c' d show ?thesis by auto
qed


text \<open>C18: a message sent from the loop thread on an established idle connection. If the kernel takes it
  in one write, after any number of interruptions, exactly its bytes go out once, the write-complete
  callback is queued if there is one, nothing is left to write and the state word is as before.\<close>

theorem send_whole_message:
  assumes "ready_to_send c" and "msg \<noteq> []"
  shows "\<exists>c'. send (replicate k (WriteFailed EINTR) @ [Wrote (length msg)]) msg c = Inr c'
    \<and> sent c' = sent c @ msg \<and> state_word c' = state_word c \<and> outputBuffers c' = []
    \<and> conn_log c' = conn_log c @ (if writeCompleteCallback c then [WriteCompleteQueued] else [])"
proof -
  have st: "state_word c = Connected OR used" "outputBuffers c = []" using assms(1) by (simp_all add: ready_to_send_def)
  have "length msg \<noteq> 0" using assms(2) by simp
  then show ?thesis
    using assms(2) st finish_free
    by (simp add: send_ready [OF assms(1)] write_interrupted write_whole Let_def log_event_def)
qed

theorem send_whole_message_witness:
  "\<exists>c'. send (replicate 2 (WriteFailed EINTR) @ [Wrote (length [1, 2, 3 :: byte])]) [1, 2, 3] demo_conn = Inr c'
    \<and> sent c' = [1, 2, 3] \<and> conn_log c' = [WriteCompleteQueued]"
proof -
  have "sent demo_conn = []" "conn_log demo_conn = []" "writeCompleteCallback demo_conn" by (simp_all add: demo_conn_def)
  with send_whole_message [OF demo_conn_ok(2), of "[1, 2, 3]" 2] show ?thesis by fastforce
qed

text \<open>A message the kernel takes only in part is not sent correctly. When the rest could be written
  in a second write, the bytes of the first one go out twice; when the socket is full after the first
  write, the rest is copied from an address before the message.\<close>

theorem partial_write_corrupts:
  assumes "ready_to_send c" and "0 < k" and "k < length msg"
  shows "(\<exists>c'. send [Wrote k, Wrote (length msg)] msg c = Inr c' \<and> sent c' = sent c @ take k msg @ msg)
    \<and> send [Wrote k, WriteFailed EAGAIN] msg c = Inl OutOfBounds"
proof -
  have m: "msg \<noteq> []" "length msg \<noteq> 0" "length msg - k \<noteq> 0" using assms(2,3) by auto
  have "\<exists>c'. send [Wrote k, Wrote (length msg)] msg c = Inr c' \<and> sent c' = sent c @ take k msg @ msg"
    using m assms(2,3) by (simp add: send_ready [OF assms(1)] write_partial write_whole Let_def log_event_def)
  moreover have "send [Wrote k, WriteFailed EAGAIN] msg c = Inl OutOfBounds"
    using m assms(2,3) by (simp add: send_ready [OF assms(1)] write_partial write_blocked store_rest_def Let_def)
  ultimately show ?thesis by blast
qed

theorem partial_write_corrupts_witness:
  "\<exists>c'. send [Wrote 1, Wrote (length [1, 2, 3 :: byte])] [1, 2, 3] demo_conn = Inr c' \<and> sent c' = [1, 1, 2, 3]"
proof -
  have "sent demo_conn = []" by (simp add: demo_conn_def)
  with partial_write_corrupts [OF demo_conn_ok(2), of 1 "[1, 2, 3]"] show ?thesis by fastforce
qed

text \<open>A queued output buffer is never written out by \<^verbatim>\<open>handle_ep_out\<close>: as long as every write
  succeeds the handler does not return, and after a first write that took the whole buffer a further
  successful write hits the assertion of \<^verbatim>\<open>retrieve\<close>, since the count of bytes left is not updated.\<close>

theorem output_flush_never_completes:
  assumes b: "outputBuffers c = b # bs" "wf_buffer b" "0 < readableBytes b"
  shows "(\<forall>answers. (\<forall>a \<in> set answers. \<exists>n. a = Wrote n) \<longrightarrow> (\<exists>e. handle_ep_out answers c = Inl e))
    \<and> (\<forall>n as. 0 < n \<and> n \<le> readableBytes b \<longrightarrow>
        handle_ep_out (Wrote (readableBytes b) # Wrote n # as) c = Inl AssertionFailure)"
proof -
  have "\<exists>e. handle_ep_out answers c = Inl e" if "\<forall>a \<in> set answers. \<exists>n. a = Wrote n" for answers
    using flush_front_positive [OF b(3), of answers b "sent c"] that b(1)
    by (auto simp: handle_ep_out_def Let_def)
  moreover have "handle_ep_out (Wrote (readableBytes b) # Wrote n # as) c = Inl AssertionFailure"
    if n: "0 < n" "n \<le> readableBytes b" for n as
  proof -
    have len: "read_idx b + readableBytes b \<le> length (buf b)" "readableBytes b \<le> length (buf b)"
      using b(2) by (auto simp: wf_buffer_def readableBytes_def)
    have r: "retrieve (readableBytes b) b = Inr (retrieveAll b)" by (simp add: retrieve_def)
    have r': "retrieve n (retrieveAll b) = Inl AssertionFailure" "read_idx (retrieveAll b) = 0" "buf (retrieveAll b) = buf b"
      using n by (simp_all add: retrieve_def retrieveAll_def readableBytes_def)
    have "flush_front (Wrote (readableBytes b) # Wrote n # as) (readableBytes b) b (sent c) = Inl AssertionFailure"
      using b(3) len n r r' by (simp add: flush_front.simps [of "Wrote _ # _"] not_less)
    then show ?thesis using b(1) by (simp add: handle_ep_out_def Let_def)
  qed
  ultimately show ?thesis by blast
qed

theorem output_flush_never_completes_witness:
  "handle_ep_out [Wrote 2, Wrote 1] (demo_conn\<lparr>outputBuffers := [\<lparr>buf = [8, 9], read_idx = 0, write_idx = 2\<rparr>]\<rparr>)
    = Inl AssertionFailure"
proof -
  let ?b = "\<lparr>buf = [8, 9], read_idx = 0, write_idx = 2\<rparr>"
  have b: "wf_buffer ?b" "readableBytes ?b = 2" by (simp_all add: wf_buffer_def readableBytes_def)
  with output_flush_never_completes [of "demo_conn\<lparr>outputBuffers := [?b]\<rparr>" ?b "[]"] show ?thesis by simp
qed

end
