(* ===== verification/Number_Text.thy ===== *)
theory Number_Text
  imports Net_Prelude "HOL-Library.Signed_Division"
begin

text \<open>
  Decimal numbers in text, as the C++ standard library reads them: the value of a digit string
  and \<^verbatim>\<open>std::stoi\<close> (base 10, 32-bit \<^verbatim>\<open>int\<close>). The log stream prints the numbers
  and the URL parser of \<^verbatim>\<open>src/src/https/http_util.cpp\<close> reads a port with it.
\<close>

subsection \<open>Digits\<close>

definition is_digit :: "char \<Rightarrow> bool" where
  "is_digit c \<longleftrightarrow> 48 \<le> (of_char c :: nat) \<and> (of_char c :: nat) \<le> 57"

definition digit_value :: "char \<Rightarrow> int" where
  "digit_value c = int (of_char c) - 48"

definition digit_char :: "nat \<Rightarrow> char" where
  "digit_char d = char_of (48 + d)"

lemma digit_char_is_digit [simp]: "d < 10 \<Longrightarrow> is_digit (digit_char d)"
  by (simp add: is_digit_def digit_char_def)

lemma digit_value_char [simp]: "d < 10 \<Longrightarrow> digit_value (digit_char d) = int d"
  by (simp add: digit_value_def digit_char_def)

definition dec_value :: "string \<Rightarrow> int" where
  "dec_value cs = foldl (\<lambda>n c. 10 * n + digit_value c) 0 cs"

lemma dec_value_Nil [simp]: "dec_value [] = 0"
  by (simp add: dec_value_def)

lemma dec_value_snoc [simp]: "dec_value (cs @ [c]) = 10 * dec_value cs + digit_value c"
  by (simp add: dec_value_def)

subsection \<open>std::stoi\<close>

text \<open>
  \<^verbatim>\<open>std::stoi\<close> skips white space, takes a sign, reads the longest run of digits and ignores
  what follows. It throws \<^verbatim>\<open>std::invalid_argument\<close> when there is no digit and
  \<^verbatim>\<open>std::out_of_range\<close> when the value is no \<^verbatim>\<open>int\<close>.
\<close>

definition is_space :: "char \<Rightarrow> bool" where
  "is_space c \<longleftrightarrow> c = CHR '' '' \<or> (9 \<le> (of_char c :: nat) \<and> (of_char c :: nat) \<le> 13)"

definition int_range :: "int \<Rightarrow> bool" where
  "int_range v \<longleftrightarrow> - (2 ^ 31) \<le> v \<and> v < 2 ^ 31"

fun take_sign :: "string \<Rightarrow> int \<times> string" where
  "take_sign (c # cs) =
     (if c = CHR ''-'' then (-1, cs) else if c = CHR ''+'' then (1, cs) else (1, c # cs))"
| "take_sign [] = (1, [])"

definition stoi :: "string \<Rightarrow> int outcome" where
  "stoi s =
    (let (sgn, rest) = take_sign (dropWhile is_space s);
         ds = takeWhile is_digit rest;
         v = sgn * dec_value ds
     in if ds = [] then Inl UncaughtException
        else if int_range v then Inr v else Inl UncaughtException)"

lemma is_digit_not_space: "is_digit c \<Longrightarrow> \<not> is_space c"
  by (auto simp: is_digit_def is_space_def)

lemma is_digit_not_sign: "is_digit c \<Longrightarrow> c \<noteq> CHR ''-'' \<and> c \<noteq> CHR ''+''"
  by (auto simp: is_digit_def)

lemma takeWhile_all: "list_all P xs \<Longrightarrow> takeWhile P xs = xs"
  by (induction xs) auto

lemma stoi_all_digits:
  assumes "list_all is_digit ds" and "ds \<noteq> []"
  shows "stoi ds = (if int_range (dec_value ds) then Inr (dec_value ds) else Inl UncaughtException)"
proof -
  obtain c cs where ds: "ds = c # cs" using assms(2) by (cases ds) auto
  with assms(1) have "is_digit c" by simp
  then have "dropWhile is_space ds = ds" and "take_sign ds = (1, ds)"
    using is_digit_not_space is_digit_not_sign by (auto simp: ds)
  then show ?thesis using assms by (simp add: stoi_def takeWhile_all)
qed

lemma stoi_digits:
  assumes "list_all is_digit ds" and "ds \<noteq> []" and "int_range (dec_value ds)"
  shows "stoi ds = Inr (dec_value ds)"
  using assms(3) by (simp add: stoi_all_digits[OF assms(1,2)])

lemma stoi_digits_out_of_range:
  assumes "list_all is_digit ds" and "ds \<noteq> []" and "\<not> int_range (dec_value ds)"
  shows "stoi ds = Inl UncaughtException"
  using assms(3) by (simp add: stoi_all_digits[OF assms(1,2)])

lemma stoi_minus_digits:
  assumes "list_all is_digit ds" and "ds \<noteq> []" and "int_range (- dec_value ds)"
  shows "stoi (CHR ''-'' # ds) = Inr (- dec_value ds)"
proof -
  have "dropWhile is_space (CHR ''-'' # ds) = CHR ''-'' # ds" by (simp add: is_space_def)
  then show ?thesis using assms by (simp add: stoi_def takeWhile_all)
qed

end
