(* ===== verification/Log_Stream.thy ===== *)
theory Log_Stream
  imports Number_Text
begin

text \<open>
  The formatting half of the loggers, \<^verbatim>\<open>src/src/Loggers/LogStream.h\<close> and
  \<^verbatim>\<open>LogStream.cpp\<close>: the fixed array a line is built in, the digit loops that print into it
  and the insertion operators of \<^verbatim>\<open>LogStream\<close>. Writes are checked against the size of the
  array, so that an overflow is an error of the model. The text of a \<^verbatim>\<open>double\<close> is what
  \<^verbatim>\<open>snprintf\<close> makes of it, a parameter.
\<close>

subsection \<open>FixedBuffer\<close>

text \<open>\<open>data\<close> is the array (its length is \<open>SIZE\<close>), \<open>cur\<close> the offset of the write pointer.\<close>

record FixedBuffer =
  data :: string
  cur :: nat

definition fb_length :: "FixedBuffer \<Rightarrow> nat" where
  "fb_length b = cur b"

definition fb_avail :: "FixedBuffer \<Rightarrow> int" where
  "fb_avail b = int (length (data b)) - int (cur b)"

definition fb_toString :: "FixedBuffer \<Rightarrow> string" where
  "fb_toString b = take (fb_length b) (data b)"

definition fb_reset :: "FixedBuffer \<Rightarrow> FixedBuffer" where
  "fb_reset b = b\<lparr>cur := 0\<rparr>"

definition fb_add :: "nat \<Rightarrow> FixedBuffer \<Rightarrow> FixedBuffer" where
  "fb_add off b = b\<lparr>cur := cur b + off\<rparr>"

definition fb_bzero :: "FixedBuffer \<Rightarrow> FixedBuffer" where
  "fb_bzero b = b\<lparr>data := replicate (length (data b)) (CHR 0x00)\<rparr>"

text \<open>A store of consecutive characters through a pointer into the array.\<close>

definition fb_store :: "nat \<Rightarrow> string \<Rightarrow> FixedBuffer \<Rightarrow> FixedBuffer outcome" where
  "fb_store i cs b =
    (if i + length cs \<le> length (data b) then Inr (b\<lparr>data := overwrite (data b) i cs\<rparr>)
     else Inl OutOfBounds)"

text \<open>
  \<^verbatim>\<open>append(str, len)\<close>: \<open>len\<close> is an \<^verbatim>\<open>int\<close>; a negative one passes the test and makes the
  \<^verbatim>\<open>memcpy\<close> undefined, one beyond the source object reads outside it.
\<close>

definition fb_append :: "string \<Rightarrow> int \<Rightarrow> FixedBuffer \<Rightarrow> FixedBuffer outcome" where
  "fb_append str len b =
    (if fb_avail b \<ge> len then
       if len < 0 then Inl UndefinedBehaviour
       else if int (length str) < len then Inl OutOfBounds
       else and_then (fb_store (cur b) (take (nat len) str) b) (\<lambda>b. Inr (fb_add (nat len) b))
     else Inr b)"

subsection \<open>Printing integers\<close>

definition digits :: string where
  "digits = ''9876543210123456789''"

text \<open>\<^verbatim>\<open>zero[lsd]\<close> with \<^verbatim>\<open>zero = digits + 9\<close>.\<close>

definition zero_at :: "int \<Rightarrow> char" where
  "zero_at lsd = digits ! nat (9 + lsd)"

definition digitsHex :: string where
  "digitsHex = ''0123456789ABCDEF''"

text \<open>The characters the loop of \<^verbatim>\<open>convert\<close> stores, in the order it stores them.\<close>

function convert_loop :: "int \<Rightarrow> string" where
  "convert_loop i =
    (let lsd = i smod 10; i' = i sdiv 10
     in zero_at lsd # (if i' \<noteq> 0 then convert_loop i' else []))"
  by pat_completeness auto
termination
proof (relation "measure (\<lambda>i. nat \<bar>i\<bar>)", goal_cases)
  case 1
  then show ?case by simp
next
  case (2 i lsd i')
  then have "i \<noteq> 0" by (auto simp: signed_divide_int_def)
  moreover have "\<bar>i'\<bar> = \<bar>i\<bar> div 10" using 2 by (auto simp: signed_divide_int_def abs_mult)
  ultimately show ?case by simp
qed

declare convert_loop.simps [simp del]

text \<open>
  \<^verbatim>\<open>convert(buf, value)\<close> with \<^verbatim>\<open>buf\<close> at offset \<open>i\<close>: the digits, the sign, the terminating
  NUL behind them, and the reversal. Every \<^verbatim>\<open>T\<close> it is used at is a machine integer, and neither
  \<^verbatim>\<open>%\<close> nor \<^verbatim>\<open>/\<close> by 10 leaves its range, so the value is an \<^typ>\<open>int\<close>.
\<close>

definition convert :: "nat \<Rightarrow> int \<Rightarrow> FixedBuffer \<Rightarrow> (nat \<times> FixedBuffer) outcome" where
  "convert i v b =
    (let written = convert_loop v @ (if v < 0 then ''-'' else [])
     in and_then (fb_store i (written @ [CHR 0x00]) b) (\<lambda>b.
        and_then (fb_store i (rev written) b) (\<lambda>b. Inr (length written, b))))"

function convertHex_loop :: "u64 \<Rightarrow> string" where
  "convertHex_loop i =
    (let lsd = unat (i mod 16); i' = i div 16
     in digitsHex ! lsd # (if i' \<noteq> 0 then convertHex_loop i' else []))"
  by pat_completeness auto
termination
proof (relation "measure unat", goal_cases)
  case 1
  then show ?case by simp
next
  case (2 i lsd i')
  then have "unat i' = unat i div 16" by (simp add: unat_div)
  moreover have "unat i' \<noteq> 0" using 2 by (simp add: unat_eq_0)
  ultimately show ?case by simp
qed

declare convertHex_loop.simps [simp del]

definition convertHex :: "nat \<Rightarrow> u64 \<Rightarrow> FixedBuffer \<Rightarrow> (nat \<times> FixedBuffer) outcome" where
  "convertHex i v b =
    (let written = convertHex_loop v
     in and_then (fb_store i (written @ [CHR 0x00]) b) (\<lambda>b.
        and_then (fb_store i (rev written) b) (\<lambda>b. Inr (length written, b))))"

subsection \<open>LogStream\<close>

record LogStream =
  buffer :: FixedBuffer

definition MaxNumericSize :: int where
  "MaxNumericSize = 48"

text \<open>A \<^verbatim>\<open>size_t\<close> passed for an \<^verbatim>\<open>int\<close> parameter.\<close>

definition size_to_int :: "nat \<Rightarrow> int" where
  "size_to_int n = sint (word_of_nat n :: 32 word)"

definition stream_append :: "string \<Rightarrow> int \<Rightarrow> LogStream \<Rightarrow> LogStream outcome" where
  "stream_append str len s = and_then (fb_append str len (buffer s)) (\<lambda>b. Inr (s\<lparr>buffer := b\<rparr>))"

definition stream_reset :: "LogStream \<Rightarrow> LogStream" where
  "stream_reset s = s\<lparr>buffer := fb_reset (buffer s)\<rparr>"

definition formatedInt :: "int \<Rightarrow> LogStream \<Rightarrow> LogStream outcome" where
  "formatedInt v s =
    (if fb_avail (buffer s) \<ge> MaxNumericSize then
       and_then (convert (cur (buffer s)) v (buffer s)) (\<lambda>(len, b).
         Inr (s\<lparr>buffer := fb_add len b\<rparr>))
     else Inr s)"

definition put_bool :: "bool \<Rightarrow> LogStream \<Rightarrow> LogStream outcome" where
  "put_bool v s = stream_append (if v then ''1'' else ''0'') 1 s"

definition put_short :: "16 word \<Rightarrow> LogStream \<Rightarrow> LogStream outcome" where
  "put_short v s = formatedInt (sint (scast v :: 32 word)) s"

definition put_ushort :: "16 word \<Rightarrow> LogStream \<Rightarrow> LogStream outcome" where
  "put_ushort v s = formatedInt (uint (ucast v :: 32 word)) s"

definition put_int :: "32 word \<Rightarrow> LogStream \<Rightarrow> LogStream outcome" where
  "put_int v s = formatedInt (sint v) s"

definition put_uint :: "32 word \<Rightarrow> LogStream \<Rightarrow> LogStream outcome" where
  "put_uint v s = formatedInt (uint v) s"

text \<open>\<^verbatim>\<open>long\<close> and \<^verbatim>\<open>long long\<close> are both 64 bits wide on the platforms of the program.\<close>

definition put_long :: "64 word \<Rightarrow> LogStream \<Rightarrow> LogStream outcome" where
  "put_long v s = formatedInt (sint v) s"

definition put_ulong :: "64 word \<Rightarrow> LogStream \<Rightarrow> LogStream outcome" where
  "put_ulong v s = formatedInt (uint v) s"

text \<open>
  \<^verbatim>\<open>snprintf(cur, 48, "%.12g", v)\<close> stores at most 47 characters of the text and a NUL and
  returns the length of the whole text.
\<close>

definition put_double :: "('d \<Rightarrow> string) \<Rightarrow> 'd \<Rightarrow> LogStream \<Rightarrow> LogStream outcome" where
  "put_double fmt v s =
    (if fb_avail (buffer s) \<ge> MaxNumericSize then
       and_then (fb_store (cur (buffer s)) (take 47 (fmt v) @ [CHR 0x00]) (buffer s)) (\<lambda>b.
         Inr (s\<lparr>buffer := fb_add (length (fmt v)) b\<rparr>))
     else Inr s)"

definition put_float :: "('d \<Rightarrow> string) \<Rightarrow> ('f \<Rightarrow> 'd) \<Rightarrow> 'f \<Rightarrow> LogStream \<Rightarrow> LogStream outcome" where
  "put_float fmt widen v s = put_double fmt (widen v) s"

definition put_pointer :: "u64 \<Rightarrow> LogStream \<Rightarrow> LogStream outcome" where
  "put_pointer v s =
    (if fb_avail (buffer s) \<ge> MaxNumericSize then
       and_then (fb_store (cur (buffer s)) ''0x'' (buffer s)) (\<lambda>b.
       and_then (convertHex (cur b + 2) v b) (\<lambda>(len, b).
         Inr (s\<lparr>buffer := fb_add (len + 2) b\<rparr>)))
     else Inr s)"

text \<open>A \<^verbatim>\<open>const char*\<close>: null, or a pointer to the characters before the NUL.\<close>

definition put_cstr :: "string option \<Rightarrow> LogStream \<Rightarrow> LogStream outcome" where
  "put_cstr p s =
    (case p of
       Some str \<Rightarrow> stream_append str (size_to_int (length str)) s
     | None \<Rightarrow> stream_append ''(null)'' 6 s)"

definition put_string :: "string \<Rightarrow> LogStream \<Rightarrow> LogStream outcome" where
  "put_string str s = stream_append str (size_to_int (length str)) s"

definition put_buffer :: "FixedBuffer \<Rightarrow> LogStream \<Rightarrow> LogStream outcome" where
  "put_buffer b s = put_string (fb_toString b) s"

definition put_char :: "char \<Rightarrow> LogStream \<Rightarrow> LogStream outcome" where
  "put_char c s = stream_append [c] 1 s"

text \<open>The overloads of \<^verbatim>\<open>operator<<\<close>, selected by the type of the operand.\<close>

datatype 'd operand =
    OBool bool
  | OShort "16 word"
  | OUShort "16 word"
  | OInt "32 word"
  | OUInt "32 word"
  | OLong "64 word"
  | OULong "64 word"
  | ODouble 'd
  | OPointer u64
  | OCStr "string option"
  | OString string
  | OBuffer FixedBuffer
  | OChar char

fun put :: "('d \<Rightarrow> string) \<Rightarrow> 'd operand \<Rightarrow> LogStream \<Rightarrow> LogStream outcome" where
  "put fmt (OBool v) s = put_bool v s"
| "put fmt (OShort v) s = put_short v s"
| "put fmt (OUShort v) s = put_ushort v s"
| "put fmt (OInt v) s = put_int v s"
| "put fmt (OUInt v) s = put_uint v s"
| "put fmt (OLong v) s = put_long v s"
| "put fmt (OULong v) s = put_ulong v s"
| "put fmt (ODouble v) s = put_double fmt v s"
| "put fmt (OPointer v) s = put_pointer v s"
| "put fmt (OCStr p) s = put_cstr p s"
| "put fmt (OString t) s = put_string t s"
| "put fmt (OBuffer b) s = put_buffer b s"
| "put fmt (OChar c) s = put_char c s"

text \<open>A chain \<^verbatim>\<open>stream << x << y << ...\<close>.\<close>

definition put_chain :: "('d \<Rightarrow> string) \<Rightarrow> 'd operand list \<Rightarrow> LogStream \<Rightarrow> LogStream outcome" where
  "put_chain fmt xs s = put_list (\<lambda>s x. put fmt x s) xs s"

subsection \<open>Writes into the buffer\<close>

definition fb_ok :: "FixedBuffer \<Rightarrow> bool" where
  "fb_ok b \<longleftrightarrow> cur b \<le> length (data b)"

text \<open>\<open>wrote b t b'\<close>: \<open>b'\<close> is \<open>b\<close> with the text \<open>t\<close> added, in the same array.\<close>

definition wrote :: "FixedBuffer \<Rightarrow> string \<Rightarrow> FixedBuffer \<Rightarrow> bool" where
  "wrote b t b' \<longleftrightarrow> fb_ok b' \<and> length (data b') = length (data b)
     \<and> fb_toString b' = fb_toString b @ t"

lemma fb_avail_ge: "fb_ok b \<Longrightarrow> fb_avail b \<ge> int n \<longleftrightarrow> cur b + n \<le> length (data b)"
  by (auto simp: fb_ok_def fb_avail_def)

lemma fb_store_add_wrote:
  assumes "cur b + length t \<le> length (data b)"
  shows "wrote b t (fb_add (length t) (b\<lparr>data := overwrite (data b) (cur b) t\<rparr>))"
  using assms by (simp add: wrote_def fb_ok_def fb_add_def fb_toString_def fb_length_def)

lemma fb_append_spec:
  assumes "fb_ok b"
  shows "\<exists>b'. fb_append t (int (length t)) b = Inr b' \<and>
    (if cur b + length t \<le> length (data b) then wrote b t b' else b' = b)"
proof (cases "cur b + length t \<le> length (data b)")
  case True
  then show ?thesis
    using fb_store_add_wrote[OF True] assms
    by (simp add: fb_append_def fb_avail_ge fb_store_def)
next
  case False
  then show ?thesis using assms by (simp add: fb_append_def fb_avail_ge)
qed

text \<open>A second store over the front of the first one.\<close>

lemma overwrite_twice:
  "length ys \<le> length zs \<Longrightarrow> i + length zs \<le> length xs \<Longrightarrow>
   take (i + length ys) (overwrite (overwrite xs i zs) i ys) = take i xs @ ys"
  by (simp add: overwrite_def)

lemma store_reversed_wrote:
  assumes "cur b + length w < length (data b)" and that: "i = cur b"
  shows "\<exists>b'. and_then (fb_store i (w @ [CHR 0x00]) b) (\<lambda>b.
      and_then (fb_store i (rev w) b) (\<lambda>b. Inr (length w, b))) = Inr (length w, b')
    \<and> wrote b (rev w) (fb_add (length w) b')"
proof -
  let ?d = "overwrite (data b) (cur b) (w @ [CHR 0x00])"
  let ?b = "b\<lparr>data := overwrite ?d (cur b) (rev w)\<rparr>"
  have len: "length ?d = length (data b)" using assms by simp
  have "take (cur b + length w) (overwrite ?d (cur b) (rev w)) = take (cur b) (data b) @ rev w"
    using overwrite_twice[of "rev w" "w @ [CHR 0x00]" "cur b" "data b"] assms by simp
  then have "wrote b (rev w) (fb_add (length w) ?b)"
    using assms len by (simp add: wrote_def fb_ok_def fb_add_def fb_toString_def fb_length_def)
  moreover have "and_then (fb_store i (w @ [CHR 0x00]) b) (\<lambda>b.
      and_then (fb_store i (rev w) b) (\<lambda>b. Inr (length w, b))) = Inr (length w, ?b)"
    using assms len that by (simp add: fb_store_def)
  ultimately show ?thesis by blast
qed

subsection \<open>The printed digits\<close>

text \<open>Reference: the decimal and the hexadecimal digits of a number, most significant first.\<close>

fun dec_digits :: "nat \<Rightarrow> string" where
  "dec_digits n = (if n < 10 then [digit_char n] else dec_digits (n div 10) @ [digit_char (n mod 10)])"

fun hex_digits :: "nat \<Rightarrow> string" where
  "hex_digits n =
    (if n < 16 then [digitsHex ! n] else hex_digits (n div 16) @ [digitsHex ! (n mod 16)])"

declare dec_digits.simps [simp del] hex_digits.simps [simp del]

definition show_int :: "int \<Rightarrow> string" where
  "show_int v = (if v < 0 then ''-'' else []) @ dec_digits (nat \<bar>v\<bar>)"

lemma zero_at_abs: "\<bar>d\<bar> < 10 \<Longrightarrow> zero_at d = digit_char (nat \<bar>d\<bar>)"
proof -
  have all: "\<forall>d \<in> set [-9..9]. zero_at d = digit_char (nat \<bar>d\<bar>)" by code_simp
  assume "\<bar>d\<bar> < 10"
  then have "d \<in> set [-9..9]" by auto
  with all show ?thesis by blast
qed

lemma sdiv_10: "\<bar>i sdiv 10\<bar> = \<bar>i\<bar> div (10 :: int)"
  by (auto simp: signed_divide_int_def abs_mult)

lemma smod_10: "\<bar>i smod 10\<bar> = \<bar>i\<bar> mod (10 :: int)"
proof -
  have "i smod 10 = sgn i * (\<bar>i\<bar> mod 10)"
    by (simp add: signed_modulo_int_def)
  then show ?thesis by (cases "i = 0") (auto simp: abs_mult)
qed

lemma rev_convert_loop: "rev (convert_loop i) = dec_digits (nat \<bar>i\<bar>)"
proof (induction i rule: convert_loop.induct)
  case (1 i)
  let ?n = "nat \<bar>i\<bar>"
  have z: "zero_at (i smod 10) = digit_char (?n mod 10)"
    by (simp add: zero_at_abs smod_10 nat_mod_distrib)
  have q: "nat \<bar>i sdiv 10\<bar> = ?n div 10" by (simp add: sdiv_10 nat_div_distrib)
  have nz: "i sdiv 10 = 0 \<longleftrightarrow> ?n < 10"
    using sdiv_10[of i] by linarith
  show ?case
  proof (cases "i sdiv 10 = 0")
    case True
    then show ?thesis
      using z nz by (subst convert_loop.simps, subst dec_digits.simps) (simp add: Let_def)
  next
    case False
    with 1 q have "rev (convert_loop (i sdiv 10)) = dec_digits (?n div 10)" by simp
    then show ?thesis
      using False z nz by (subst convert_loop.simps, subst dec_digits.simps) (simp add: Let_def)
  qed
qed

lemma rev_convertHex_loop: "rev (convertHex_loop i) = hex_digits (unat i)"
proof (induction i rule: convertHex_loop.induct)
  case (1 i)
  have m: "unat (i mod 16) = unat i mod 16" and q: "unat (i div 16) = unat i div 16"
    by (simp_all add: unat_mod unat_div)
  have nz: "i div 16 = 0 \<longleftrightarrow> unat i < 16"
    using q by (metis div_eq_0_iff unat_eq_0 zero_neq_numeral)
  show ?case
  proof (cases "i div 16 = 0")
    case True
    then show ?thesis
      using m nz by (subst convertHex_loop.simps, subst hex_digits.simps) (simp add: Let_def)
  next
    case False
    with 1 q have "rev (convertHex_loop (i div 16)) = hex_digits (unat i div 16)" by simp
    then show ?thesis
      using False m nz by (subst convertHex_loop.simps, subst hex_digits.simps) (simp add: Let_def)
  qed
qed

lemma length_dec_digits: "n < 10 ^ k \<Longrightarrow> 0 < k \<Longrightarrow> length (dec_digits n) \<le> k"
proof (induction n arbitrary: k rule: dec_digits.induct)
  case (1 n)
  show ?case
  proof (cases "n < 10")
    case True
    then show ?thesis using 1 by (subst dec_digits.simps) simp
  next
    case False
    then obtain k' where k: "k = Suc k'" "0 < k'" using 1 by (cases k; cases "k - 1") auto
    have "n div 10 < 10 ^ k'" using 1(2) k by (simp add: less_mult_imp_div_less mult.commute)
    with 1(1)[OF False] k show ?thesis using False by (subst dec_digits.simps) simp
  qed
qed

lemma length_hex_digits: "n < 16 ^ k \<Longrightarrow> 0 < k \<Longrightarrow> length (hex_digits n) \<le> k"
proof (induction n arbitrary: k rule: hex_digits.induct)
  case (1 n)
  show ?case
  proof (cases "n < 16")
    case True
    then show ?thesis using 1 by (subst hex_digits.simps) simp
  next
    case False
    then obtain k' where k: "k = Suc k'" "0 < k'" using 1 by (cases k; cases "k - 1") auto
    have "n div 16 < 16 ^ k'" using 1(2) k by (simp add: less_mult_imp_div_less mult.commute)
    with 1(1)[OF False] k show ?thesis using False by (subst hex_digits.simps) simp
  qed
qed

lemma dec_digits_value: "dec_value (dec_digits n) = int n"
proof (induction n rule: dec_digits.induct)
  case (1 n)
  show ?case
  proof (cases "n < 10")
    case True
    then show ?thesis by (subst dec_digits.simps) (simp add: dec_value_def)
  next
    case False
    then have "dec_value (dec_digits n) = 10 * int (n div 10) + int (n mod 10)"
      using 1 by (subst dec_digits.simps) simp
    then show ?thesis by (simp add: zdiv_int zmod_int)
  qed
qed

lemma dec_digits_digits: "list_all is_digit (dec_digits n)"
proof (induction n rule: dec_digits.induct)
  case (1 n)
  then show ?case by (subst dec_digits.simps) simp
qed

lemma dec_digits_not_Nil: "dec_digits n \<noteq> []"
  by (subst dec_digits.simps) simp

lemma hd_dec_digits: "0 < n \<Longrightarrow> hd (dec_digits n) \<noteq> CHR ''0''"
proof (induction n rule: dec_digits.induct)
  case (1 n)
  show ?case
  proof (cases "n < 10")
    case True
    then have "digit_value (digit_char n) = int n" by simp
    moreover have "digit_value (CHR ''0'') = 0" by code_simp
    ultimately have "digit_char n \<noteq> CHR ''0''" using 1(2) by force
    then show ?thesis using True by (subst dec_digits.simps) simp
  next
    case False
    with 1 show ?thesis by (subst dec_digits.simps) (simp add: dec_digits_not_Nil)
  qed
qed

lemma stoi_show_int: "int_range v \<Longrightarrow> stoi (show_int v) = Inr v"
  by (auto simp: show_int_def stoi_digits stoi_minus_digits dec_digits_digits
      dec_digits_not_Nil dec_digits_value)


subsection \<open>The operators add the printed text or nothing\<close>

definition stream_text :: "LogStream \<Rightarrow> string" where
  "stream_text s = fb_toString (buffer s)"

text \<open>A \<^verbatim>\<open>LogStream\<close> writes into a \<^verbatim>\<open>FixedBuffer<4096>\<close>.\<close>

definition stream_ok :: "LogStream \<Rightarrow> bool" where
  "stream_ok s \<longleftrightarrow> fb_ok (buffer s) \<and> length (data (buffer s)) = 4096"

definition new_stream :: LogStream where
  "new_stream = \<lparr>buffer = \<lparr>data = replicate 4096 (CHR 0x00), cur = 0\<rparr>\<rparr>"

lemma new_stream_ok [simp]: "stream_ok new_stream" "stream_text new_stream = []"
  by (simp_all add: stream_ok_def new_stream_def fb_ok_def stream_text_def fb_toString_def
      fb_length_def)

text \<open>The specification: what an operand prints, the room its operator insists on, and the rule.\<close>

fun operand_text :: "('d \<Rightarrow> string) \<Rightarrow> 'd operand \<Rightarrow> string" where
  "operand_text fmt (OBool v) = (if v then ''1'' else ''0'')"
| "operand_text fmt (OShort v) = show_int (sint v)"
| "operand_text fmt (OUShort v) = show_int (uint v)"
| "operand_text fmt (OInt v) = show_int (sint v)"
| "operand_text fmt (OUInt v) = show_int (uint v)"
| "operand_text fmt (OLong v) = show_int (sint v)"
| "operand_text fmt (OULong v) = show_int (uint v)"
| "operand_text fmt (ODouble v) = fmt v"
| "operand_text fmt (OPointer v) = ''0x'' @ hex_digits (unat v)"
| "operand_text fmt (OCStr None) = ''(null)''"
| "operand_text fmt (OCStr (Some t)) = t"
| "operand_text fmt (OString t) = t"
| "operand_text fmt (OBuffer b) = fb_toString b"
| "operand_text fmt (OChar c) = [c]"

fun numeric :: "'d operand \<Rightarrow> bool" where
  "numeric (OShort v) = True"
| "numeric (OUShort v) = True"
| "numeric (OInt v) = True"
| "numeric (OUInt v) = True"
| "numeric (OLong v) = True"
| "numeric (OULong v) = True"
| "numeric (ODouble v) = True"
| "numeric (OPointer v) = True"
| "numeric _ = False"

definition operand_room :: "('d \<Rightarrow> string) \<Rightarrow> 'd operand \<Rightarrow> nat" where
  "operand_room fmt x = (if numeric x then 48 else length (operand_text fmt x))"

text \<open>Operands of a real program: strings shorter than 2 GiB, a double of less than 48 characters.\<close>

definition operand_ok :: "('d \<Rightarrow> string) \<Rightarrow> 'd operand \<Rightarrow> bool" where
  "operand_ok fmt x \<longleftrightarrow>
     (if numeric x then length (operand_text fmt x) < 48
      else length (operand_text fmt x) < 2 ^ 31)"

definition spec_put :: "nat \<Rightarrow> ('d \<Rightarrow> string) \<Rightarrow> 'd operand \<Rightarrow> string \<Rightarrow> string" where
  "spec_put cap fmt x t =
     (if length t + operand_room fmt x \<le> cap then t @ operand_text fmt x else t)"

text \<open>\<open>adds s n t r\<close>: the result \<open>r\<close> is \<open>s\<close> with \<open>t\<close> added when \<open>n\<close> characters fit, else \<open>s\<close>.\<close>

definition adds :: "LogStream \<Rightarrow> nat \<Rightarrow> string \<Rightarrow> LogStream outcome \<Rightarrow> bool" where
  "adds s n t r \<longleftrightarrow> (\<exists>s'. r = Inr s' \<and> stream_ok s' \<and>
     stream_text s' = (if length (stream_text s) + n \<le> 4096 then stream_text s @ t else stream_text s))"

lemma length_stream_text: "stream_ok s \<Longrightarrow> length (stream_text s) = cur (buffer s)"
  by (simp add: stream_ok_def fb_ok_def stream_text_def fb_toString_def fb_length_def)

lemma wrote_stream:
  "stream_ok s \<Longrightarrow> wrote (buffer s) t b \<Longrightarrow>
   stream_ok (s\<lparr>buffer := b\<rparr>) \<and> stream_text (s\<lparr>buffer := b\<rparr>) = stream_text s @ t"
  by (simp add: wrote_def stream_ok_def stream_text_def)

lemma stream_append_adds:
  assumes "stream_ok s" and "len = int (length t)"
  shows "adds s (length t) t (stream_append t len s)"
proof -
  have ok: "fb_ok (buffer s)" and len: "length (data (buffer s)) = 4096"
    using assms(1) by (auto simp: stream_ok_def)
  obtain b where b: "fb_append t len (buffer s) = Inr b"
    and w: "if cur (buffer s) + length t \<le> 4096 then wrote (buffer s) t b else b = buffer s"
    using fb_append_spec[OF ok, of t] assms(2) len by auto
  have "stream_append t len s = Inr (s\<lparr>buffer := b\<rparr>)" using b by (simp add: stream_append_def)
  then show ?thesis
    using w wrote_stream[OF assms(1)] length_stream_text[OF assms(1)] assms(1)
    by (auto simp: adds_def split: if_splits)
qed

lemma convert_wrote:
  assumes "cur b + 22 \<le> length (data b)" and "\<bar>v\<bar> < 10 ^ 20"
  shows "\<exists>len b'. convert (cur b) v b = Inr (len, b') \<and> wrote b (show_int v) (fb_add len b')"
proof -
  let ?w = "convert_loop v @ (if v < 0 then ''-'' else [])"
  have r: "rev ?w = show_int v" by (simp add: show_int_def rev_convert_loop)
  have "nat \<bar>v\<bar> < 10 ^ 20" using assms(2) by (simp add: nat_less_iff)
  then have "length (dec_digits (nat \<bar>v\<bar>)) \<le> 20" by (rule length_dec_digits) simp
  then have "length (rev ?w) \<le> 21" unfolding r by (auto simp: show_int_def abs_if)
  then have fits: "cur b + length ?w < length (data b)" using assms(1) by simp
  show ?thesis
    using store_reversed_wrote[OF fits refl] unfolding r convert_def Let_def by blast
qed

lemma formatedInt_adds:
  assumes "stream_ok s" and "\<bar>v\<bar> < 10 ^ 20"
  shows "adds s 48 (show_int v) (formatedInt v s)"
proof -
  have ok: "fb_ok (buffer s)" and len: "length (data (buffer s)) = 4096"
    using assms(1) by (auto simp: stream_ok_def)
  have room: "fb_avail (buffer s) \<ge> MaxNumericSize \<longleftrightarrow> cur (buffer s) + 48 \<le> 4096"
    using fb_avail_ge[OF ok, of 48] len by (simp add: MaxNumericSize_def)
  show ?thesis
  proof (cases "cur (buffer s) + 48 \<le> 4096")
    case True
    then obtain n b where "convert (cur (buffer s)) v (buffer s) = Inr (n, b)"
      and "wrote (buffer s) (show_int v) (fb_add n b)"
      using convert_wrote[of "buffer s" v] assms(2) len by auto
    then show ?thesis
      using True room wrote_stream[OF assms(1)] length_stream_text[OF assms(1)]
      by (simp add: adds_def formatedInt_def)
  next
    case False
    then show ?thesis
      using room assms(1) length_stream_text[OF assms(1)] by (simp add: adds_def formatedInt_def)
  qed
qed

lemma put_double_adds:
  assumes "stream_ok s" and "length (fmt v) < 48"
  shows "adds s 48 (fmt v) (put_double fmt v s)"
proof -
  let ?b = "buffer s"
  have ok: "fb_ok ?b" and len: "length (data ?b) = 4096"
    using assms(1) by (auto simp: stream_ok_def)
  have room: "fb_avail ?b \<ge> MaxNumericSize \<longleftrightarrow> cur ?b + 48 \<le> 4096"
    using fb_avail_ge[OF ok, of 48] len by (simp add: MaxNumericSize_def)
  have t: "take 47 (fmt v) = fmt v" using assms(2) by simp
  have "wrote ?b (fmt v) (fb_add (length (fmt v))
      (?b\<lparr>data := overwrite (data ?b) (cur ?b) (fmt v @ [CHR 0x00])\<rparr>))" if "cur ?b + 48 \<le> 4096"
    using that assms(2) len
    by (simp add: wrote_def fb_ok_def fb_add_def fb_toString_def fb_length_def overwrite_def)
  then show ?thesis
    using room assms wrote_stream[OF assms(1)] length_stream_text[OF assms(1)] len
    by (auto simp: adds_def put_double_def fb_store_def t)
qed

lemma put_pointer_adds:
  assumes "stream_ok s"
  shows "adds s 48 (''0x'' @ hex_digits (unat v)) (put_pointer v s)"
proof -
  let ?b = "buffer s" and ?h = "hex_digits (unat v)"
  have ok: "fb_ok ?b" and len: "length (data ?b) = 4096"
    using assms by (auto simp: stream_ok_def)
  have room: "fb_avail ?b \<ge> MaxNumericSize \<longleftrightarrow> cur ?b + 48 \<le> 4096"
    using fb_avail_ge[OF ok, of 48] len by (simp add: MaxNumericSize_def)
  show ?thesis
  proof (cases "cur ?b + 48 \<le> 4096")
    case True
    let ?w = "convertHex_loop v"
    let ?d1 = "overwrite (data ?b) (cur ?b) ''0x''"
    let ?d2 = "overwrite ?d1 (cur ?b + 2) (?w @ [CHR 0x00])"
    let ?d3 = "overwrite ?d2 (cur ?b + 2) ?h"
    have l1: "length ?d1 = 4096" using True len by simp
    have lw: "length ?w = length ?h" by (metis length_rev rev_convertHex_loop)
    have "unat v < 16 ^ 16" using unsigned_less[of v] by simp
    then have lh: "length ?h \<le> 16" by (rule length_hex_digits) simp
    then have l2: "length ?d2 = 4096" and l3: "length ?d3 = 4096"
      using True l1 lw by simp_all
    have "take (cur ?b + 2 + length ?h) ?d3 = take (cur ?b + 2) ?d1 @ ?h"
      using overwrite_twice[of ?h "?w @ [CHR 0x00]" "cur ?b + 2" ?d1] True lh lw l1 by simp
    moreover have "take (cur ?b + 2) ?d1 = take (cur ?b) (data ?b) @ ''0x''"
      using take_overwrite[of "cur ?b" "''0x''" "data ?b"] True len by simp
    ultimately have "wrote ?b (''0x'' @ ?h) (fb_add (length ?w + 2) (?b\<lparr>data := ?d3\<rparr>))"
      using True lh len l3 lw
      by (simp add: wrote_def fb_ok_def fb_add_def fb_toString_def fb_length_def ac_simps)
    moreover have "put_pointer v s = Inr (s\<lparr>buffer := fb_add (length ?w + 2) (?b\<lparr>data := ?d3\<rparr>)\<rparr>)"
      using True room lh lw l1 l2 len
      by (simp add: put_pointer_def fb_store_def convertHex_def rev_convertHex_loop Let_def)
    ultimately show ?thesis
      using True wrote_stream[OF assms] length_stream_text[OF assms] by (auto simp: adds_def)
  next
    case False
    then show ?thesis
      using room assms length_stream_text[OF assms] by (simp add: adds_def put_pointer_def)
  qed
qed


lemma size_to_int: "n < 2 ^ 31 \<Longrightarrow> size_to_int n = int n"
  by (simp add: size_to_int_def signed_of_nat signed_take_bit_int_eq_self)

lemma sint_bound: "LENGTH('a::len) \<le> 64 \<Longrightarrow> \<bar>sint (v :: 'a word)\<bar> < 10 ^ 20"
proof -
  assume "LENGTH('a) \<le> 64"
  then have "(2 :: int) ^ (LENGTH('a) - 1) \<le> 2 ^ 63" by (intro power_increasing) auto
  moreover have "- (2 ^ (LENGTH('a) - 1)) \<le> sint v" and "sint v < 2 ^ (LENGTH('a) - 1)"
    using sint_greater_eq[of v] sint_less[of v] by simp_all
  ultimately show ?thesis by simp
qed

lemma uint_bound: "LENGTH('a::len) \<le> 64 \<Longrightarrow> \<bar>uint (v :: 'a word)\<bar> < 10 ^ 20"
proof -
  assume "LENGTH('a) \<le> 64"
  then have "(2 :: int) ^ LENGTH('a) \<le> 2 ^ 64" by (intro power_increasing) auto
  with uint_lt2p[of v] have "uint v < 2 ^ 64" by (rule order_less_le_trans)
  then show ?thesis by simp
qed

lemma sint_scast_short: "sint (scast (v :: 16 word) :: 32 word) = sint v"
  using sint_greater_eq[of v] sint_less[of v]
  by (simp add: signed_scast_eq signed_take_bit_int_eq_self)

lemma uint_ucast_short: "uint (ucast (v :: 16 word) :: 32 word) = uint v"
  by (simp add: uint_up_ucast is_up)

lemmas put_defs = put_bool_def put_short_def put_ushort_def put_int_def put_uint_def put_long_def
  put_ulong_def put_cstr_def put_string_def put_buffer_def put_char_def

lemma put_adds:
  assumes "stream_ok s" and "operand_ok fmt x"
  shows "adds s (operand_room fmt x) (operand_text fmt x) (put fmt x s)"
proof -
  show ?thesis
  proof (cases x)
    case (OCStr p)
    then show ?thesis
      using assms stream_append_adds[OF assms(1), of 6 "''(null)''"]
      by (cases p) (auto simp: operand_ok_def operand_room_def put_defs size_to_int
          intro: stream_append_adds)
  next
    case (OString t)
    then show ?thesis using assms
      by (auto simp: operand_ok_def operand_room_def put_defs size_to_int intro: stream_append_adds)
  next
    case (OBuffer b)
    then show ?thesis using assms
      by (auto simp: operand_ok_def operand_room_def put_defs size_to_int intro: stream_append_adds)
  next
    case (OBool v)
    then show ?thesis
      using stream_append_adds[OF assms(1), of 1 "if v then ''1'' else ''0''"]
      by (cases v) (auto simp: operand_room_def put_defs)
  next
    case (OChar c)
    then show ?thesis
      using stream_append_adds[OF assms(1), of 1 "[c]"] by (auto simp: operand_room_def put_defs)
  next
    case (ODouble v)
    then show ?thesis
      using assms put_double_adds[OF assms(1)] by (simp add: operand_ok_def operand_room_def)
  next
    case (OPointer v)
    then show ?thesis
      using put_pointer_adds[OF assms(1)] by (simp add: operand_room_def)
  qed (auto simp: operand_room_def put_defs sint_scast_short uint_ucast_short
      intro!: formatedInt_adds[OF assms(1)] sint_bound uint_bound)
qed

subsection \<open>A bounded text sink\<close>

text \<open>
  The contract of a sink with a fixed capacity: each item is added whole or dropped, by the room
  it asks for, and the call always returns.
\<close>

locale bounded_sink =
  fixes ok :: "'s \<Rightarrow> bool" and contents :: "'s \<Rightarrow> string" and cap :: nat
    and put1 :: "'s \<Rightarrow> 'x \<Rightarrow> 's outcome" and good :: "'x \<Rightarrow> bool"
    and shown :: "'x \<Rightarrow> string" and room :: "'x \<Rightarrow> nat"
  assumes put1: "ok s \<Longrightarrow> good x \<Longrightarrow> \<exists>s'. put1 s x = Inr s' \<and> ok s' \<and>
      contents s' = (if length (contents s) + room x \<le> cap then contents s @ shown x else contents s)"
    and room: "good x \<Longrightarrow> length (shown x) \<le> room x"
begin

definition step :: "'x \<Rightarrow> string \<Rightarrow> string" where
  "step x t = (if length t + room x \<le> cap then t @ shown x else t)"

lemma put1_step: "ok s \<Longrightarrow> good x \<Longrightarrow>
    \<exists>s'. put1 s x = Inr s' \<and> ok s' \<and> contents s' = step x (contents s)"
  using put1 by (simp add: step_def)

lemma chain:
  "ok s \<Longrightarrow> list_all good xs \<Longrightarrow>
   \<exists>s'. put_list put1 xs s = Inr s' \<and> ok s' \<and> contents s' = fold step xs (contents s)"
proof (induction xs arbitrary: s)
  case Nil
  then show ?case by simp
next
  case (Cons x xs)
  then obtain s1 where "put1 s x = Inr s1" "ok s1" "contents s1 = step x (contents s)"
    using put1_step by fastforce
  with Cons show ?case by fastforce
qed

lemma fold_step_fits:
  "list_all good xs \<Longrightarrow> length t + sum_list (map room xs) \<le> cap \<Longrightarrow>
   fold step xs t = t @ concat (map shown xs)"
proof (induction xs arbitrary: t)
  case Nil
  then show ?case by simp
next
  case (Cons x xs)
  then show ?case using room[of x] by (simp add: step_def)
qed

lemma chain_fits:
  assumes "ok s" and "list_all good xs" and "length (contents s) + sum_list (map room xs) \<le> cap"
  shows "\<exists>s'. put_list put1 xs s = Inr s' \<and> ok s'
    \<and> contents s' = contents s @ concat (map shown xs)"
  using chain[OF assms(1,2)] fold_step_fits[OF assms(2,3)] by metis

end

interpretation ls: bounded_sink stream_ok stream_text 4096 "\<lambda>s x. put fmt x s" "operand_ok fmt"
    "operand_text fmt" "operand_room fmt" for fmt :: "'d \<Rightarrow> string"
proof (unfold_locales, goal_cases)
  case (1 s x)
  then show ?case using put_adds[of s fmt x] by (simp add: adds_def)
next
  case (2 x)
  then show ?case by (auto simp: operand_ok_def operand_room_def)
qed

lemma ls_step: "ls.step fmt = spec_put 4096 fmt"
  by (intro ext) (simp add: ls.step_def spec_put_def)

subsection \<open>Properties\<close>

text \<open>C30: A chain of insertions into a log stream never leaves its 4096 byte array and always
  returns: every operand is added whole, in the decimal or hexadecimal form of the reference
  definitions, or dropped as a whole when the room its operator asks for (48 bytes for a number,
  the length for text) is not there.\<close>

theorem stream_chain_refines:
  assumes "stream_ok s" and "list_all (operand_ok fmt) xs"
  shows "\<exists>s'. put_chain fmt xs s = Inr s' \<and> stream_ok s'
    \<and> stream_text s' = fold (spec_put 4096 fmt) xs (stream_text s)"
  using ls.chain[OF assms] by (simp add: put_chain_def ls_step)

definition demo_operands :: "nat operand list" where
  "demo_operands = [OString ''fd='', OInt (- 7), OBool True, ODouble 1]"

lemma show_minus_7: "show_int (- 7) = ''-7''"
  by code_simp

theorem stream_chain_refines_witness:
  "\<exists>s'. put_chain (\<lambda>d. ''2.5'') demo_operands new_stream = Inr s' \<and> stream_ok s'
    \<and> stream_text s' = ''fd=-712.5''"
proof -
  have ok: "list_all (operand_ok (\<lambda>d. ''2.5'')) demo_operands"
    by (simp add: demo_operands_def operand_ok_def show_minus_7)
  have "fold (spec_put 4096 (\<lambda>d. ''2.5'')) demo_operands [] = ''fd=-712.5''"
    by (simp add: demo_operands_def spec_put_def operand_room_def show_minus_7)
  then show ?thesis
    using stream_chain_refines[OF new_stream_ok(1) ok] unfolding new_stream_ok(2) by metis
qed

text \<open>C33: What the stream prints for an \<^verbatim>\<open>int\<close>, the most negative one included, is what
  \<^verbatim>\<open>std::stoi\<close> reads back as the same value.\<close>

theorem printed_int_reads_back:
  assumes "stream_ok s" and "length (stream_text s) + 48 \<le> 4096"
  shows "\<exists>s' t. put_int v s = Inr s' \<and> stream_ok s' \<and> stream_text s' = stream_text s @ t
    \<and> stoi t = Inr (sint v)"
proof -
  have "int_range (sint v)"
    using sint_greater_eq[of v] sint_less[of v] by (simp add: int_range_def)
  then have "stoi (show_int (sint v)) = Inr (sint v)" by (rule stoi_show_int)
  moreover have "adds s 48 (show_int (sint v)) (put_int v s)"
    unfolding put_int_def using assms(1) by (intro formatedInt_adds sint_bound) auto
  ultimately show ?thesis using assms(2) by (auto simp: adds_def)
qed

theorem printed_int_reads_back_witness:
  "\<exists>s' t. put_int 0x80000000 new_stream = Inr s' \<and> stream_ok s' \<and> stream_text s' = t
    \<and> stoi t = Inr (- 2147483648)"
proof -
  have "sint (0x80000000 :: 32 word) = - 2147483648" by simp
  with printed_int_reads_back[OF new_stream_ok(1), of "0x80000000"] show ?thesis by simp
qed

end
