(* ===== verification/Http_Util.thy ===== *)
theory Http_Util
  imports Log_Stream
begin

text \<open>
  \<^verbatim>\<open>src/src/https/http_util.cpp\<close>: assembling a request and splitting an
  \<^verbatim>\<open>https://host:port/path\<close> URL. C strings end at the first NUL, and the port is read by
  \<^verbatim>\<open>std::stoi\<close> and cut to 16 bits.
\<close>

subsection \<open>Strings of C\<close>

abbreviation nul :: char where
  "nul \<equiv> CHR 0x00"

definition cstr :: "string \<Rightarrow> string" where
  "cstr s = takeWhile (\<lambda>c. c \<noteq> nul) s"

lemma cstr_id [simp]: "nul \<notin> set s \<Longrightarrow> cstr s = s"
  unfolding cstr_def by (rule takeWhile_eq_all_conv[THEN iffD2]) auto

subsection \<open>Requests\<close>

definition METHODS :: "string list" where
  "METHODS = [''GET'', ''POST'', ''PUT'', ''DELETE'', ''PATCH'', ''HEAD'', ''OPTIONS'', ''TRACE'',
     ''CONNECT'']"

definition crlf :: string where
  "crlf = [CHR 0x0D, CHR 0x0A]"

text \<open>The constructor \<^verbatim>\<open>std::string(128, 0)\<close> makes a string of 128 NUL characters.\<close>

definition splice_request :: "string \<Rightarrow> string \<Rightarrow> string \<Rightarrow> string \<Rightarrow> string \<Rightarrow> string" where
  "splice_request method source_url version headers bodys =
    (let buf = replicate 128 nul;
         buf = buf @ cstr method;
         buf = buf @ '' '';
         buf = buf @ cstr source_url;
         buf = buf @ '' '';
         buf = buf @ ''http/'';
         buf = buf @ cstr version;
         buf = buf @ crlf;
         buf = buf @ headers;
         buf = buf @ bodys
     in buf)"

subsection \<open>URLs\<close>

text \<open>The variables \<^verbatim>\<open>host\<close>, \<^verbatim>\<open>port\<close> and \<^verbatim>\<open>path\<close> of the caller.\<close>

record url_parts =
  host :: string
  port :: u16
  path :: string

definition parse_url_https :: "string \<Rightarrow> url_parts \<Rightarrow> (bool \<times> url_parts) outcome" where
  "parse_url_https url u =
    (let start = cstr url in
     if take 8 start = ''https://'' then
       let hostStart = drop 8 start;
           slash = CHR ''/'' \<in> set hostStart;
           hostPort = (if slash then takeWhile (\<lambda>c. c \<noteq> CHR ''/'') hostStart else hostStart);
           u = u\<lparr>path := (if slash then dropWhile (\<lambda>c. c \<noteq> CHR ''/'') hostStart else ''/'')\<rparr>
       in if CHR '':'' \<in> set hostPort then
            let u = u\<lparr>host := takeWhile (\<lambda>c. c \<noteq> CHR '':'') hostPort\<rparr>
            in and_then (stoi (tl (dropWhile (\<lambda>c. c \<noteq> CHR '':'') hostPort))) (\<lambda>p.
                 Inr (True, u\<lparr>port := word_of_int p\<rparr>))
          else Inr (True, u\<lparr>host := hostPort, port := 443\<rparr>)
     else Inr (False, u))"

subsection \<open>Parsing a printed URL\<close>

text \<open>The URL of a host, a port written in decimal or left out, and a path.\<close>

definition port_text :: "nat option \<Rightarrow> string" where
  "port_text p = (case p of Some n \<Rightarrow> CHR '':'' # dec_digits n | None \<Rightarrow> [])"

definition https_url :: "string \<Rightarrow> nat option \<Rightarrow> string \<Rightarrow> string" where
  "https_url h p pth = ''https://'' @ h @ port_text p @ pth"

definition host_ok :: "string \<Rightarrow> bool" where
  "host_ok h \<longleftrightarrow> list_all (\<lambda>c. c \<noteq> nul \<and> c \<noteq> CHR ''/'' \<and> c \<noteq> CHR '':'') h"

definition path_ok :: "string \<Rightarrow> bool" where
  "path_ok q \<longleftrightarrow> (q = [] \<or> hd q = CHR ''/'') \<and> nul \<notin> set q"

lemma dec_digits_plain: "c \<in> set (dec_digits n) \<Longrightarrow> c \<noteq> nul \<and> c \<noteq> CHR ''/'' \<and> c \<noteq> CHR '':''"
  using dec_digits_digits[of n] by (auto simp: list_all_iff is_digit_def)

lemma host_ok_set:
  "host_ok h \<Longrightarrow> nul \<notin> set h \<and> CHR ''/'' \<notin> set h \<and> CHR '':'' \<notin> set h"
  by (auto simp: host_ok_def list_all_iff)

lemma split_at:
  assumes "c \<notin> set xs" and "ys = [] \<or> hd ys = c"
  shows "takeWhile (\<lambda>x. x \<noteq> c) (xs @ ys) = xs" and "dropWhile (\<lambda>x. x \<noteq> c) (xs @ ys) = ys"
    and "c \<in> set (xs @ ys) \<longleftrightarrow> ys \<noteq> []"
  using assms by (induction xs) (cases ys; auto)+

lemma port_text_plain: "nul \<notin> set (port_text p)" "CHR ''/'' \<notin> set (port_text p)"
  by (auto simp: port_text_def dest: dec_digits_plain split: option.splits)

text \<open>What the parser makes of such a URL, for any number in the place of the port.\<close>

lemma parse_https_url:
  assumes "host_ok h" and "path_ok q"
  shows "parse_url_https (https_url h p q) u =
    (let u' = u\<lparr>path := (if q = [] then ''/'' else q), host := h\<rparr>
     in case p of None \<Rightarrow> Inr (True, u'\<lparr>port := 443\<rparr>)
        | Some n \<Rightarrow> and_then (stoi (dec_digits n)) (\<lambda>v. Inr (True, u'\<lparr>port := word_of_int v\<rparr>)))"
proof -
  let ?hp = "h @ port_text p"
  note h = host_ok_set[OF assms(1)]
  have q: "q = [] \<or> hd q = CHR ''/''" "nul \<notin> set q" using assms(2) by (auto simp: path_ok_def)
  have c: "cstr (https_url h p q) = ''https://'' @ ?hp @ q"
    using h q port_text_plain[of p] by (simp add: https_url_def)
  have "CHR ''/'' \<notin> set ?hp" using h port_text_plain[of p] by simp
  note slash = split_at[OF this q(1)]
  have hp: "(if CHR ''/'' \<in> set (?hp @ q) then takeWhile (\<lambda>c. c \<noteq> CHR ''/'') (?hp @ q) else ?hp @ q)
      = ?hp"
    using slash by auto
  have pth: "(if CHR ''/'' \<in> set (?hp @ q) then dropWhile (\<lambda>c. c \<noteq> CHR ''/'') (?hp @ q) else ''/'')
      = (if q = [] then ''/'' else q)"
    using slash by auto
  have "port_text p = [] \<or> hd (port_text p) = CHR '':''"
    by (auto simp: port_text_def split: option.splits)
  note colon = split_at[OF conjunct2[OF conjunct2[OF h]] this]
  have "parse_url_https (https_url h p q) u =
    (let u = u\<lparr>path := (if q = [] then ''/'' else q)\<rparr>
     in if port_text p \<noteq> [] then
          and_then (stoi (tl (port_text p))) (\<lambda>v. Inr (True, u\<lparr>host := h, port := word_of_int v\<rparr>))
        else Inr (True, u\<lparr>host := h @ port_text p, port := 443\<rparr>))"
    unfolding parse_url_https_def Let_def c
    by (simp only: hp pth colon append_Cons append_Nil drop_Suc_Cons drop_0 take_Suc_Cons take_0
        numeral_nat) simp
  then show ?thesis by (cases p) (simp_all add: port_text_def Let_def)
qed


lemma stoi_dec_digits: "stoi (dec_digits n) = (if n < 2 ^ 31 then Inr (int n) else Inl UncaughtException)"
proof (cases "n < 2 ^ 31")
  case True
  then have "int_range (dec_value (dec_digits n))" by (simp add: dec_digits_value int_range_def)
  then show ?thesis
    using True by (simp add: stoi_digits dec_digits_digits dec_digits_not_Nil dec_digits_value)
next
  case False
  then have "\<not> int_range (dec_value (dec_digits n))" by (simp add: dec_digits_value int_range_def)
  then show ?thesis
    using False by (simp add: stoi_digits_out_of_range dec_digits_digits dec_digits_not_Nil)
qed

lemma parse_printed_url:
  assumes "host_ok h" and "path_ok q"
  shows "parse_url_https (https_url h (map_option unat p) q) u =
    Inr (True, u\<lparr>path := (if q = [] then ''/'' else q), host := h,
      port := (case p of None \<Rightarrow> 443 | Some w \<Rightarrow> w)\<rparr>)"
proof (cases p)
  case None
  then show ?thesis using assms by (simp add: parse_https_url)
next
  case (Some w)
  have "unat w < 2 ^ 16" using unsigned_less[of w] by simp
  then have "unat w < 2 ^ 31" by simp
  with Some show ?thesis using assms by (simp add: parse_https_url stoi_dec_digits)
qed

subsection \<open>Properties\<close>

definition no_parts :: url_parts where
  "no_parts = \<lparr>host = [], port = 0, path = []\<rparr>"

text \<open>C34: Parsing the URL of a host, an optional 16-bit port and a path gives back the host, the
  port (443 when it was left out) and the path (\<^verbatim>\<open>/\<close> when it was empty), and reports
  success.\<close>

theorem url_round_trip:
  assumes "host_ok h" and "path_ok q"
  shows "parse_url_https (https_url h (map_option unat p) q) u =
    Inr (True, u\<lparr>path := (if q = [] then ''/'' else q), host := h,
      port := (case p of None \<Rightarrow> 443 | Some w \<Rightarrow> w)\<rparr>)"
  by (rule parse_printed_url[OF assms])

theorem url_round_trip_witness:
  "parse_url_https (https_url ''example.com'' (Some 8443) ''/a/b'') no_parts =
    Inr (True, \<lparr>host = ''example.com'', port = 8443, path = ''/a/b''\<rparr>)"
proof -
  have "host_ok ''example.com''" and "path_ok ''/a/b''" by code_simp+
  from url_round_trip[OF this, of "Some 8443" no_parts] show ?thesis
    by (simp add: no_parts_def)
qed

text \<open>The number behind the colon is not checked: below $2^{31}$ it is cut to 16 bits and the
  parse reports success, from $2^{31}$ on \<^verbatim>\<open>std::stoi\<close> throws and the parser does not
  return.\<close>

theorem url_port_wraps_or_throws:
  assumes "host_ok h" and "path_ok q"
  shows "parse_url_https (https_url h (Some n) q) u =
    (if n < 2 ^ 31
     then Inr (True, u\<lparr>path := (if q = [] then ''/'' else q), host := h,
        port := word_of_nat (n mod 65536)\<rparr>)
     else Inl UncaughtException)"
proof -
  have "word_of_nat (n mod 65536) = (word_of_nat n :: u16)"
    by (simp add: word_of_nat_eq_iff take_bit_eq_mod)
  then show ?thesis using assms by (simp add: parse_https_url stoi_dec_digits)
qed

theorem url_port_wraps_or_throws_witness:
  "parse_url_https (https_url ''h'' (Some 65979) []) no_parts =
    Inr (True, \<lparr>host = ''h'', port = 443, path = ''/''\<rparr>)"
proof -
  have "host_ok ''h''" and "path_ok []" by code_simp+
  from url_port_wraps_or_throws[OF this, of 65979 no_parts] show ?thesis
    by (simp add: no_parts_def)
qed

lemma splice_request_padded:
  "nul \<notin> set m \<Longrightarrow> nul \<notin> set r \<Longrightarrow> nul \<notin> set v \<Longrightarrow>
   splice_request m r v hs b = replicate 128 nul @ m @ '' '' @ r @ '' http/'' @ v @ crlf @ hs @ b"
  by (simp add: splice_request_def)

end
