(* ===== verification/Tcp_Connector.thy ===== *)
theory Tcp_Connector
  imports Channel_Poller
begin

text \<open>
  \<^verbatim>\<open>src/src/Connector.{h,cpp}\<close>: the client side of a connection attempt. The connector lives in
  the loop of \<open>Channel_Poller\<close>, whose state it extends. The answers of the kernel are an argument
  (\<open>net\<close>), the calls of \<^verbatim>\<open>EventLoop::runAfter\<close> are recorded with their delay (what the loop does
  with them is the subject of \<open>Timers\<close>), and \<^verbatim>\<open>newConnectionCallback_\<close> is an argument
  (\<open>newcb\<close>), the function \<^verbatim>\<open>TcpClient\<close> installs.
\<close>

subsection \<open>State\<close>

datatype connector_state = Disconnected | Connecting | Connected

text \<open>The null pointer is 0; the heap of the poller hands out pointers from 1 on.\<close>

datatype connector_functor = StartInLoop | StopInLoop

record 'cb connector = "'cb poller" +
  connect_flag :: bool
  conn_state :: connector_state
  connector_channel :: ptr
  retryDelayMs :: int
  timer_requests :: "int list"
  queued :: "connector_functor list"

definition MaxRetryDelayMs :: int where "MaxRetryDelayMs = 30 * 1000"
definition InitRetryDelayMs :: int where "InitRetryDelayMs = 500"

definition Connector :: "'cb poller \<Rightarrow> 'cb connector" where
  "Connector p = poller.extend p \<lparr>connect_flag = False, conn_state = Disconnected, connector_channel = 0,
     retryDelayMs = InitRetryDelayMs, timer_requests = [], queued = []\<rparr>"

definition Connector_dtor :: "('cb, 'z) connector_scheme \<Rightarrow> ('cb, 'z) connector_scheme outcome" where
  "Connector_dtor s = assert_then (connector_channel s = 0) (Inr s)"

text \<open>
  What the kernel answers: the descriptor made by \<^verbatim>\<open>socket\<close>, the \<^verbatim>\<open>errno\<close> of \<^verbatim>\<open>connect\<close>
  (0 for success), \<^verbatim>\<open>SO_ERROR\<close> of a descriptor, and whether it is connected to itself.
\<close>

record net_answers =
  new_fd :: int
  connect_errno :: int
  so_error :: "int \<Rightarrow> int"
  self_connect :: "int \<Rightarrow> bool"

text \<open>The values of \<^verbatim>\<open>errno\<close> named by the source, as on Linux.\<close>

definition EINPROGRESS :: int where "EINPROGRESS = 115"
definition EISCONN :: int where "EISCONN = 106"
definition EADDRINUSE :: int where "EADDRINUSE = 98"
definition EADDRNOTAVAIL :: int where "EADDRNOTAVAIL = 99"
definition ECONNREFUSED :: int where "ECONNREFUSED = 111"
definition ENETUNREACH :: int where "ENETUNREACH = 101"

definition expected_errnos :: "int list" where
  "expected_errnos = [EINPROGRESS, EINTR, EISCONN]"

definition retry_errnos :: "int list" where
  "retry_errnos = [EAGAIN, EADDRINUSE, EADDRNOTAVAIL, ECONNREFUSED, ENETUNREACH]"

lemmas errno_defs = EINPROGRESS_def EINTR_def EISCONN_def EAGAIN_def EADDRINUSE_def
  EADDRNOTAVAIL_def ECONNREFUSED_def ENETUNREACH_def expected_errnos_def retry_errnos_def

type_synonym ('cb, 'z) conn_fun = "('cb, 'z) connector_scheme \<Rightarrow> ('cb, 'z) connector_scheme outcome"

subsection \<open>Operations\<close>

definition setState :: "connector_state \<Rightarrow> ('cb, 'z) connector_scheme \<Rightarrow> ('cb, 'z) connector_scheme" where
  "setState st s = s\<lparr>conn_state := st\<rparr>"

text \<open>\<^verbatim>\<open>delete channel_\<close>: nothing for a null pointer, else the destructor; the pointer keeps its value.\<close>

definition delete_ptr :: "ptr \<Rightarrow> ('cb, 'z) conn_fun" where
  "delete_ptr c s = (if c = 0 then Inr s else delete_channel c s)"

definition retry :: "int \<Rightarrow> ('cb, 'z) conn_fun" where
  "retry serverfd s =
    (let s = setState Disconnected (sys (CloseFd serverfd) s) in
     and_then (delete_ptr (connector_channel s) s) (\<lambda>s.
     if connect_flag s then
       Inr (s\<lparr>timer_requests := timer_requests s @ [retryDelayMs s],
              retryDelayMs := min (retryDelayMs s * 2) MaxRetryDelayMs\<rparr>)
     else Inr s))"

definition removeAndResetChannel :: "('cb, 'z) connector_scheme \<Rightarrow> (int \<times> ('cb, 'z) connector_scheme) outcome" where
  "removeAndResetChannel s =
    and_then (DisableAll (connector_channel s) s) (\<lambda>s.
    and_then (deref s (connector_channel s)) (\<lambda>ch. Inr (ch_fd ch, s)))"

definition resetChannel :: "('cb, 'z) connector_scheme \<Rightarrow> ('cb, 'z) connector_scheme" where
  "resetChannel s = s\<lparr>connector_channel := 0\<rparr>"

text \<open>\<open>on_out\<close> and \<open>on_err\<close> are the lambdas that call the two handlers below.\<close>

definition connecting :: "'cb \<Rightarrow> 'cb \<Rightarrow> int \<Rightarrow> ('cb, 'z) conn_fun" where
  "connecting on_out on_err serverfd s =
    assert_then (connector_channel s = 0) (
    let (c, s) = add_channel serverfd (setState Connecting s);
        s = s\<lparr>connector_channel := c\<rparr>
    in and_then (modify (set_out_callback (Some on_out)) c s) (\<lambda>s.
       and_then (modify (set_err_callback (Some on_err)) c s) (\<lambda>s.
       and_then (modify set_io_channel c s) (EnableWrite c))))"

definition hand_over :: "(int \<Rightarrow> ('cb, 'z) conn_fun) \<Rightarrow> int \<Rightarrow> ('cb, 'z) conn_fun" where
  "hand_over newcb fd s =
    and_then (modify reset_listen_events (connector_channel s) (setState Connected s)) (\<lambda>s.
    if connect_flag s then newcb fd s else Inr (sys (CloseFd fd) s))"

definition connect ::
  "net_answers \<Rightarrow> (int \<Rightarrow> ('cb, 'z) conn_fun) \<Rightarrow> 'cb \<Rightarrow> 'cb \<Rightarrow> ('cb, 'z) conn_fun" where
  "connect net newcb on_out on_err s =
    (let serverfd = new_fd net; savedErrno = connect_errno net in
     if savedErrno = 0 then
       (case add_channel serverfd s of (c, s) \<Rightarrow> hand_over newcb serverfd (s\<lparr>connector_channel := c\<rparr>))
     else if savedErrno \<in> set expected_errnos then connecting on_out on_err serverfd s
     else if savedErrno \<in> set retry_errnos then retry serverfd s
     else Inr (sys (CloseFd serverfd) s))"

definition startInLoop ::
  "net_answers \<Rightarrow> (int \<Rightarrow> ('cb, 'z) conn_fun) \<Rightarrow> 'cb \<Rightarrow> 'cb \<Rightarrow> ('cb, 'z) conn_fun" where
  "startInLoop net newcb on_out on_err s =
    (let s = assertInLoopThread s in
     assert_then (conn_state s = Disconnected) (
     if connect_flag s then connect net newcb on_out on_err s else Inr s))"

text \<open>\<^verbatim>\<open>start\<close> runs its functor at once in the loop's thread (\<^verbatim>\<open>runInLoop\<close>), \<^verbatim>\<open>stop\<close> always queues
  it (\<^verbatim>\<open>queueInLoop\<close>); \<open>queued\<close> holds the functors of this connector in the loop's queue, and
  \<open>run_queued\<close> is the loop running them.\<close>

definition start ::
  "net_answers \<Rightarrow> (int \<Rightarrow> ('cb, 'z) conn_fun) \<Rightarrow> 'cb \<Rightarrow> 'cb \<Rightarrow> ('cb, 'z) conn_fun" where
  "start net newcb on_out on_err s =
    (let s = s\<lparr>connect_flag := True\<rparr>
     in if isInLoopThread s then startInLoop net newcb on_out on_err s
        else Inr (s\<lparr>queued := queued s @ [StartInLoop]\<rparr>))"

definition stopInLoop :: "('cb, 'z) conn_fun" where
  "stopInLoop s =
    (let s = assertInLoopThread s in
     if conn_state s = Connecting then
       and_then (removeAndResetChannel (setState Disconnected s)) (\<lambda>(serverfd, s). retry serverfd s)
     else Inr s)"

definition stop :: "('cb, 'z) connector_scheme \<Rightarrow> ('cb, 'z) connector_scheme" where
  "stop s = s\<lparr>connect_flag := False, queued := queued s @ [StopInLoop]\<rparr>"

definition run_queued ::
  "net_answers \<Rightarrow> (int \<Rightarrow> ('cb, 'z) conn_fun) \<Rightarrow> 'cb \<Rightarrow> 'cb \<Rightarrow> ('cb, 'z) conn_fun" where
  "run_queued net newcb on_out on_err s =
    (case queued s of
       [] \<Rightarrow> Inr s
     | StartInLoop # fs \<Rightarrow> startInLoop net newcb on_out on_err (s\<lparr>queued := fs\<rparr>)
     | StopInLoop # fs \<Rightarrow> stopInLoop (s\<lparr>queued := fs\<rparr>))"

definition restart ::
  "net_answers \<Rightarrow> (int \<Rightarrow> ('cb, 'z) conn_fun) \<Rightarrow> 'cb \<Rightarrow> 'cb \<Rightarrow> ('cb, 'z) conn_fun" where
  "restart net newcb on_out on_err s =
    startInLoop net newcb on_out on_err
      ((setState Disconnected (assertInLoopThread s))
        \<lparr>retryDelayMs := InitRetryDelayMs, connect_flag := True\<rparr>)"

definition check_whether_connected :: "net_answers \<Rightarrow> (int \<Rightarrow> ('cb, 'z) conn_fun) \<Rightarrow> ('cb, 'z) conn_fun" where
  "check_whether_connected net newcb s =
    and_then (deref s (connector_channel s)) (\<lambda>ch.
    let fd = ch_fd ch in
    if conn_state s = Connecting then
      if so_error net fd \<noteq> 0 then retry fd s
      else if self_connect net fd then retry fd s
      else hand_over newcb fd s
    else if conn_state s = Connected \<and> tied ch then Inr s
    else assert_then (conn_state s = Disconnected) (Inr s))"

definition handle_err :: "('cb, 'z) conn_fun" where
  "handle_err s =
    (if conn_state s = Connecting then
       and_then (removeAndResetChannel s) (\<lambda>(serverfd, s). retry serverfd s)
     else Inr s)"


subsection \<open>Retrying\<close>

text \<open>\<open>attempts\<close>: the timers of successive retries fire, and each attempt gets its own answers.\<close>

definition attempts ::
  "(int \<Rightarrow> ('cb, 'z) conn_fun) \<Rightarrow> 'cb \<Rightarrow> 'cb \<Rightarrow> net_answers list \<Rightarrow> ('cb, 'z) conn_fun" where
  "attempts newcb on_out on_err nets s =
     put_list (\<lambda>s net. startInLoop net newcb on_out on_err s) nets s"

definition backoff :: "nat \<Rightarrow> int" where
  "backoff k = min (InitRetryDelayMs * 2 ^ k) MaxRetryDelayMs"

lemma backoff_0: "backoff 0 = InitRetryDelayMs"
  by (simp add: backoff_def InitRetryDelayMs_def MaxRetryDelayMs_def)

lemma backoff_Suc: "min (backoff k * 2) MaxRetryDelayMs = backoff (Suc k)"
  by (simp add: backoff_def InitRetryDelayMs_def MaxRetryDelayMs_def min_def)

text \<open>A connector between two attempts, in its loop's thread.\<close>

definition idle :: "nat \<Rightarrow> ('cb, 'z) connector_scheme \<Rightarrow> bool" where
  "idle k s \<longleftrightarrow> connect_flag s \<and> conn_state s = Disconnected \<and> connector_channel s = 0
     \<and> retryDelayMs s = backoff k \<and> isInLoopThread s"

lemma in_thread [simp]: "isInLoopThread p \<Longrightarrow> assertInLoopThread p = p"
  by (simp add: assertInLoopThread_def)

lemma refused_once:
  assumes "idle k s" and "connect_errno net \<in> set retry_errnos"
  shows "startInLoop net newcb on_out on_err s =
    Inr (s\<lparr>syscalls := syscalls s @ [CloseFd (new_fd net)],
           timer_requests := timer_requests s @ [backoff k], retryDelayMs := backoff (Suc k)\<rparr>)"
proof -
  have "connect_errno net \<noteq> 0" and "connect_errno net \<notin> set expected_errnos"
    using assms(2) by (auto simp: errno_defs)
  then show ?thesis
    using assms
    by (simp add: startInLoop_def connect_def retry_def setState_def delete_ptr_def idle_def
        backoff_Suc Let_def sys_def)
qed

lemma idle_Suc:
  "idle k s \<Longrightarrow> idle (Suc k) (s\<lparr>syscalls := a, timer_requests := b, retryDelayMs := backoff (Suc k)\<rparr>)"
  by (simp add: idle_def isInLoopThread_def)

lemma refused_many:
  assumes "idle k s" and "list_all (\<lambda>n. connect_errno n \<in> set retry_errnos) nets"
  shows "attempts newcb on_out on_err nets s =
    Inr (s\<lparr>syscalls := syscalls s @ map (CloseFd \<circ> new_fd) nets,
           timer_requests := timer_requests s @ map backoff [k..<k + length nets],
           retryDelayMs := backoff (k + length nets)\<rparr>)"
  using assms
proof (induction nets arbitrary: k s)
  case Nil
  then have "retryDelayMs s = backoff k" by (simp add: idle_def)
  then show ?case by (simp add: attempts_def)
next
  case (Cons n nets)
  let ?s = "s\<lparr>syscalls := syscalls s @ [CloseFd (new_fd n)],
           timer_requests := timer_requests s @ [backoff k], retryDelayMs := backoff (Suc k)\<rparr>"
  have "attempts newcb on_out on_err (n # nets) s = attempts newcb on_out on_err nets ?s"
    using Cons.prems by (simp add: attempts_def refused_once)
  then show ?case
    using Cons.IH[OF idle_Suc[OF Cons.prems(1)]] Cons.prems(2) by (simp add: upt_rec)
qed

subsection \<open>An attempt in progress\<close>

text \<open>The channel \<^verbatim>\<open>connecting\<close> sets up for a descriptor the poller does not know yet.\<close>

definition pending_channel :: "'cb \<Rightarrow> 'cb \<Rightarrow> int \<Rightarrow> 'cb channel" where
  "pending_channel on_out on_err fd = (Channel fd False)\<lparr>ch_idx := ch_added, listen_events := EPOLLOUT,
     is_io_channel := True, out_callback := Some on_out, err_callback := Some on_err\<rparr>"

definition ready_pending :: "u32 \<Rightarrow> 'cb \<Rightarrow> 'cb \<Rightarrow> int \<Rightarrow> 'cb channel" where
  "ready_pending ev on_out on_err fd =
     (pending_channel on_out on_err fd)\<lparr>ready_events := ev, eventHandling := True\<rparr>"

definition in_progress :: "'cb \<Rightarrow> 'cb \<Rightarrow> int \<Rightarrow> ('cb, 'z) connector_scheme \<Rightarrow> ('cb, 'z) connector_scheme" where
  "in_progress on_out on_err fd s = s\<lparr>
     heap := (heap s)(next_ptr s \<mapsto> pending_channel on_out on_err fd),
     next_ptr := Suc (next_ptr s), m_channels := (m_channels s)(fd \<mapsto> next_ptr s),
     syscalls := syscalls s @
       [EpollCtl EPOLL_CTL_ADD fd (Some (EPOLLOUT OR EPOLLET OR EPOLLRDHUP, next_ptr s))],
     conn_state := Connecting, connector_channel := next_ptr s\<rparr>"

lemma start_in_progress:
  assumes "idle k s" and "connect_errno net \<in> set expected_errnos"
    and "m_channels s (new_fd net) = None"
  shows "startInLoop net newcb on_out on_err s = Inr (in_progress on_out on_err (new_fd net) s)"
proof -
  have "connect_errno net \<noteq> 0" using assms(2) by (auto simp: errno_defs)
  then show ?thesis
    using assms
    by (simp add: startInLoop_def connect_def connecting_def idle_def add_channel_def EnableWrite_def
        loop_updateChannel_def updateChannel_def epoller_update_def in_progress_def setState_def
        pending_channel_def Channel_def channel_setters set_out_callback_def set_err_callback_def
        isInLoopThread_def assertInLoopThread_def sys_def WRITE_EVENT_def EPOLLOUT_def Let_def)
qed


text \<open>\<^verbatim>\<open>epoll_wait\<close> reports the events \<open>ev\<close> for the channel at \<open>c\<close> and the loop handles them.\<close>

definition deliver ::
  "('cb \<Rightarrow> ('cb, 'z) poller_scheme \<Rightarrow> ('cb, 'z) poller_scheme outcome) \<Rightarrow> u32 \<Rightarrow> ptr \<Rightarrow>
     ('cb, 'z) poller_scheme \<Rightarrow> ('cb, 'z) poller_scheme outcome" where
  "deliver run ev c p = and_then (fillActiveChannels [(ev, c)] p) (HandleEvent run c)"

text \<open>The state in which a handler of the pending channel runs.\<close>

definition handling :: "u32 \<Rightarrow> 'cb \<Rightarrow> 'cb \<Rightarrow> int \<Rightarrow> ('cb, 'z) connector_scheme \<Rightarrow> ('cb, 'z) connector_scheme" where
  "handling ev on_out on_err fd s = (in_progress on_out on_err fd s)
     \<lparr>heap := (heap s)(next_ptr s \<mapsto> ready_pending ev on_out on_err fd)\<rparr>"

lemma deliver_err:
  assumes "has_flag ev EPOLLERR"
  shows "deliver run ev (next_ptr s) (in_progress on_out on_err fd s)
    = run on_err (handling ev on_out on_err fd s)"
  using assms
  by (simp add: deliver_def in_progress_def handling_def ready_pending_def pending_channel_def
      HandleEvent_def HandleEvent_tied_def set_ready_event_def Channel_def call_opt_def)

lemma deliver_out:
  "deliver run EPOLLOUT (next_ptr s) (in_progress on_out on_err fd s)
    = and_then (run on_out (handling EPOLLOUT on_out on_err fd s))
        (modify (\<lambda>ch. ch\<lparr>eventHandling := False\<rparr>) (next_ptr s))"
  by (simp add: deliver_def in_progress_def handling_def ready_pending_def pending_channel_def
      HandleEvent_def HandleEvent_tied_def set_ready_event_def Channel_def call_opt_def
      has_flag_def flag_simps)

lemma retry_while_handling:
  assumes "connector_channel s = c" and "c \<noteq> 0" and "heap s c = Some ch" and "eventHandling ch"
  shows "retry fd s = Inl AssertionFailure"
  using assms by (simp add: retry_def delete_ptr_def delete_channel_def setState_def sys_def)

lemma check_failed_aborts:
  assumes "next_ptr s \<noteq> 0" and "so_error net fd \<noteq> 0 \<or> self_connect net fd"
  shows "check_whether_connected net newcb (handling ev on_out on_err fd s) = Inl AssertionFailure"
  using assms
  by (auto simp: check_whether_connected_def handling_def in_progress_def ready_pending_def
      pending_channel_def Channel_def retry_while_handling)

lemma handle_err_aborts:
  assumes "next_ptr s \<noteq> 0" and "isInLoopThread s"
  shows "handle_err (handling ev on_out on_err fd s) = Inl AssertionFailure"
  using assms
  by (simp add: handle_err_def removeAndResetChannel_def DisableAll_def loop_updateChannel_def
      updateChannel_def epoller_update_def handling_def in_progress_def ready_pending_def
      pending_channel_def Channel_def isInLoopThread_def assertInLoopThread_def sys_def
      channel_setters has_flag_def flag_simps retry_while_handling)

lemma check_connected:
  assumes "so_error net fd = 0" and "\<not> self_connect net fd" and "connect_flag s"
  shows "check_whether_connected net newcb (handling ev on_out on_err fd s) =
    newcb fd ((handling ev on_out on_err fd s)\<lparr>conn_state := Connected,
      heap := (heap s)(next_ptr s \<mapsto> reset_listen_events (ready_pending ev on_out on_err fd))\<rparr>)"
  using assms
  by (simp add: check_whether_connected_def hand_over_def setState_def handling_def in_progress_def
      ready_pending_def pending_channel_def Channel_def reset_listen_events_def)

lemma stop_in_progress:
  assumes "isInLoopThread s" and "next_ptr s \<noteq> 0" and "queued s = []"
  shows "\<exists>s'. run_queued net newcb o1 o2 (stop (in_progress on_out on_err fd s)) = Inr s' \<and> conn_state s' = Disconnected
    \<and> \<not> connect_flag s' \<and> connector_channel s' = next_ptr s \<and> heap s' (next_ptr s) = None
    \<and> m_channels s' fd = Some (next_ptr s) \<and> isInLoopThread s'
    \<and> syscalls s' = syscalls (in_progress on_out on_err fd s)
        @ [EpollCtl EPOLL_CTL_DEL fd None, CloseFd fd, CloseFd fd]"
  using assms
  by (simp add: stop_def run_queued_def stopInLoop_def removeAndResetChannel_def DisableAll_def loop_updateChannel_def
      updateChannel_def epoller_update_def in_progress_def pending_channel_def Channel_def
      isInLoopThread_def assertInLoopThread_def sys_def channel_setters has_flag_def flag_simps
      retry_def delete_ptr_def delete_channel_def setState_def Let_def)


subsection \<open>Properties\<close>

definition demo_connector :: "string connector" where
  "demo_connector = (Connector (Epoller 1))\<lparr>connect_flag := True\<rparr>"

definition demo_net :: "int \<Rightarrow> int \<Rightarrow> int \<Rightarrow> net_answers" where
  "demo_net fd e so = \<lparr>new_fd = fd, connect_errno = e, so_error = (\<lambda>_. so), self_connect = (\<lambda>_. False)\<rparr>"

lemma demo_connector_idle: "idle 0 demo_connector" "m_channels demo_connector fd = None"
  "next_ptr demo_connector = 1" "isInLoopThread demo_connector"
  by (simp_all add: idle_def demo_connector_def Connector_def Epoller_def poller.extend_def backoff_0
      isInLoopThread_def)

text \<open>C25: However often the server refuses the connection at once, the connector keeps going: it
  closes each socket exactly once, has no channel left over, and asks for the next attempt after
  500 ms, doubling up to 30 s and never more.\<close>

theorem refused_attempts_back_off:
  assumes "idle 0 s" and "list_all (\<lambda>n. connect_errno n \<in> set retry_errnos) nets"
  shows "\<exists>s'. attempts newcb on_out on_err nets s = Inr s' \<and> idle (length nets) s' \<and> heap s' = heap s
    \<and> syscalls s' = syscalls s @ map (CloseFd \<circ> new_fd) nets
    \<and> timer_requests s' = timer_requests s
        @ map (\<lambda>k. min (InitRetryDelayMs * 2 ^ k) MaxRetryDelayMs) [0..<length nets]"
proof -
  let ?s = "s\<lparr>syscalls := syscalls s @ map (CloseFd \<circ> new_fd) nets,
           timer_requests := timer_requests s @ map backoff [0..<length nets],
           retryDelayMs := backoff (length nets)\<rparr>"
  have "attempts newcb on_out on_err nets s = Inr ?s" using refused_many[OF assms] by simp
  moreover have "idle (length nets) ?s" using assms(1) by (simp add: idle_def isInLoopThread_def)
  moreover have "map backoff [0..<length nets]
      = map (\<lambda>k. min (InitRetryDelayMs * 2 ^ k) MaxRetryDelayMs) [0..<length nets]"
    by (simp add: backoff_def)
  ultimately show ?thesis by auto
qed

theorem refused_attempts_back_off_witness:
  "\<exists>s'. attempts (\<lambda>fd. Inr) ''out'' ''err'' (map (\<lambda>fd. demo_net fd ECONNREFUSED 0) [7, 8, 9]) demo_connector
      = Inr s' \<and> timer_requests s' = [500, 1000, 2000]
      \<and> syscalls s' = [CloseFd 7, CloseFd 8, CloseFd 9]"
proof -
  have ok: "list_all (\<lambda>n. connect_errno n \<in> set retry_errnos)
      (map (\<lambda>fd. demo_net fd ECONNREFUSED 0) [7, 8, 9])"
    by (simp add: demo_net_def retry_errnos_def)
  have "timer_requests demo_connector = []" "syscalls demo_connector = []"
    by (simp_all add: demo_connector_def Connector_def Epoller_def poller.extend_def)
  then show ?thesis
    using refused_attempts_back_off[OF demo_connector_idle(1) ok,
        where newcb = "\<lambda>fd. Inr" and on_out = "''out''" and on_err = "''err''"]
    by (auto simp: InitRetryDelayMs_def MaxRetryDelayMs_def demo_net_def upt_rec)
qed

text \<open>A connection attempt that is still in progress registers its descriptor for writability
  only; when the kernel then reports it writable without an error, \<^verbatim>\<open>newConnectionCallback_\<close> is
  called exactly once, with that descriptor, in state \<^verbatim>\<open>Connected\<close>, with the channel still in
  hand, no retry requested and no descriptor closed.\<close>

theorem pending_connect_completes:
  assumes "idle k s" and "connect_errno net \<in> set expected_errnos"
    and "m_channels s (new_fd net) = None" and "so_error net (new_fd net) = 0"
    and "\<not> self_connect net (new_fd net)" and "run on_out = check_whether_connected net newcb"
  shows "\<exists>s1 s2. startInLoop net newcb on_out on_err s = Inr s1
    \<and> syscalls s1 = syscalls s @ [EpollCtl EPOLL_CTL_ADD (new_fd net)
          (Some (EPOLLOUT OR EPOLLET OR EPOLLRDHUP, connector_channel s1))]
    \<and> deliver run EPOLLOUT (connector_channel s1) s1 = and_then (newcb (new_fd net) s2)
          (modify (\<lambda>ch. ch\<lparr>eventHandling := False\<rparr>) (connector_channel s1))
    \<and> conn_state s2 = Connected \<and> connector_channel s2 = connector_channel s1
    \<and> syscalls s2 = syscalls s1 \<and> timer_requests s2 = timer_requests s"
proof -
  let ?fd = "new_fd net" and ?s1 = "in_progress on_out on_err (new_fd net) s"
  let ?s2 = "(handling EPOLLOUT on_out on_err ?fd s)\<lparr>conn_state := Connected,
      heap := (heap s)(next_ptr s \<mapsto> reset_listen_events (ready_pending EPOLLOUT on_out on_err ?fd))\<rparr>"
  have "connect_flag s" using assms(1) by (simp add: idle_def)
  then have run: "run on_out (handling EPOLLOUT on_out on_err ?fd s) = newcb ?fd ?s2"
    using assms by (simp add: check_connected)
  have c: "connector_channel ?s1 = next_ptr s" by (simp add: in_progress_def)
  have "deliver run EPOLLOUT (connector_channel ?s1) ?s1 = and_then (newcb ?fd ?s2)
      (modify (\<lambda>ch. ch\<lparr>eventHandling := False\<rparr>) (connector_channel ?s1))"
    unfolding c deliver_out run ..
  moreover have "conn_state ?s2 = Connected \<and> connector_channel ?s2 = connector_channel ?s1
      \<and> syscalls ?s2 = syscalls ?s1 \<and> timer_requests ?s2 = timer_requests s"
    by (simp add: handling_def in_progress_def)
  moreover have "syscalls ?s1 = syscalls s @ [EpollCtl EPOLL_CTL_ADD ?fd
          (Some (EPOLLOUT OR EPOLLET OR EPOLLRDHUP, connector_channel ?s1))]"
    by (simp add: in_progress_def)
  ultimately show ?thesis using start_in_progress[OF assms(1-3)] by blast
qed

theorem pending_connect_completes_witness:
  "\<exists>s1 s2. startInLoop (demo_net 7 EINPROGRESS 0) (\<lambda>fd. Inr) ''out'' ''err'' demo_connector = Inr s1
    \<and> deliver (\<lambda>cb. check_whether_connected (demo_net 7 EINPROGRESS 0) (\<lambda>fd. Inr)) EPOLLOUT
        (connector_channel s1) s1
      = and_then (Inr s2) (modify (\<lambda>ch. ch\<lparr>eventHandling := False\<rparr>) (connector_channel s1))
    \<and> conn_state s2 = Connected \<and> timer_requests s2 = []"
proof -
  have "timer_requests demo_connector = []"
    by (simp add: demo_connector_def Connector_def Epoller_def poller.extend_def)
  moreover have "connect_errno (demo_net 7 EINPROGRESS 0) \<in> set expected_errnos"
    "so_error (demo_net 7 EINPROGRESS 0) (new_fd (demo_net 7 EINPROGRESS 0)) = 0"
    "\<not> self_connect (demo_net 7 EINPROGRESS 0) (new_fd (demo_net 7 EINPROGRESS 0))"
    by (simp_all add: demo_net_def expected_errnos_def)
  ultimately show ?thesis
    using pending_connect_completes[OF demo_connector_idle(1) _ demo_connector_idle(2),
        of "demo_net 7 EINPROGRESS 0"
           "\<lambda>cb. check_whether_connected (demo_net 7 EINPROGRESS 0) (\<lambda>fd. Inr)" "''out''"
           "\<lambda>fd. Inr" "''err''"]
    by metis
qed

text \<open>A connection attempt that fails after it was in progress ends in a failed assertion: the
  handlers delete the channel whose event they are handling. This is so for a reported error
  (\<^verbatim>\<open>EPOLLERR\<close>) and for a writable descriptor with a pending \<^verbatim>\<open>SO_ERROR\<close> or connected to
  itself.\<close>

theorem failed_connect_aborts:
  assumes "idle k s" and "connect_errno net \<in> set expected_errnos"
    and "m_channels s (new_fd net) = None" and "next_ptr s \<noteq> 0"
    and "run on_out = check_whether_connected net newcb" and "run on_err = handle_err"
    and "has_flag ev EPOLLERR
      \<or> ev = EPOLLOUT \<and> (so_error net (new_fd net) \<noteq> 0 \<or> self_connect net (new_fd net))"
  shows "\<exists>s1. startInLoop net newcb on_out on_err s = Inr s1
    \<and> deliver run ev (connector_channel s1) s1 = Inl AssertionFailure"
proof -
  let ?s1 = "in_progress on_out on_err (new_fd net) s"
  have c: "connector_channel ?s1 = next_ptr s" by (simp add: in_progress_def)
  have "isInLoopThread s" using assms(1) by (simp add: idle_def)
  then have "deliver run ev (connector_channel ?s1) ?s1 = Inl AssertionFailure"
    using assms(4-7) unfolding c
    by (auto simp: deliver_err deliver_out handle_err_aborts check_failed_aborts)
  then show ?thesis using start_in_progress[OF assms(1-3)] by blast
qed

definition demo_run :: "string \<Rightarrow> (string, 'z) conn_fun" where
  "demo_run cb = (if cb = ''out''
     then check_whether_connected (demo_net 7 EINPROGRESS ECONNREFUSED) (\<lambda>fd. Inr) else handle_err)"

theorem failed_connect_aborts_witness:
  "\<exists>s1. startInLoop (demo_net 7 EINPROGRESS ECONNREFUSED) (\<lambda>fd. Inr) ''out'' ''err'' demo_connector = Inr s1
    \<and> deliver demo_run EPOLLOUT (connector_channel s1) s1 = Inl AssertionFailure"
proof (rule failed_connect_aborts[OF demo_connector_idle(1)])
  show "demo_run ''err'' = (handle_err :: (string, unit) conn_fun)" by (simp add: demo_run_def)
qed (simp_all add: demo_connector_idle demo_run_def demo_net_def expected_errnos_def ECONNREFUSED_def)

text \<open>After a stop the connector keeps the pointer to the channel it deleted: it can neither be
  destroyed nor start another attempt that does not complete at once.\<close>

lemma stopped_connector_unusable:
  assumes "isInLoopThread s" and "next_ptr s \<noteq> 0" and "connect_errno net \<in> set expected_errnos"
    and "queued s = []"
  shows "\<exists>s'. run_queued net newcb on_out on_err (stop (in_progress on_out on_err fd s)) = Inr s'
    \<and> Connector_dtor s' = Inl AssertionFailure
    \<and> restart net newcb on_out on_err s' = Inl AssertionFailure"
proof -
  have e: "connect_errno net \<noteq> 0" using assms(3) by (auto simp: errno_defs)
  obtain s' where s': "run_queued net newcb on_out on_err (stop (in_progress on_out on_err fd s)) = Inr s'"
    and c: "connector_channel s' \<noteq> 0" and t: "isInLoopThread s'"
    using stop_in_progress[OF assms(1,2,4), of net newcb on_out on_err on_out on_err fd] assms(2) by auto
  have "Connector_dtor s' = Inl AssertionFailure" using c by (simp add: Connector_dtor_def)
  moreover have "restart net newcb on_out on_err s' = Inl AssertionFailure"
    using c t e assms(3)
    by (simp add: restart_def startInLoop_def connect_def connecting_def setState_def
        isInLoopThread_def assertInLoopThread_def)
  ultimately show ?thesis using s' by blast
qed

end
