(* ===== verification/Log_File.thy ===== *)
theory Log_File
  imports Log_Stream
begin

text \<open>
  Where log text ends up: \<^verbatim>\<open>AppendFile\<close> of \<^verbatim>\<open>src/src/Loggers/FileUtil.{h,cpp}\<close>, a stdio stream
  opened for appending, and \<^verbatim>\<open>LogFile\<close> of \<^verbatim>\<open>LogFile.{h,cpp}\<close>, which starts a new file when the
  current one is large and checks the clock every so many lines. The answers of
  \<^verbatim>\<open>fwrite_unlocked\<close> and of the clock are arguments; closed files stay in \<open>closed_files\<close>, so that
  everything written can be read back.
\<close>

subsection \<open>AppendFile\<close>

text \<open>\<open>Took n err\<close>: \<^verbatim>\<open>fwrite\<close> took \<open>n\<close> bytes, and \<^verbatim>\<open>ferror\<close> is set or not.\<close>

datatype fwrite_answer = Took nat bool

record AppendFile =
  file_name :: string
  file_bytes :: string
  writtenBytes :: int

definition AppendFile_new :: "string \<Rightarrow> AppendFile" where
  "AppendFile_new nm = \<lparr>file_name = nm, file_bytes = [], writtenBytes = 0\<rparr>"

text \<open>
  The loop of \<^verbatim>\<open>AppendFile::append\<close>: every round offers \<open>logs\<close> from its start. With no answer left
  the call has not returned.
\<close>

fun append_loop :: "fwrite_answer list \<Rightarrow> string \<Rightarrow> nat \<Rightarrow> AppendFile \<Rightarrow> (nat \<times> AppendFile) outcome" where
  "append_loop answers logs written f =
    (if written < length logs then
       (case answers of
          [] \<Rightarrow> Inl NoReturn
        | Took n err # as \<Rightarrow>
            if length logs < n then Inl KernelContract
            else
              let remain = length logs - written;
                  f = f\<lparr>file_bytes := file_bytes f @ take n logs\<rparr>
              in if n \<noteq> remain \<and> err then Inr (written, f)
                 else append_loop as logs (written + n) f)
     else Inr (written, f))"

declare append_loop.simps [simp del]

definition file_append :: "fwrite_answer list \<Rightarrow> string \<Rightarrow> AppendFile \<Rightarrow> AppendFile outcome" where
  "file_append answers logs f =
     and_then (append_loop answers logs 0 f) (\<lambda>(written, f).
       Inr (f\<lparr>writtenBytes := writtenBytes f + int written\<rparr>))"

text \<open>\<^verbatim>\<open>writtenBytes_()\<close> returns the counter as an \<^verbatim>\<open>unsigned int\<close>.\<close>

definition writtenBytes_u32 :: "AppendFile \<Rightarrow> u32" where
  "writtenBytes_u32 f = word_of_int (writtenBytes f)"

subsection \<open>LogFile\<close>

record LogFile =
  basename :: string
  startOfPeriod :: int
  lastRoll :: int
  lastFlush :: int
  cur_file :: "AppendFile option"
  closed_files :: "AppendFile list"
  count :: int
  rollSize :: u32
  flushInterval :: int
  checkInterval :: int
  flushes :: nat
  clock_reads :: nat

definition RollPerSeconds :: int where "RollPerSeconds = 60 * 60 * 24"

text \<open>
  \<^verbatim>\<open>getLogFileName\<close>: \<open>stamp\<close> is what \<^verbatim>\<open>gmtime_r\<close> and \<^verbatim>\<open>strftime\<close> make of a time, \<open>hostpid\<close> the
  host name and process id.
\<close>

definition getLogFileName :: "(int \<Rightarrow> string) \<Rightarrow> string \<Rightarrow> int \<Rightarrow> string \<Rightarrow> string" where
  "getLogFileName stamp bname now hostpid =
     (let filename = bname;
          filename = filename @ stamp now;
          filename = filename @ hostpid
      in filename @ ''.log'')"

text \<open>The environment: the clock, the time stamp in a file name, host and process.\<close>

record log_env =
  clock :: "nat \<Rightarrow> int"
  stamp :: "int \<Rightarrow> string"
  hostpid :: string

definition read_clock :: "log_env \<Rightarrow> LogFile \<Rightarrow> int \<times> LogFile" where
  "read_clock env l = (clock env (clock_reads l), l\<lparr>clock_reads := Suc (clock_reads l)\<rparr>)"

definition roll :: "log_env \<Rightarrow> LogFile \<Rightarrow> bool \<times> LogFile" where
  "roll env l =
    (let (now, l) = read_clock env l;
         newname = getLogFileName (stamp env) (basename l) now (hostpid env);
         newstart = now sdiv RollPerSeconds * RollPerSeconds
     in if now > startOfPeriod l then
          (True, l\<lparr>lastRoll := now, lastFlush := now, startOfPeriod := newstart,
             closed_files := closed_files l @ (case cur_file l of Some f \<Rightarrow> [f] | None \<Rightarrow> []),
             cur_file := Some (AppendFile_new newname)\<rparr>)
        else (False, l))"

definition LogFile_flush :: "LogFile \<Rightarrow> LogFile outcome" where
  "LogFile_flush l =
     (case cur_file l of None \<Rightarrow> Inl BadPointer | Some f \<Rightarrow> Inr (l\<lparr>flushes := Suc (flushes l)\<rparr>))"

definition LogFile_new :: "log_env \<Rightarrow> string \<Rightarrow> u32 \<Rightarrow> int \<Rightarrow> int \<Rightarrow> LogFile outcome" where
  "LogFile_new env bname rsize finterval cinterval =
     assert_then (CHR ''/'' \<notin> set bname) (
     Inr (snd (roll env \<lparr>basename = bname, startOfPeriod = 0, lastRoll = 0, lastFlush = 0,
       cur_file = None, closed_files = [], count = 0, rollSize = rsize, flushInterval = finterval,
       checkInterval = cinterval, flushes = 0, clock_reads = 0\<rparr>)))"

text \<open>\<^verbatim>\<open>append_impl\<close>: the time-based branch compares a number of days with a time in seconds.\<close>

definition append_impl :: "log_env \<Rightarrow> fwrite_answer list \<Rightarrow> string \<Rightarrow> LogFile \<Rightarrow> LogFile outcome" where
  "append_impl env answers logs l =
    (case cur_file l of
       None \<Rightarrow> Inl BadPointer
     | Some f \<Rightarrow>
         and_then (file_append answers logs f) (\<lambda>f.
         let l = l\<lparr>cur_file := Some f\<rparr> in
         if writtenBytes_u32 f \<ge> rollSize l then Inr (snd (roll env l))
         else
           let l = l\<lparr>count := count l + 1\<rparr> in
           if count l = checkInterval l then
             let l = l\<lparr>count := 0\<rparr>;
                 (now, l) = read_clock env l;
                 now_period = now sdiv RollPerSeconds;
                 l = (if now_period \<ge> startOfPeriod l then snd (roll env l) else l)
             in if now - lastFlush l \<ge> flushInterval l then LogFile_flush (l\<lparr>lastFlush := now\<rparr>)
                else Inr l
           else Inr l))"

definition LogFile_empty :: "LogFile \<Rightarrow> bool outcome" where
  "LogFile_empty l =
     (case cur_file l of None \<Rightarrow> Inl BadPointer | Some f \<Rightarrow> Inr (writtenBytes_u32 f = 0))"

text \<open>\<^verbatim>\<open>LogFile::append\<close> takes the mutex, if there is one, around \<^verbatim>\<open>append_impl\<close>.\<close>

definition LogFile_append :: "log_env \<Rightarrow> fwrite_answer list \<Rightarrow> string \<Rightarrow> LogFile \<Rightarrow> LogFile outcome" where
  "LogFile_append env answers logs l = append_impl env answers logs l"

subsection \<open>Everything written\<close>

definition log_output :: "LogFile \<Rightarrow> string" where
  "log_output l = concat (map file_bytes (closed_files l))
     @ (case cur_file l of Some f \<Rightarrow> file_bytes f | None \<Rightarrow> [])"

lemma file_append_complete:
  "file_append [Took (length logs) e] logs f =
    Inr (f\<lparr>file_bytes := file_bytes f @ logs, writtenBytes := writtenBytes f + int (length logs)\<rparr>)"
proof (cases logs)
  case Nil
  then show ?thesis by (simp add: file_append_def append_loop.simps)
next
  case (Cons c cs)
  then show ?thesis
    by (simp add: file_append_def append_loop.simps[of "_ # _"] append_loop.simps[of "[]"] Let_def)
qed

lemma read_clock_output [simp]: "log_output (snd (read_clock env l)) = log_output l"
  by (simp add: read_clock_def log_output_def)

lemma roll_output: "log_output (snd (roll env l)) = log_output l"
  by (auto simp: roll_def read_clock_def log_output_def AppendFile_new_def Let_def split: option.splits)

lemma roll_open: "cur_file l \<noteq> None \<Longrightarrow> cur_file (snd (roll env l)) \<noteq> None"
  by (auto simp: roll_def read_clock_def Let_def)

lemma LogFile_flush_ok:
  "cur_file l \<noteq> None \<Longrightarrow> \<exists>l'. LogFile_flush l = Inr l' \<and> cur_file l' = cur_file l
     \<and> closed_files l' = closed_files l"
  by (auto simp: LogFile_flush_def)

lemma LogFile_append_complete:
  assumes "cur_file l \<noteq> None"
  shows "\<exists>l'. LogFile_append env [Took (length logs) e] logs l = Inr l' \<and> cur_file l' \<noteq> None
    \<and> log_output l' = log_output l @ logs"
proof -
  obtain f where f: "cur_file l = Some f" using assms by auto
  let ?f = "f\<lparr>file_bytes := file_bytes f @ logs, writtenBytes := writtenBytes f + int (length logs)\<rparr>"
  let ?l = "l\<lparr>cur_file := Some ?f\<rparr>"
  have out: "log_output (?l\<lparr>count := k\<rparr>) = log_output l @ logs" for k
    using f by (simp add: log_output_def)
  have out0: "log_output ?l = log_output l @ logs" using f by (simp add: log_output_def)
  let ?c = "?l\<lparr>count := 0, clock_reads := Suc (clock_reads l)\<rparr>"
  have flush: "\<exists>l'. LogFile_flush (m\<lparr>lastFlush := t\<rparr>) = Inr l' \<and> cur_file l' \<noteq> None
      \<and> log_output l' = log_output m" if "cur_file m \<noteq> None" for m t
    using that by (auto simp: LogFile_flush_def log_output_def)
  have outc: "log_output ?c = log_output l @ logs" using f by (simp add: log_output_def)
  have r: "cur_file (snd (roll env m)) \<noteq> None" "log_output (snd (roll env m)) = log_output m"
    if "cur_file m \<noteq> None" for m
    using roll_open[OF that] roll_output by auto
  show ?thesis
    unfolding LogFile_append_def append_impl_def f option.case file_append_complete
      and_then.simps Let_def read_clock_def prod.case
    using r[of ?l] r[of ?c] out0 out outc flush[of ?c] flush[of "snd (roll env ?c)"]
    by auto
qed

text \<open>A short write is followed by another attempt from the start of the text.\<close>

lemma file_append_short:
  assumes "0 < n" and "n < length logs"
  shows "\<exists>f'. file_append [Took n False, Took (length logs) False] logs f = Inr f'
    \<and> file_bytes f' = file_bytes f @ take n logs @ logs"
  using assms
  by (simp add: file_append_def append_loop.simps[of "_ # _"] append_loop.simps[of "[]"] Let_def)

text \<open>The clock check compares days with seconds: it does not start a new file on a new day.\<close>

lemma no_daily_roll:
  assumes "cur_file l = Some f" and "count l + 1 = checkInterval l" and "0 < startOfPeriod l"
    and "clock env (clock_reads l) < RollPerSeconds * startOfPeriod l"
    and "0 \<le> clock env (clock_reads l)"
    and "writtenBytes_u32 (f\<lparr>file_bytes := file_bytes f @ logs,
            writtenBytes := writtenBytes f + int (length logs)\<rparr>) < rollSize l"
  shows "\<exists>l'. LogFile_append env [Took (length logs) e] logs l = Inr l' \<and> lastRoll l' = lastRoll l
    \<and> startOfPeriod l' = startOfPeriod l"
proof -
  have "clock env (clock_reads l) sdiv RollPerSeconds < startOfPeriod l"
    using assms(3-5) by (auto simp: RollPerSeconds_def signed_divide_int_def sgn_if)
  moreover from assms(6) have "\<not> rollSize l \<le> writtenBytes_u32 (f\<lparr>file_bytes := file_bytes f @ logs,
            writtenBytes := writtenBytes f + int (length logs)\<rparr>)"
    by (simp add: not_le)
  ultimately show ?thesis
    using assms(1,2)
    by (simp add: LogFile_append_def append_impl_def file_append_complete read_clock_def
        LogFile_flush_def Let_def)
qed

end
