(* ===== verification/Async_Logger.thy ===== *)
theory Async_Logger
  imports Log_File
begin

text \<open>
  \<^verbatim>\<open>src/src/Loggers/AsyncLogger.{h,cpp}\<close>: any number of threads append lines to the current
  buffer, one logging thread swaps the filled buffers out and writes them to the log file. They
  exclude each other by flags in one atomic word. Every access of that word is a step of its own,
  as is the work done while a flag is held; the steps of the threads interleave freely.
\<close>

subsection \<open>State\<close>

definition appending :: u64 where "appending = 1"
definition full :: u64 where "full = 2"
definition swaping :: u64 where "swaping = 4"
definition available :: u64 where "available = 8"

lemmas flags = appending_def full_def swaping_def available_def

text \<open>A call of \<^verbatim>\<open>append\<close>; in \<open>AHold\<close> the thread has set \<^verbatim>\<open>appending\<close>, in \<open>AStore\<close> it is about to give it up.\<close>

datatype append_pc =
    AIdle
  | ALoad string
  | AWait string u64
  | ACas string u64
  | AHold string
  | AStore u64

text \<open>The logging thread; \<open>LAborted\<close> is a failed assertion or null pointer.\<close>

datatype logger_pc =
    LTop
  | LLoad
  | LWait u64
  | LCasFull u64
  | LCas u64
  | LSwap
  | LRelease
  | LWrite
  | LRecycle
  | LFinish
  | LReturned
  | LAborted

datatype stop_pc = TIdle | TLoad | TWait u64 | TCas u64 | TJoin | TReturned

text \<open>
  The members of the class, the locals of \<^verbatim>\<open>threadFunc\<close>, the program counters, and the ghost
  \<open>accepted\<close>: the text given to the buffers so far, in order.
\<close>

record async_logger =
  running :: bool
  log_state :: u64
  cur_buffer :: "FixedBuffer option"
  next_buffer :: "FixedBuffer option"
  buffers :: "FixedBuffer list"
  newBuffer1 :: "FixedBuffer option"
  newBuffer2 :: "FixedBuffer option"
  buffersToWrite :: "FixedBuffer list"
  log_file :: LogFile
  appenders :: "nat \<Rightarrow> append_pc"
  logger :: logger_pc
  stopper :: stop_pc
  accepted :: string

definition new_LogBuffer :: "nat \<Rightarrow> FixedBuffer" where
  "new_LogBuffer SIZE = \<lparr>data = replicate SIZE (CHR 0x00), cur = 0\<rparr>"

text \<open>
  The logger after \<^verbatim>\<open>start\<close>, with the logging thread at its loop. The word \<open>w\<close> is what the memory
  held: nothing initialises \<^verbatim>\<open>state\<close>.
\<close>

definition AsyncLogger :: "nat \<Rightarrow> u64 \<Rightarrow> LogFile \<Rightarrow> async_logger" where
  "AsyncLogger SIZE w lf = \<lparr>running = True, log_state = w, cur_buffer = Some (new_LogBuffer SIZE),
     next_buffer = Some (new_LogBuffer SIZE), buffers = [],
     newBuffer1 = Some (fb_bzero (new_LogBuffer SIZE)), newBuffer2 = Some (fb_bzero (new_LogBuffer SIZE)),
     buffersToWrite = [], log_file = lf, appenders = (\<lambda>_. AIdle), logger = LTop, stopper = TIdle,
     accepted = []\<rparr>"

subsection \<open>append\<close>

text \<open>What \<^verbatim>\<open>append\<close> does with the buffers while it holds \<^verbatim>\<open>appending\<close>, and the word it will store.\<close>

definition append_body :: "nat \<Rightarrow> string \<Rightarrow> async_logger \<Rightarrow> (u64 \<times> async_logger) outcome" where
  "append_body SIZE logs s =
    (case cur_buffer s of
       None \<Rightarrow> Inl BadPointer
     | Some b \<Rightarrow>
         let len = int (length logs) in
         if fb_avail b \<ge> len then
           and_then (fb_append logs len b) (\<lambda>b. Inr (available, s\<lparr>cur_buffer := Some b\<rparr>))
         else
           let s = s\<lparr>buffers := buffers s @ [b]\<rparr>;
               (b, s) = (case next_buffer s of
                           Some n \<Rightarrow> (n, s\<lparr>next_buffer := None\<rparr>)
                         | None \<Rightarrow> (new_LogBuffer SIZE, s))
           in and_then (fb_append logs len b) (\<lambda>b. Inr (full, s\<lparr>cur_buffer := Some b\<rparr>)))"

text \<open>\<open>spur\<close> is a spurious wake-up. A line longer than a whole buffer is not accepted by either branch.\<close>

definition append_step :: "nat \<Rightarrow> bool \<Rightarrow> nat \<Rightarrow> async_logger \<Rightarrow> async_logger" where
  "append_step SIZE spur i s =
    (let goto = (\<lambda>pc s. s\<lparr>appenders := (appenders s)(i := pc)\<rparr>); st = log_state s in
     case appenders s i of
       AIdle \<Rightarrow> s
     | ALoad logs \<Rightarrow>
         if \<not> has_flag st available then goto AIdle s
         else if has_flag st (full OR appending OR swaping) then goto (AWait logs st) s
         else goto (ACas logs st) s
     | AWait logs old \<Rightarrow> if futex_blocks st old \<and> \<not> spur then s else goto (ALoad logs) s
     | ACas logs old \<Rightarrow>
         if st = old then goto (AHold logs) (s\<lparr>log_state := old OR appending\<rparr>) else goto (ALoad logs) s
     | AHold logs \<Rightarrow>
         (case append_body SIZE logs s of
            Inl e \<Rightarrow> s\<lparr>logger := LAborted\<rparr>
          | Inr (w, s) \<Rightarrow>
              goto (AStore w)
                (s\<lparr>accepted := accepted s @ (if length logs \<le> SIZE then logs else [])\<rparr>))
     | AStore w \<Rightarrow> goto AIdle (s\<lparr>log_state := w\<rparr>))"

subsection \<open>threadFunc\<close>

text \<open>The exchange of buffers while \<^verbatim>\<open>swaping\<close> is held.\<close>

definition swap_buffers :: "async_logger \<Rightarrow> async_logger" where
  "swap_buffers s =
    (let s = s\<lparr>buffers := buffers s @ (case cur_buffer s of Some b \<Rightarrow> [b] | None \<Rightarrow> []),
               cur_buffer := newBuffer1 s, newBuffer1 := None\<rparr>;
         s = s\<lparr>buffersToWrite := buffers s, buffers := buffersToWrite s\<rparr>
     in if next_buffer s = None then s\<lparr>next_buffer := newBuffer2 s, newBuffer2 := None\<rparr> else s)"

text \<open>The range-for that writes the buffers; \<open>fw n\<close> are the answers of \<^verbatim>\<open>fwrite\<close> for \<open>n\<close> bytes.\<close>

fun write_buffers ::
  "log_env \<Rightarrow> (nat \<Rightarrow> fwrite_answer list) \<Rightarrow> FixedBuffer list \<Rightarrow> LogFile \<Rightarrow> LogFile outcome" where
  "write_buffers env fw [] l = Inr l"
| "write_buffers env fw (b # bs) l =
     and_then (LogFile_append env (fw (fb_length b)) (fb_toString b) l) (write_buffers env fw bs)"

text \<open>Taking two of the written buffers back.\<close>

definition recycle :: "nat \<Rightarrow> async_logger \<Rightarrow> async_logger outcome" where
  "recycle SIZE s =
    (if buffersToWrite s = [] then Inl BadPointer
     else
       let s = s\<lparr>newBuffer1 := Some (fb_reset (last (buffersToWrite s))),
                 buffersToWrite := butlast (buffersToWrite s)\<rparr>;
           s = (if newBuffer2 s = None then
                  if buffersToWrite s \<noteq> [] then
                    s\<lparr>newBuffer2 := Some (fb_reset (last (buffersToWrite s))),
                      buffersToWrite := butlast (buffersToWrite s)\<rparr>
                  else s\<lparr>newBuffer2 := Some (new_LogBuffer SIZE)\<rparr>
                else s)
       in and_then (LogFile_flush (log_file s)) (\<lambda>l. Inr (s\<lparr>buffersToWrite := [], log_file := l\<rparr>)))"

definition empty_buffer :: "FixedBuffer option \<Rightarrow> bool" where
  "empty_buffer b = (case b of Some b \<Rightarrow> fb_length b = 0 | None \<Rightarrow> False)"

definition logger_step ::
  "nat \<Rightarrow> log_env \<Rightarrow> (nat \<Rightarrow> fwrite_answer list) \<Rightarrow> bool \<Rightarrow> async_logger \<Rightarrow> async_logger" where
  "logger_step SIZE env fw spur s =
    (let st = log_state s in
     case logger s of
       LTop \<Rightarrow>
         if running s then
           if empty_buffer (newBuffer1 s) \<and> empty_buffer (newBuffer2 s) \<and> buffersToWrite s = []
           then s\<lparr>logger := LLoad\<rparr> else s\<lparr>logger := LAborted\<rparr>
         else s\<lparr>logger := LFinish\<rparr>
     | LLoad \<Rightarrow>
         if \<not> has_flag st available then s\<lparr>logger := LReturned\<rparr>
         else if has_flag st full then s\<lparr>logger := LCasFull st\<rparr>
         else if has_flag st appending then s\<lparr>logger := LWait st\<rparr>
         else s\<lparr>logger := LCas st\<rparr>
     | LWait old \<Rightarrow> if futex_blocks st old \<and> \<not> spur then s else s\<lparr>logger := LLoad\<rparr>
     | LCasFull old \<Rightarrow>
         if st = old \<and> \<not> spur then s\<lparr>log_state := (old XOR full) OR swaping, logger := LSwap\<rparr>
         else s\<lparr>logger := LCasFull st\<rparr>
     | LCas old \<Rightarrow>
         if st = old then s\<lparr>log_state := old OR swaping, logger := LSwap\<rparr> else s\<lparr>logger := LLoad\<rparr>
     | LSwap \<Rightarrow> (swap_buffers s)\<lparr>logger := LRelease\<rparr>
     | LRelease \<Rightarrow> s\<lparr>log_state := st - swaping, logger := LWrite\<rparr>
     | LWrite \<Rightarrow>
         (case write_buffers env fw (buffersToWrite s) (log_file s) of
            Inl e \<Rightarrow> s\<lparr>logger := LAborted\<rparr>
          | Inr l \<Rightarrow> s\<lparr>log_file := l, logger := LRecycle\<rparr>)
     | LRecycle \<Rightarrow>
         (case recycle SIZE s of Inl e \<Rightarrow> s\<lparr>logger := LAborted\<rparr> | Inr s \<Rightarrow> s\<lparr>logger := LTop\<rparr>)
     | LFinish \<Rightarrow>
         (case LogFile_flush (log_file s) of
            Inl e \<Rightarrow> s\<lparr>logger := LAborted\<rparr>
          | Inr l \<Rightarrow> s\<lparr>log_file := l, log_state := 0, logger := LReturned\<rparr>)
     | LReturned \<Rightarrow> s
     | LAborted \<Rightarrow> s)"

subsection \<open>stop\<close>

definition stop_step :: "bool \<Rightarrow> async_logger \<Rightarrow> async_logger" where
  "stop_step spur s =
    (let st = log_state s in
     case stopper s of
       TIdle \<Rightarrow> s\<lparr>running := False, stopper := TLoad\<rparr>
     | TLoad \<Rightarrow>
         if \<not> has_flag st available then s\<lparr>stopper := TReturned\<rparr>
         else if has_flag st (full OR appending OR swaping) then s\<lparr>stopper := TWait st\<rparr>
         else s\<lparr>stopper := TCas st\<rparr>
     | TWait old \<Rightarrow> if futex_blocks st old \<and> \<not> spur then s else s\<lparr>stopper := TLoad\<rparr>
     | TCas old \<Rightarrow>
         if st = old then s\<lparr>log_state := 0, stopper := TJoin\<rparr> else s\<lparr>stopper := TLoad\<rparr>
     | TJoin \<Rightarrow> if logger s = LReturned then s\<lparr>stopper := TReturned\<rparr> else s
     | TReturned \<Rightarrow> s)"

subsection \<open>All threads\<close>

inductive async_step ::
  "nat \<Rightarrow> log_env \<Rightarrow> (nat \<Rightarrow> fwrite_answer list) \<Rightarrow> async_logger \<Rightarrow> async_logger \<Rightarrow> bool"
  for SIZE env fw where
  Call: "appenders s i = AIdle \<Longrightarrow> length logs < 2 ^ 31 \<Longrightarrow>
     async_step SIZE env fw s (s\<lparr>appenders := (appenders s)(i := ALoad logs)\<rparr>)"
| Append: "async_step SIZE env fw s (append_step SIZE spur i s)"
| Log: "async_step SIZE env fw s (logger_step SIZE env fw spur s)"
| Stop: "async_step SIZE env fw s (stop_step spur s)"

definition async_run ::
  "nat \<Rightarrow> log_env \<Rightarrow> (nat \<Rightarrow> fwrite_answer list) \<Rightarrow> async_logger \<Rightarrow> async_logger \<Rightarrow> bool" where
  "async_run SIZE env fw = (async_step SIZE env fw)\<^sup>*\<^sup>*"


inductive_cases async_stepE: "async_step SIZE env fw s s'"

subsection \<open>Mutual exclusion\<close>

fun holder :: "append_pc \<Rightarrow> bool" where
  "holder (AHold l) = True"
| "holder (AStore w) = True"
| "holder _ = False"

definition lock_inv :: "async_logger \<Rightarrow> bool" where
  "lock_inv s \<longleftrightarrow> log_state s \<in> {0, available, full, available OR appending, available OR swaping}
   \<and> (\<forall>i j. holder (appenders s i) \<and> holder (appenders s j) \<longrightarrow> i = j)
   \<and> (\<forall>i. holder (appenders s i) \<longrightarrow> log_state s \<in> {0, available OR appending})
   \<and> (\<forall>i l old. appenders s i = ACas l old \<longrightarrow> old = available)
   \<and> (\<forall>i w. appenders s i = AStore w \<longrightarrow> w \<in> {available, full})
   \<and> (logger s \<in> {LSwap, LRelease} \<longleftrightarrow> log_state s = available OR swaping)
   \<and> (\<forall>old. logger s \<noteq> LCasFull old) \<and> (\<forall>old. logger s = LCas old \<longrightarrow> old = available)
   \<and> (\<forall>old. stopper s = TCas old \<longrightarrow> old = available)"

lemma lock_invI:
  assumes "log_state s \<in> {0, available, full, available OR appending, available OR swaping}"
    and "\<And>i j. holder (appenders s i) \<Longrightarrow> holder (appenders s j) \<Longrightarrow> i = j"
    and "\<And>i. holder (appenders s i) \<Longrightarrow> log_state s \<in> {0, available OR appending}"
    and "\<And>i l old. appenders s i = ACas l old \<Longrightarrow> old = available"
    and "\<And>i w. appenders s i = AStore w \<Longrightarrow> w \<in> {available, full}"
    and "logger s \<in> {LSwap, LRelease} \<longleftrightarrow> log_state s = available OR swaping"
    and "\<And>old. logger s \<noteq> LCasFull old" and "\<And>old. logger s = LCas old \<Longrightarrow> old = available"
    and "\<And>old. stopper s = TCas old \<Longrightarrow> old = available"
  shows "lock_inv s"
  using assms unfolding lock_inv_def by blast

lemma lock_invD:
  assumes "lock_inv s"
  shows "log_state s \<in> {0, available, full, available OR appending, available OR swaping}"
    and "holder (appenders s i) \<Longrightarrow> holder (appenders s j) \<Longrightarrow> i = j"
    and "holder (appenders s i) \<Longrightarrow> log_state s \<in> {0, available OR appending}"
    and "appenders s i = ACas l old \<Longrightarrow> old = available"
    and "appenders s i = AStore w \<Longrightarrow> w \<in> {available, full}"
    and "logger s \<in> {LSwap, LRelease} \<longleftrightarrow> log_state s = available OR swaping"
    and "logger s \<noteq> LCasFull old" and "logger s = LCas old \<Longrightarrow> old = available"
    and "stopper s = TCas old \<Longrightarrow> old = available"
  using assms unfolding lock_inv_def by blast+

text \<open>A word that has \<^verbatim>\<open>available\<close> and none of the other flags is \<^verbatim>\<open>available\<close>.\<close>

lemma free_word:
  assumes "lock_inv s" and "has_flag (log_state s) available"
    and "\<not> has_flag (log_state s) (full OR appending OR swaping)"
  shows "log_state s = available"
  using lock_invD(1)[OF assms(1)] assms(2,3) by (auto simp: has_flag_def flags)

lemma swap_word:
  assumes "lock_inv s" and "logger s \<notin> {LSwap, LRelease}" and "has_flag (log_state s) available"
    and "\<not> has_flag (log_state s) appending"
  shows "log_state s = available"
  using lock_invD(1,6)[OF assms(1)] assms(2-4) by (auto simp: has_flag_def flags)

lemma not_full_available: "lock_inv s \<Longrightarrow> has_flag (log_state s) available \<Longrightarrow> \<not> has_flag (log_state s) full"
  using lock_invD(1)[of s] by (auto simp: has_flag_def flags)

text \<open>A change of one appender that does not touch the word.\<close>

lemma lock_goto:
  assumes "lock_inv s" and "\<not> holder pc" and "\<And>l old. pc = ACas l old \<Longrightarrow> old = available"
  shows "lock_inv (s\<lparr>appenders := (appenders s)(i := pc)\<rparr>)"
  using assms lock_invD[OF assms(1)] by (intro lock_invI) (auto split: if_splits)

lemma lock_acquire:
  assumes "lock_inv s" and "log_state s = available"
  shows "lock_inv (s\<lparr>log_state := available OR appending, appenders := (appenders s)(i := AHold l)\<rparr>)"
proof -
  have "\<not> holder (appenders s j)" for j
    using lock_invD(3)[OF assms(1), of j] assms(2) by (auto simp: flags)
  then show ?thesis
    using lock_invD[OF assms(1)] assms(2) by (intro lock_invI) (auto simp: flags split: if_splits)
qed

lemma lock_release:
  assumes "lock_inv s" and "appenders s i = AStore w"
  shows "lock_inv (s\<lparr>log_state := w, appenders := (appenders s)(i := AIdle)\<rparr>)"
proof -
  have "holder (appenders s i)" by (simp add: assms(2))
  then have "\<not> holder (appenders s j)" if "j \<noteq> i" for j
    using lock_invD(2)[OF assms(1), of i j] that by auto
  moreover have "log_state s \<in> {0, available OR appending}"
    using lock_invD(3)[OF assms(1) \<open>holder (appenders s i)\<close>] .
  ultimately show ?thesis
    using lock_invD[OF assms(1)] lock_invD(5)[OF assms]
    by (intro lock_invI) (auto simp: flags split: if_splits)
qed

lemma lock_store_next:
  assumes "lock_inv s" and "appenders s i = AHold l" and "w \<in> {available, full}"
  shows "lock_inv (s\<lparr>appenders := (appenders s)(i := AStore w)\<rparr>)"
proof -
  have "holder (appenders s i)" by (simp add: assms(2))
  then have "\<not> holder (appenders s j)" if "j \<noteq> i" for j
    using lock_invD(2)[OF assms(1), of i j] that by auto
  then show ?thesis
    using lock_invD[OF assms(1)] lock_invD(3)[OF assms(1) \<open>holder (appenders s i)\<close>] assms(3)
    by (intro lock_invI) (auto split: if_splits)
qed

lemma lock_frame:
  assumes "lock_inv s" and "log_state s' = log_state s" and "appenders s' = appenders s"
    and "logger s' = logger s" and "stopper s' = stopper s"
  shows "lock_inv s'"
  using assms by (simp add: lock_inv_def)

lemma lock_logger:
  assumes "lock_inv s" and "logger s \<notin> {LSwap, LRelease}" and "pc \<notin> {LSwap, LRelease}"
    and "\<And>old. pc \<noteq> LCasFull old" and "\<And>old. pc = LCas old \<Longrightarrow> old = available"
  shows "lock_inv (s\<lparr>logger := pc\<rparr>)"
  using assms lock_invD[OF assms(1)] by (intro lock_invI) auto

lemma lock_stopper:
  assumes "lock_inv s" and "\<And>old. pc = TCas old \<Longrightarrow> old = available"
  shows "lock_inv (s\<lparr>stopper := pc\<rparr>)"
  using assms lock_invD[OF assms(1)] by (intro lock_invI) auto


subsection \<open>Contents of the buffers\<close>

definition buf_ok :: "nat \<Rightarrow> FixedBuffer \<Rightarrow> bool" where
  "buf_ok SIZE b \<longleftrightarrow> fb_ok b \<and> length (data b) = SIZE"

definition spare_ok :: "nat \<Rightarrow> FixedBuffer option \<Rightarrow> bool" where
  "spare_ok SIZE p \<longleftrightarrow> (\<forall>b. p = Some b \<longrightarrow> buf_ok SIZE b \<and> cur b = 0)"

definition texts :: "FixedBuffer list \<Rightarrow> string" where
  "texts bs = concat (map fb_toString bs)"

text \<open>What has been accepted and is not in the file yet.\<close>

definition unwritten :: "async_logger \<Rightarrow> string" where
  "unwritten s = (if logger s = LRecycle then [] else texts (buffersToWrite s))
     @ texts (buffers s) @ (case cur_buffer s of Some b \<Rightarrow> fb_toString b | None \<Rightarrow> [])"

definition swapped :: "logger_pc \<Rightarrow> bool" where
  "swapped pc \<longleftrightarrow> pc \<in> {LRelease, LWrite, LRecycle}"

definition data_inv :: "nat \<Rightarrow> async_logger \<Rightarrow> bool" where
  "data_inv SIZE s \<longleftrightarrow>
     (\<exists>b. cur_buffer s = Some b \<and> buf_ok SIZE b) \<and> spare_ok SIZE (next_buffer s)
   \<and> list_all (buf_ok SIZE) (buffers s) \<and> list_all (buf_ok SIZE) (buffersToWrite s)
   \<and> spare_ok SIZE (newBuffer1 s) \<and> spare_ok SIZE (newBuffer2 s) \<and> logger s \<noteq> LAborted
   \<and> (if swapped (logger s) then buffersToWrite s \<noteq> []
      else newBuffer1 s \<noteq> None \<and> newBuffer2 s \<noteq> None \<and> buffersToWrite s = [])
   \<and> cur_file (log_file s) \<noteq> None \<and> accepted s = log_output (log_file s) @ unwritten s"

lemma texts_simps [simp]: "texts [] = []" "texts (b # bs) = fb_toString b @ texts bs"
  "texts (bs @ cs) = texts bs @ texts cs"
  by (simp_all add: texts_def)

lemma new_LogBuffer_ok [simp]: "buf_ok SIZE (new_LogBuffer SIZE)" "cur (new_LogBuffer SIZE) = 0"
  "fb_toString (new_LogBuffer SIZE) = []"
  by (simp_all add: new_LogBuffer_def buf_ok_def fb_ok_def fb_toString_def fb_length_def)

lemma fb_reset_ok: "buf_ok SIZE b \<Longrightarrow> buf_ok SIZE (fb_reset b) \<and> cur (fb_reset b) = 0"
  by (simp add: buf_ok_def fb_ok_def fb_reset_def)

lemma empty_text: "cur b = 0 \<Longrightarrow> fb_toString b = []"
  by (simp add: fb_toString_def fb_length_def)

lemma wrote_buf_ok: "buf_ok SIZE b \<Longrightarrow> wrote b t b' \<Longrightarrow> buf_ok SIZE b'"
  by (simp add: buf_ok_def wrote_def)

text \<open>\<^verbatim>\<open>append\<close> of a line to a buffer: all of it or nothing.\<close>

lemma line_append_ok:
  assumes "buf_ok SIZE b"
  shows "\<exists>b'. fb_append t (int (length t)) b = Inr b' \<and> buf_ok SIZE b' \<and>
    fb_toString b' = fb_toString b @ (if cur b + length t \<le> SIZE then t else [])"
  using fb_append_spec[of b t] assms wrote_buf_ok[OF assms]
  by (auto simp: buf_ok_def wrote_def split: if_splits)

lemma append_body_ok:
  assumes "data_inv SIZE s"
  shows "\<exists>w s'. append_body SIZE logs s = Inr (w, s') \<and> w \<in> {available, full}
    \<and> log_state s' = log_state s \<and> appenders s' = appenders s \<and> logger s' = logger s
    \<and> stopper s' = stopper s \<and> running s' = running s \<and> accepted s' = accepted s
    \<and> data_inv SIZE (s'\<lparr>accepted := accepted s @ (if length logs \<le> SIZE then logs else [])\<rparr>)"
proof -
  obtain b where b: "cur_buffer s = Some b" "buf_ok SIZE b" using assms by (auto simp: data_inv_def)
  have spare: "spare_ok SIZE (next_buffer s)" using assms by (simp add: data_inv_def)
  show ?thesis
  proof (cases "fb_avail b \<ge> int (length logs)")
    case True
    then have fits: "cur b + length logs \<le> SIZE" using b by (simp add: fb_avail_ge buf_ok_def)
    obtain b' where b': "fb_append logs (int (length logs)) b = Inr b'" "buf_ok SIZE b'"
      "fb_toString b' = fb_toString b @ logs"
      using line_append_ok[OF b(2), of logs] fits by auto
    have "append_body SIZE logs s = Inr (available, s\<lparr>cur_buffer := Some b'\<rparr>)"
      using True b b' by (simp add: append_body_def)
    moreover have "data_inv SIZE (s\<lparr>cur_buffer := Some b',
        accepted := accepted s @ (if length logs \<le> SIZE then logs else [])\<rparr>)"
      using assms b b' fits by (simp add: data_inv_def unwritten_def)
    ultimately show ?thesis by auto
  next
    case False
    define n where "n = (case next_buffer s of Some n \<Rightarrow> n | None \<Rightarrow> new_LogBuffer SIZE)"
    have n: "buf_ok SIZE n" "cur n = 0"
      using spare by (auto simp: n_def spare_ok_def split: option.splits)
    obtain n' where n': "fb_append logs (int (length logs)) n = Inr n'" "buf_ok SIZE n'"
      "fb_toString n' = (if length logs \<le> SIZE then logs else [])"
      using line_append_ok[OF n(1), of logs] n(2) by (auto simp: empty_text)
    let ?s = "s\<lparr>buffers := buffers s @ [b], next_buffer := None, cur_buffer := Some n'\<rparr>"
    have "append_body SIZE logs s = Inr (full, ?s)"
      using False b n' by (cases "next_buffer s") (simp_all add: append_body_def n_def)
    moreover have "data_inv SIZE (?s\<lparr>accepted := accepted s @ (if length logs \<le> SIZE then logs else [])\<rparr>)"
      using assms b n' by (simp add: data_inv_def unwritten_def spare_ok_def)
    ultimately show ?thesis by auto
  qed
qed

lemma write_buffers_ok:
  assumes "cur_file l \<noteq> None" and "\<And>n. fw n = [Took n False]" and "list_all (buf_ok SIZE) bs"
  shows "\<exists>l'. write_buffers env fw bs l = Inr l' \<and> cur_file l' \<noteq> None
    \<and> log_output l' = log_output l @ texts bs"
  using assms
proof (induction bs arbitrary: l)
  case Nil
  then show ?case by simp
next
  case (Cons b bs)
  have "fb_length b = length (fb_toString b)"
    using Cons.prems(3) by (simp add: buf_ok_def fb_ok_def fb_toString_def fb_length_def)
  then have "fw (fb_length b) = [Took (length (fb_toString b)) False]" using Cons.prems(2) by simp
  then obtain l1 where "LogFile_append env (fw (fb_length b)) (fb_toString b) l = Inr l1"
    "cur_file l1 \<noteq> None" "log_output l1 = log_output l @ fb_toString b"
    using LogFile_append_complete[OF Cons.prems(1), of env "fb_toString b" False] by auto
  then show ?case using Cons.IH[of l1] Cons.prems by auto
qed

lemma swap_buffers_frame [simp]:
  "log_state (swap_buffers s) = log_state s" "appenders (swap_buffers s) = appenders s"
  "stopper (swap_buffers s) = stopper s" "accepted (swap_buffers s) = accepted s"
  by (simp_all add: swap_buffers_def Let_def)

lemma swap_buffers_ok:
  assumes "data_inv SIZE s" and "logger s = LSwap"
  shows "data_inv SIZE ((swap_buffers s)\<lparr>logger := LRelease\<rparr>)"
proof -
  obtain b n1 n2 where "cur_buffer s = Some b" "newBuffer1 s = Some n1" "newBuffer2 s = Some n2"
    using assms by (auto simp: data_inv_def swapped_def)
  then show ?thesis
    using assms
    by (simp add: data_inv_def swap_buffers_def unwritten_def swapped_def spare_ok_def empty_text Let_def)
qed

lemma recycle_ok:
  assumes "data_inv SIZE s" and "logger s = LRecycle"
  shows "\<exists>s'. recycle SIZE s = Inr s' \<and> data_inv SIZE (s'\<lparr>logger := LTop\<rparr>)
    \<and> log_state s' = log_state s \<and> appenders s' = appenders s \<and> stopper s' = stopper s
    \<and> logger s' = logger s \<and> running s' = running s"
proof -
  have ne: "buffersToWrite s \<noteq> []" using assms by (simp add: data_inv_def swapped_def)
  then obtain bs b where bs: "buffersToWrite s = bs @ [b]" by (metis append_butlast_last_id)
  obtain f where f: "cur_file (log_file s) = Some f" using assms by (auto simp: data_inv_def)
  have ok: "buf_ok SIZE b" "list_all (buf_ok SIZE) bs" using assms(1) bs by (auto simp: data_inv_def)
  show ?thesis
  proof (cases "newBuffer2 s = None \<and> bs \<noteq> []")
    case True
    then obtain cs c where cs: "bs = cs @ [c]" by (metis append_butlast_last_id)
    then show ?thesis
      using assms ok f bs True fb_reset_ok[of SIZE]
      by (auto simp: recycle_def LogFile_flush_def data_inv_def unwritten_def swapped_def spare_ok_def
          log_output_def Let_def butlast_append)
  next
    case False
    then show ?thesis
      using assms ok f bs fb_reset_ok[of SIZE]
      by (auto simp: recycle_def LogFile_flush_def data_inv_def unwritten_def swapped_def spare_ok_def
          log_output_def Let_def)
  qed
qed


subsection \<open>Every step keeps the invariant\<close>

definition async_inv :: "nat \<Rightarrow> async_logger \<Rightarrow> bool" where
  "async_inv SIZE s \<longleftrightarrow> lock_inv s \<and> data_inv SIZE s"

lemma data_frame:
  assumes "data_inv SIZE s" and "\<not> swapped pc" and "\<not> swapped (logger s)" and "pc \<noteq> LAborted"
  shows "data_inv SIZE (s\<lparr>logger := pc\<rparr>)"
  using assms by (auto simp: data_inv_def unwritten_def swapped_def)

lemma data_other [simp]:
  "data_inv SIZE (s\<lparr>log_state := w\<rparr>) = data_inv SIZE s"
  "data_inv SIZE (s\<lparr>appenders := a\<rparr>) = data_inv SIZE s"
  "data_inv SIZE (s\<lparr>stopper := t\<rparr>) = data_inv SIZE s"
  "data_inv SIZE (s\<lparr>running := r\<rparr>) = data_inv SIZE s"
  by (simp_all add: data_inv_def unwritten_def)

lemma append_step_inv:
  assumes "async_inv SIZE s"
  shows "async_inv SIZE (append_step SIZE spur i s)"
proof -
  have lock: "lock_inv s" and dat: "data_inv SIZE s" using assms by (auto simp: async_inv_def)
  show ?thesis
  proof (cases "appenders s i")
    case AIdle
    then show ?thesis using assms by (simp add: append_step_def)
  next
    case (ALoad logs)
    then show ?thesis
      using lock dat free_word[OF lock]
      by (auto simp: append_step_def async_inv_def Let_def intro: lock_goto)
  next
    case (AWait logs old)
    then show ?thesis using lock dat by (auto simp: append_step_def async_inv_def Let_def intro: lock_goto)
  next
    case (ACas logs old)
    then have "old = available" using lock_invD(4)[OF lock] by blast
    with ACas show ?thesis
      using lock dat lock_acquire[OF lock]
      by (auto simp: append_step_def async_inv_def Let_def intro: lock_goto)
  next
    case (AHold logs)
    obtain w s' where b: "append_body SIZE logs s = Inr (w, s')" "w \<in> {available, full}"
      and fr: "log_state s' = log_state s" "appenders s' = appenders s" "logger s' = logger s"
        "stopper s' = stopper s" "accepted s' = accepted s"
      and d: "data_inv SIZE (s'\<lparr>accepted := accepted s @ (if length logs \<le> SIZE then logs else [])\<rparr>)"
      using append_body_ok[OF dat, of logs] by blast
    have "lock_inv (s\<lparr>appenders := (appenders s)(i := AStore w)\<rparr>)"
      using lock_store_next[OF lock AHold b(2)] .
    then have "lock_inv (s'\<lparr>accepted := accepted s @ (if length logs \<le> SIZE then logs else []),
        appenders := (appenders s)(i := AStore w)\<rparr>)"
      by (rule lock_frame) (simp_all add: fr)
    then show ?thesis
      using AHold b fr d by (simp add: append_step_def async_inv_def Let_def)
  next
    case (AStore w)
    then show ?thesis
      using dat lock_release[OF lock AStore] by (simp add: append_step_def async_inv_def)
  qed
qed

lemma stop_step_inv:
  assumes "async_inv SIZE s"
  shows "async_inv SIZE (stop_step spur s)"
proof -
  have lock: "lock_inv s" and dat: "data_inv SIZE s" using assms by (auto simp: async_inv_def)
  have "lock_inv (s\<lparr>running := r, stopper := TLoad\<rparr>)" for r
    by (rule lock_frame[OF lock_stopper[OF lock, of TLoad]]) simp_all
  moreover have "lock_inv (s\<lparr>log_state := 0, stopper := TJoin\<rparr>)" if "log_state s = available"
    using lock_invD[OF lock] that by (intro lock_invI) (auto simp: flags)
  ultimately show ?thesis
    using lock dat free_word[OF lock] lock_invD(9)[OF lock]
    by (cases "stopper s") (auto simp: stop_step_def async_inv_def Let_def intro: lock_stopper)
qed

lemma logger_step_inv:
  assumes "async_inv SIZE s" and "\<And>n. fw n = [Took n False]"
  shows "async_inv SIZE (logger_step SIZE env fw spur s)"
proof -
  have lock: "lock_inv s" and dat: "data_inv SIZE s" using assms by (auto simp: async_inv_def)
  note L = lock_invD[OF lock]
  show ?thesis
  proof (cases "logger s")
    case LTop
    then have "empty_buffer (newBuffer1 s) \<and> empty_buffer (newBuffer2 s) \<and> buffersToWrite s = []"
      using dat by (auto simp: data_inv_def swapped_def empty_buffer_def spare_ok_def fb_length_def)
    with LTop show ?thesis
      using lock dat
      by (auto simp: logger_step_def async_inv_def swapped_def Let_def intro!: lock_logger data_frame)
  next
    case LLoad
    have "log_state s = available"
      if "has_flag (log_state s) available" "\<not> has_flag (log_state s) appending"
      using swap_word[OF lock _ that] LLoad by simp
    with LLoad show ?thesis
      using lock dat not_full_available[OF lock]
      by (auto simp: logger_step_def async_inv_def swapped_def Let_def intro!: lock_logger data_frame)
  next
    case (LWait old)
    then show ?thesis
      using lock dat
      by (auto simp: logger_step_def async_inv_def swapped_def Let_def intro!: lock_logger data_frame)
  next
    case (LCasFull old)
    then show ?thesis using L(7) by blast
  next
    case (LCas old)
    then have old: "old = available" using L(8) by blast
    have "lock_inv (s\<lparr>log_state := available OR swaping, logger := LSwap\<rparr>)" if "log_state s = available"
    proof -
      have "\<not> holder (appenders s j)" for j using L(3)[of j] that by (auto simp: flags)
      then show ?thesis using L that by (intro lock_invI) (auto simp: flags)
    qed
    then show ?thesis
      using LCas old lock_logger[OF lock, of LLoad] data_frame[OF dat, of LLoad]
        data_frame[of SIZE "s\<lparr>log_state := available OR swaping\<rparr>" LSwap] dat
      by (simp add: logger_step_def async_inv_def swapped_def)
  next
    case LSwap
    have "lock_inv ((swap_buffers s)\<lparr>logger := LRelease\<rparr>)"
      using L LSwap by (intro lock_invI) auto
    with LSwap show ?thesis
      using swap_buffers_ok[OF dat LSwap] by (simp add: logger_step_def async_inv_def)
  next
    case LRelease
    then have st: "log_state s = available OR swaping" using L(6) by simp
    have "\<not> holder (appenders s j)" for j using L(3)[of j] st by (auto simp: flags)
    then have "lock_inv (s\<lparr>log_state := available, logger := LWrite\<rparr>)"
      using L LRelease st by (intro lock_invI) (auto simp: flags)
    moreover have "data_inv SIZE (s\<lparr>log_state := available, logger := LWrite\<rparr>)"
      using dat LRelease by (simp add: data_inv_def unwritten_def swapped_def)
    moreover have "log_state s - swaping = available" by (simp add: st flags)
    ultimately show ?thesis using LRelease by (simp add: logger_step_def async_inv_def)
  next
    case LWrite
    obtain l where l: "write_buffers env fw (buffersToWrite s) (log_file s) = Inr l"
      "cur_file l \<noteq> None" "log_output l = log_output (log_file s) @ texts (buffersToWrite s)"
      using write_buffers_ok[of "log_file s" fw SIZE "buffersToWrite s" env] dat assms(2)
      by (auto simp: data_inv_def)
    have "lock_inv (s\<lparr>log_file := l, logger := LRecycle\<rparr>)"
      using L LWrite by (intro lock_invI) auto
    moreover have "data_inv SIZE (s\<lparr>log_file := l, logger := LRecycle\<rparr>)"
      using dat LWrite l by (simp add: data_inv_def unwritten_def swapped_def)
    ultimately show ?thesis using LWrite l by (simp add: logger_step_def async_inv_def)
  next
    case LRecycle
    obtain s' where s': "recycle SIZE s = Inr s'" "data_inv SIZE (s'\<lparr>logger := LTop\<rparr>)"
      "log_state s' = log_state s" "appenders s' = appenders s" "stopper s' = stopper s"
      using recycle_ok[OF dat LRecycle] by blast
    have "lock_inv (s'\<lparr>logger := LTop\<rparr>)" using L LRecycle s' by (intro lock_invI) auto
    then show ?thesis using LRecycle s' by (simp add: logger_step_def async_inv_def)
  next
    case LFinish
    obtain f where f: "cur_file (log_file s) = Some f" using dat by (auto simp: data_inv_def)
    have "lock_inv (s\<lparr>log_file := l, log_state := 0, logger := LReturned\<rparr>)" for l
      using L LFinish by (intro lock_invI) (auto simp: flags)
    then show ?thesis
      using LFinish f dat
      by (simp add: logger_step_def async_inv_def LogFile_flush_def data_inv_def unwritten_def
          swapped_def log_output_def)
  next
    case LReturned
    then show ?thesis using assms by (simp add: logger_step_def)
  next
    case LAborted
    then show ?thesis using assms by (simp add: logger_step_def)
  qed
qed

lemma async_step_inv:
  assumes "async_step SIZE env fw s s'" and "async_inv SIZE s" and "\<And>n. fw n = [Took n False]"
  shows "async_inv SIZE s'"
  using assms
proof (cases rule: async_step.cases)
  case (Call i logs)
  then show ?thesis using assms(2) lock_goto[of s "ALoad logs" i] by (simp add: async_inv_def)
qed (simp_all add: append_step_inv stop_step_inv logger_step_inv)

lemma async_run_inv:
  assumes "async_run SIZE env fw s s'" and "async_inv SIZE s" and "\<And>n. fw n = [Took n False]"
  shows "async_inv SIZE s'"
  using assms(1) unfolding async_run_def
  by (induction rule: rtranclp_induct) (use assms async_step_inv in blast)+

lemma AsyncLogger_inv:
  assumes "cur_file lf \<noteq> None" and "log_output lf = []"
  shows "async_inv SIZE (AsyncLogger SIZE available lf)"
proof -
  have "lock_inv (AsyncLogger SIZE available lf)"
    by (intro lock_invI) (auto simp: AsyncLogger_def flags)
  moreover have "data_inv SIZE (AsyncLogger SIZE available lf)"
    using assms
    by (simp add: AsyncLogger_def data_inv_def unwritten_def swapped_def spare_ok_def fb_bzero_def
        buf_ok_def fb_ok_def new_LogBuffer_def fb_toString_def fb_length_def)
  ultimately show ?thesis by (simp add: async_inv_def)
qed


subsection \<open>A word without available\<close>

text \<open>No thread works on the buffers and none can start to.\<close>

definition dead :: "async_logger \<Rightarrow> bool" where
  "dead s \<longleftrightarrow> log_state s \<in> {0, full} \<and> (\<forall>i. \<not> holder (appenders s i))"

definition same_buffers :: "async_logger \<Rightarrow> async_logger \<Rightarrow> bool" where
  "same_buffers s s' \<longleftrightarrow> accepted s' = accepted s \<and> buffers s' = buffers s \<and> cur_buffer s' = cur_buffer s"

lemma no_available: "dead s \<Longrightarrow> \<not> has_flag (log_state s) available"
  by (auto simp: dead_def has_flag_def flags)

lemma append_step_dead:
  assumes "dead s" and "lock_inv s"
  shows "dead (append_step SIZE spur i s) \<and> same_buffers s (append_step SIZE spur i s)"
proof -
  have h: "\<not> holder (appenders s i)" using assms(1) by (simp add: dead_def)
  have "log_state s \<noteq> old" if "appenders s i = ACas l old" for l old
    using lock_invD(4)[OF assms(2) that] assms(1) by (auto simp: dead_def flags)
  with h show ?thesis
    using assms(1) no_available[OF assms(1)]
    by (cases "appenders s i") (auto simp: append_step_def dead_def same_buffers_def Let_def)
qed

lemma recycle_frame:
  assumes "recycle SIZE s = Inr s'"
  shows "same_buffers s s'" and "log_state s' = log_state s" and "appenders s' = appenders s"
  using assms
  by (auto simp: recycle_def same_buffers_def Let_def and_then_eq_Inr simp del: last.simps butlast.simps
      split: if_split_asm)

lemma logger_step_dead:
  assumes "dead s" and "lock_inv s"
  shows "dead (logger_step SIZE env fw spur s) \<and> same_buffers s (logger_step SIZE env fw spur s)"
proof -
  have st: "log_state s \<noteq> available OR swaping" using assms(1) by (auto simp: dead_def flags)
  show ?thesis
  proof (cases "logger s")
    case LSwap
    then show ?thesis using lock_invD(6)[OF assms(2)] st by simp
  next
    case LRelease
    then show ?thesis using lock_invD(6)[OF assms(2)] st by simp
  next
    case (LCasFull old)
    then show ?thesis using lock_invD(7)[OF assms(2)] by simp
  next
    case (LCas old)
    then have "log_state s \<noteq> old"
      using lock_invD(8)[OF assms(2)] assms(1) by (auto simp: dead_def flags)
    with LCas show ?thesis
      using assms(1) by (simp add: logger_step_def dead_def same_buffers_def Let_def)
  next
    case LRecycle
    then show ?thesis
      using assms(1) recycle_frame[of SIZE s]
      by (cases "recycle SIZE s") (auto simp: logger_step_def dead_def same_buffers_def)
  next
    case LLoad
    then show ?thesis
      using assms(1) no_available[OF assms(1)]
      by (simp add: logger_step_def dead_def same_buffers_def Let_def)
  qed (use assms(1) in \<open>auto simp: logger_step_def dead_def same_buffers_def Let_def split: sum.split\<close>)
qed

lemma stop_step_dead:
  assumes "dead s" and "lock_inv s"
  shows "dead (stop_step spur s) \<and> same_buffers s (stop_step spur s)"
proof -
  have "log_state s \<noteq> old" if "stopper s = TCas old" for old
    using lock_invD(9)[OF assms(2) that] assms(1) by (auto simp: dead_def flags)
  then show ?thesis
    using assms(1) no_available[OF assms(1)]
    by (cases "stopper s") (auto simp: stop_step_def dead_def same_buffers_def Let_def)
qed

lemma async_step_dead:
  assumes "async_step SIZE env fw s s'" and "dead s" and "lock_inv s"
  shows "dead s' \<and> same_buffers s s'"
  using assms(1)
proof (cases rule: async_step.cases)
  case (Call i logs)
  then show ?thesis using assms(2) by (auto simp: dead_def same_buffers_def)
qed (use assms append_step_dead logger_step_dead stop_step_dead in blast)+

lemma async_run_dead:
  assumes "async_run SIZE env fw s s'" and "dead s" and "async_inv SIZE s"
    and "\<And>n. fw n = [Took n False]"
  shows "dead s' \<and> same_buffers s s' \<and> async_inv SIZE s'"
  using assms(1) unfolding async_run_def
proof (induction rule: rtranclp_induct)
  case base
  then show ?case using assms by (simp add: same_buffers_def)
next
  case (step s1 s2)
  then show ?case
    using async_step_dead[OF step.hyps(2)] async_step_inv[OF step.hyps(2)] assms(4)
    by (auto simp: async_inv_def same_buffers_def)
qed

subsection \<open>Properties\<close>

text \<open>Schedules, for examples: the steps of the threads in a given order.\<close>

datatype action = DoCall nat string | DoAppend nat | DoLog | DoStop

definition demo_env :: log_env where
  "demo_env = \<lparr>clock = (\<lambda>_. 1000), stamp = (\<lambda>_. ''.t''), hostpid = ''.h.1''\<rparr>"

definition demo_fw :: "nat \<Rightarrow> fwrite_answer list" where
  "demo_fw n = [Took n False]"

definition demo_file :: LogFile where
  "demo_file = (case LogFile_new demo_env ''log'' 1000 3 1024 of Inr l \<Rightarrow> l | Inl e \<Rightarrow> undefined)"

fun perform :: "nat \<Rightarrow> action \<Rightarrow> async_logger \<Rightarrow> async_logger" where
  "perform SIZE (DoCall i logs) s =
     (if appenders s i = AIdle \<and> length logs < 100 then s\<lparr>appenders := (appenders s)(i := ALoad logs)\<rparr> else s)"
| "perform SIZE (DoAppend i) s = append_step SIZE False i s"
| "perform SIZE DoLog s = logger_step SIZE demo_env demo_fw False s"
| "perform SIZE DoStop s = stop_step False s"

lemma perform_run: "async_run SIZE demo_env demo_fw s (perform SIZE a s)"
proof (cases a)
  case (DoCall i logs)
  have "async_step SIZE demo_env demo_fw s (s\<lparr>appenders := (appenders s)(i := ALoad logs)\<rparr>)"
    if "appenders s i = AIdle" "length logs < 100"
    using that by (intro async_step.Call) auto
  then show ?thesis unfolding DoCall async_run_def by (auto intro: r_into_rtranclp)
qed (auto simp: async_run_def intro: async_step.intros)

lemma fold_perform_run: "async_run SIZE demo_env demo_fw s (fold (perform SIZE) as s)"
proof (induction "as" arbitrary: s)
  case Nil
  then show ?case by (simp add: async_run_def)
next
  case (Cons a "as")
  then show ?case
    using perform_run[of SIZE s a] by (auto simp: async_run_def intro: rtranclp_trans)
qed

text \<open>One call of \<^verbatim>\<open>append\<close> that is not disturbed takes four steps.\<close>

definition one_append :: "nat \<Rightarrow> string \<Rightarrow> action list" where
  "one_append i logs = DoCall i logs # replicate 4 (DoAppend i)"

abbreviation demo_logger :: async_logger where
  "demo_logger \<equiv> AsyncLogger 4 available demo_file"

definition written_once :: async_logger where
  "written_once = fold (perform 4) (one_append 0 ''ab'' @ replicate 6 DoLog) demo_logger"

definition overflowed :: async_logger where
  "overflowed = fold (perform 4) (one_append 0 ''abc'' @ one_append 1 ''de'') demo_logger"

definition tried_again :: async_logger where
  "tried_again = fold (perform 4) (one_append 0 ''f'' @ replicate 3 DoLog) overflowed"

lemma demo_file_ok: "cur_file demo_file \<noteq> None" "log_output demo_file = []"
  by code_simp+

lemma written_once_values: "accepted written_once = ''ab''" "log_output (log_file written_once) = ''ab''"
  "unwritten written_once = []"
  by code_simp+

lemma overflowed_values: "log_state overflowed = full" "accepted overflowed = ''abcde''"
  "log_output (log_file overflowed) = []"
  by code_simp+

lemma overflowed_run: "async_run 4 demo_env demo_fw demo_logger overflowed"
  unfolding overflowed_def by (rule fold_perform_run)

lemma overflowed_free: "\<not> holder (appenders overflowed i)"
proof -
  have "lock_inv overflowed"
    using async_run_inv[OF overflowed_run AsyncLogger_inv[OF demo_file_ok]]
    by (simp add: async_inv_def demo_fw_def)
  then show ?thesis using lock_invD(3)[of overflowed i] by (auto simp: overflowed_values flags)
qed




text \<open>Once the word has lost \<^verbatim>\<open>available\<close> with no thread at the buffers, as it does when a line
  does not fit the current buffer and when the logger is stopped, it never gets it back: no line is
  accepted any more, and what is in the buffers is never written.\<close>

theorem lost_available_is_final:
  assumes "async_run SIZE env fw (AsyncLogger SIZE available lf) s"
    and "cur_file lf \<noteq> None" and "log_output lf = []" and "\<And>n. fw n = [Took n False]"
    and "log_state s \<in> {0, full}" and "\<And>i. \<not> holder (appenders s i)"
    and "async_run SIZE env fw s s'"
  shows "accepted s' = accepted s \<and> buffers s' = buffers s \<and> cur_buffer s' = cur_buffer s
    \<and> \<not> has_flag (log_state s') available"
proof -
  have inv: "async_inv SIZE s"
    using async_run_inv[OF assms(1) AsyncLogger_inv[OF assms(2,3)] assms(4)] .
  have "dead s" using assms(5,6) by (simp add: dead_def)
  from async_run_dead[OF assms(7) this inv assms(4)] no_available show ?thesis
    by (auto simp: same_buffers_def)
qed


theorem lost_available_is_final_witness:
  "accepted overflowed = ''abcde'' \<and> accepted tried_again = ''abcde''
    \<and> buffers tried_again = buffers overflowed"
proof -
  have run: "async_run 4 demo_env demo_fw overflowed tried_again"
    unfolding tried_again_def by (rule fold_perform_run)
  have st: "log_state overflowed \<in> {0, full}" by (simp add: overflowed_values)
  from lost_available_is_final[OF overflowed_run demo_file_ok demo_fw_def st overflowed_free run]
  show ?thesis by (simp add: overflowed_values)
qed

end
