(* ===== verification/Log_Statement.thy ===== *)
theory Log_Statement
  imports Log_Stream
begin

text \<open>
  \<^verbatim>\<open>src/src/Loggers/Logger.{h,cpp}\<close>: what one \<^verbatim>\<open>LOG_...\<close> statement does, from the constructor of
  the temporary \<^verbatim>\<open>Logger\<close> through the insertions of the statement to the destructor that emits the
  line. The calendar (\<^verbatim>\<open>gmtime_r\<close>, \<^verbatim>\<open>localtime_r\<close> and the date part of the format), the message
  of \<^verbatim>\<open>strerror_r\<close> and the thread id are arguments; calls of the output and flush functions are
  recorded in \<open>emitted\<close> and \<open>flush_calls\<close>.
\<close>

subsection \<open>Levels and source files\<close>

datatype LogLevel = TRACE | DEBUG | INFO | WARN | ERROR | FATAL

primrec level_number :: "LogLevel \<Rightarrow> nat" where
  "level_number TRACE = 0"
| "level_number DEBUG = 1"
| "level_number INFO = 2"
| "level_number WARN = 3"
| "level_number ERROR = 4"
| "level_number FATAL = 5"

primrec LogLevelName :: "LogLevel \<Rightarrow> string" where
  "LogLevelName TRACE = ''TRACE ''"
| "LogLevelName DEBUG = ''DEBUG ''"
| "LogLevelName INFO = ''INFO  ''"
| "LogLevelName WARN = ''WARN  ''"
| "LogLevelName ERROR = ''ERROR ''"
| "LogLevelName FATAL = ''FATAL ''"

definition initLogLevel :: "(string \<Rightarrow> bool) \<Rightarrow> LogLevel" where
  "initLogLevel env_set =
     (if env_set ''LOG_TRACE'' then TRACE else if env_set ''LOG_DEBUG'' then DEBUG else INFO)"

text \<open>\<^verbatim>\<open>SourceFile\<close> of an array: the part behind the last slash, and its length.\<close>

definition SourceFile :: "string \<Rightarrow> string \<times> nat" where
  "SourceFile arr =
     (if CHR ''/'' \<in> set arr then
        let base = rev (takeWhile (\<lambda>c. c \<noteq> CHR ''/'') (rev arr))
        in (base, length arr - (length arr - length base))
      else (arr, length arr))"

subsection \<open>Time stamps\<close>

text \<open>
  Seconds and microseconds of a signed number of microseconds, as the two conversion functions
  compute them: the quotient rounds to zero and is corrected for a negative remainder.
\<close>

definition split_microseconds :: "int \<Rightarrow> int \<times> int" where
  "split_microseconds us =
    (let seconds = us sdiv 1000000; us_remainder = us smod 1000000
     in if us_remainder < 0 then (seconds - 1, us_remainder + 1000000) else (seconds, us_remainder))"

text \<open>\<^verbatim>\<open>%06lld\<close> of a number that is not negative.\<close>

definition pad6 :: "int \<Rightarrow> string" where
  "pad6 n = (let ds = dec_digits (nat n) in replicate (6 - length ds) (CHR ''0'') @ ds)"

text \<open>
  \<open>calendar\<close> is the text of year, month, day, hour, minute and second of a time; \<^verbatim>\<open>snprintf\<close>
  stores at most 31 characters of the whole in the array of 32.
\<close>

definition time_text :: "(int \<Rightarrow> string) \<Rightarrow> int \<times> int \<Rightarrow> string" where
  "time_text calendar = (\<lambda>(seconds, us). take 31 (calendar seconds @ ''.'' @ pad6 us))"

definition microseconds_to_utc_string :: "(int \<Rightarrow> string) \<Rightarrow> int \<Rightarrow> string" where
  "microseconds_to_utc_string gmtime us = time_text gmtime (split_microseconds us)"

definition microseconds_to_localtime_string :: "(int \<Rightarrow> string) \<Rightarrow> int \<Rightarrow> string" where
  "microseconds_to_localtime_string localtime us = time_text localtime (split_microseconds us)"

text \<open>\<^verbatim>\<open>Timestamp::toStr\<close> (\<^verbatim>\<open>Timers/Timestamp.cpp\<close>) prints the same way into an array of 32; both parts are
  far below \<open>2 ^ 63\<close>, so that \<^verbatim>\<open>%ld\<close> reads them as they are.\<close>

definition timestamp_toStr :: "u64 \<Rightarrow> string" where
  "timestamp_toStr us =
    (let second = us div 1000000; microSecond = us mod 1000000
     in take 31 (dec_digits (unat second) @ ''.'' @ pad6 (uint microSecond)))"

subsection \<open>One statement\<close>

record log_globals =
  g_logLevel :: LogLevel
  emitted :: "string list"
  flush_calls :: nat
  aborted :: bool

record log_site =
  site_gmtime :: "int \<Rightarrow> string"
  site_strerror :: "int \<Rightarrow> string"
  site_tid :: string

text \<open>The overload for \<^verbatim>\<open>T(str, len)\<close> and the one for \<^verbatim>\<open>SourceFile\<close> insert \<open>len\<close> characters.\<close>

definition put_T :: "string \<times> nat \<Rightarrow> 'd operand" where
  "put_T p = OString (take (snd p) (fst p))"

abbreviation lit :: "string \<Rightarrow> 'd operand" where
  "lit str \<equiv> OCStr (Some str)"

text \<open>The time of the statement is unsigned, so that the correction is not needed.\<close>

definition formatedTime :: "log_site \<Rightarrow> u64 \<Rightarrow> 'd operand list" where
  "formatedTime env now =
     [lit ''['', put_T (time_text (site_gmtime env) (split_microseconds (uint now)), 26), lit ''] '']"

definition Logger_Impl :: "log_site \<Rightarrow> u64 \<Rightarrow> LogLevel \<Rightarrow> 32 word \<Rightarrow> 'd operand list" where
  "Logger_Impl env now level err =
     formatedTime env now @ [lit ''tid:'', put_T (site_tid env, length (site_tid env)), lit '' '',
       lit (LogLevelName level)]
     @ (if err \<noteq> 0
        then [lit (site_strerror env (sint err)), lit '' (errno='', OInt err, lit '') '']
        else [])"

definition Logger_finish :: "string \<times> nat \<Rightarrow> 32 word \<Rightarrow> 'd operand list" where
  "Logger_finish file line = [lit '' - '', put_T file, OChar CHR '':'', OInt line, OChar (CHR 0x0A)]"

text \<open>The four constructors: which level, error number and function name they stand for.\<close>

datatype logger_ctor =
    CtorFunc LogLevel string
  | CtorLevel LogLevel
  | CtorInfo
  | CtorAbort bool "32 word"

fun ctor_operands :: "log_site \<Rightarrow> u64 \<Rightarrow> logger_ctor \<Rightarrow> 'd operand list" where
  "ctor_operands env now (CtorFunc level func) =
     Logger_Impl env now level 0 @ [lit func, lit '''']"
| "ctor_operands env now (CtorLevel level) = Logger_Impl env now level 0"
| "ctor_operands env now CtorInfo = Logger_Impl env now INFO 0"
| "ctor_operands env now (CtorAbort shouldAbort err) =
     Logger_Impl env now (if shouldAbort then ERROR else INFO) err"

text \<open>The destructor: it looks at the global level, not at the level of the statement.\<close>

definition Logger_dtor :: "LogStream \<Rightarrow> log_globals \<Rightarrow> log_globals" where
  "Logger_dtor s g =
    (let g = g\<lparr>emitted := emitted g @ [fb_toString (buffer s)], flush_calls := Suc (flush_calls g)\<rparr>
     in if g_logLevel g = FATAL then g\<lparr>aborted := True\<rparr> else g)"

definition Logger_run ::
  "('d \<Rightarrow> string) \<Rightarrow> log_site \<Rightarrow> u64 \<Rightarrow> logger_ctor \<Rightarrow> string \<times> nat \<Rightarrow> 32 word \<Rightarrow> 'd operand list \<Rightarrow>
     LogStream \<Rightarrow> log_globals \<Rightarrow> log_globals outcome" where
  "Logger_run fmt env now ctor file line xs s g =
     and_then (put_chain fmt (ctor_operands env now ctor) s) (\<lambda>s.
     and_then (put_chain fmt xs s) (\<lambda>s.
     and_then (put_chain fmt (Logger_finish file line) s) (\<lambda>s.
     Inr (Logger_dtor s g))))"

text \<open>The macros.\<close>

datatype log_macro =
    LOG_TRACE | LOG_DEBUG | LOG_INFO | LOG_WARN | LOG_ERROR | LOG_FATAL | LOG_SYSERR | LOG_SYSFATAL

fun macro_enabled :: "log_macro \<Rightarrow> LogLevel \<Rightarrow> bool" where
  "macro_enabled LOG_TRACE g = (level_number g \<le> level_number TRACE)"
| "macro_enabled LOG_DEBUG g = (level_number g \<le> level_number DEBUG)"
| "macro_enabled LOG_INFO g = (level_number g \<le> level_number INFO)"
| "macro_enabled _ g = True"

fun macro_ctor :: "log_macro \<Rightarrow> string \<Rightarrow> 32 word \<Rightarrow> logger_ctor" where
  "macro_ctor LOG_TRACE func err = CtorFunc TRACE func"
| "macro_ctor LOG_DEBUG func err = CtorFunc DEBUG func"
| "macro_ctor LOG_INFO func err = CtorInfo"
| "macro_ctor LOG_WARN func err = CtorLevel WARN"
| "macro_ctor LOG_ERROR func err = CtorLevel ERROR"
| "macro_ctor LOG_FATAL func err = CtorLevel FATAL"
| "macro_ctor LOG_SYSERR func err = CtorAbort False err"
| "macro_ctor LOG_SYSFATAL func err = CtorAbort True err"

text \<open>\<open>func\<close>, \<open>err\<close>, \<open>file\<close> and \<open>line\<close> are \<^verbatim>\<open>__func__\<close>, \<^verbatim>\<open>errno\<close>, \<^verbatim>\<open>__FILE__\<close> and \<^verbatim>\<open>__LINE__\<close>.\<close>

definition log_statement ::
  "('d \<Rightarrow> string) \<Rightarrow> log_site \<Rightarrow> u64 \<Rightarrow> log_macro \<Rightarrow> string \<Rightarrow> 32 word \<Rightarrow> string \<Rightarrow> 32 word \<Rightarrow>
     'd operand list \<Rightarrow> LogStream \<Rightarrow> log_globals \<Rightarrow> log_globals outcome" where
  "log_statement fmt env now mac func err file line xs s g =
     (if macro_enabled mac (g_logLevel g)
      then Logger_run fmt env now (macro_ctor mac func err) (SourceFile file) line xs s g
      else Inr g)"

definition setLogLevel :: "LogLevel \<Rightarrow> log_globals \<Rightarrow> log_globals" where
  "setLogLevel level g = g\<lparr>g_logLevel := level\<rparr>"


subsection \<open>The emitted line\<close>

lemma Logger_run_chain:
  "Logger_run fmt env now ctor file line xs s g =
     and_then (put_chain fmt (ctor_operands env now ctor @ xs @ Logger_finish file line) s)
       (\<lambda>s. Inr (Logger_dtor s g))"
  by (simp add: Logger_run_def put_chain_def put_list_append and_then_assoc)

text \<open>The layout of a line, as text.\<close>

definition level_of :: "log_macro \<Rightarrow> LogLevel" where
  "level_of mac = (case mac of LOG_TRACE \<Rightarrow> TRACE | LOG_DEBUG \<Rightarrow> DEBUG | LOG_INFO \<Rightarrow> INFO | LOG_WARN \<Rightarrow> WARN
     | LOG_ERROR \<Rightarrow> ERROR | LOG_FATAL \<Rightarrow> FATAL | LOG_SYSERR \<Rightarrow> INFO | LOG_SYSFATAL \<Rightarrow> ERROR)"

definition errno_text :: "log_site \<Rightarrow> log_macro \<Rightarrow> 32 word \<Rightarrow> string" where
  "errno_text env mac err =
     (if mac \<in> {LOG_SYSERR, LOG_SYSFATAL} \<and> err \<noteq> 0
      then site_strerror env (sint err) @ '' (errno='' @ show_int (sint err) @ '') '' else [])"

definition func_text :: "log_macro \<Rightarrow> string \<Rightarrow> string" where
  "func_text mac func = (if mac \<in> {LOG_TRACE, LOG_DEBUG} then func else [])"

definition line_text ::
  "log_site \<Rightarrow> u64 \<Rightarrow> log_macro \<Rightarrow> string \<Rightarrow> 32 word \<Rightarrow> string \<Rightarrow> 32 word \<Rightarrow> string \<Rightarrow> string" where
  "line_text env now mac func err file line msg =
     ''['' @ take 26 (time_text (site_gmtime env) (split_microseconds (uint now))) @ ''] tid:''
     @ site_tid env @ '' '' @ LogLevelName (level_of mac) @ errno_text env mac err @ func_text mac func
     @ msg @ '' - '' @ fst (SourceFile file) @ '':'' @ show_int (sint line) @ [CHR 0x0A]"

definition line_operands ::
  "log_site \<Rightarrow> u64 \<Rightarrow> log_macro \<Rightarrow> string \<Rightarrow> 32 word \<Rightarrow> string \<Rightarrow> 32 word \<Rightarrow> 'd operand list \<Rightarrow> 'd operand list"
where
  "line_operands env now mac func err file line xs =
     ctor_operands env now (macro_ctor mac func err) @ xs @ Logger_finish (SourceFile file) line"

lemma SourceFile_length: "take (snd (SourceFile file)) (fst (SourceFile file)) = fst (SourceFile file)"
proof -
  have "length (takeWhile P (rev file)) \<le> length file" for P
    using length_takeWhile_le[of P "rev file"] by simp
  then show ?thesis by (simp add: SourceFile_def Let_def)
qed

lemma line_operands_text:
  "concat (map (operand_text fmt) (line_operands env now mac func err file line xs))
     = line_text env now mac func err file line (concat (map (operand_text fmt) xs))"
  by (cases mac)
    (auto simp: SourceFile_length line_operands_def line_text_def Logger_finish_def Logger_Impl_def formatedTime_def
      put_T_def level_of_def errno_text_def func_text_def)

definition emit :: "string \<Rightarrow> log_globals \<Rightarrow> log_globals" where
  "emit t g = g\<lparr>emitted := emitted g @ [t], flush_calls := Suc (flush_calls g),
     aborted := aborted g \<or> g_logLevel g = FATAL\<rparr>"

lemma Logger_dtor_emit: "Logger_dtor s g = emit (stream_text s) g"
  by (simp add: Logger_dtor_def emit_def stream_text_def Let_def)

lemma stream_text_bound: "stream_ok s \<Longrightarrow> length (stream_text s) \<le> 4096"
  by (simp add: length_stream_text) (simp add: stream_ok_def fb_ok_def)

subsection \<open>Properties\<close>

text \<open>C31: An enabled log statement emits exactly one line of at most 4096 bytes and flushes once; the
  line is the time stamp, the thread id, the level, the error text, the function name, the operands
  of the statement in order, the file name without directories and the line number, whenever there is
  room for all of them. The program is aborted by it exactly when the global level is FATAL, whatever
  the level of the statement.\<close>

theorem log_statement_emits_line:
  assumes "macro_enabled mac (g_logLevel g)" and "stream_ok s" and "stream_text s = []"
    and "list_all (operand_ok fmt) (line_operands env now mac func err file line xs)"
  shows "\<exists>t. log_statement fmt env now mac func err file line xs s g =
      Inr (g\<lparr>emitted := emitted g @ [t], flush_calls := Suc (flush_calls g),
             aborted := aborted g \<or> g_logLevel g = FATAL\<rparr>)
    \<and> length t \<le> 4096
    \<and> (sum_list (map (operand_room fmt) (line_operands env now mac func err file line xs)) \<le> 4096 \<longrightarrow>
       t = line_text env now mac func err file line (concat (map (operand_text fmt) xs)))"
proof -
  let ?ops = "line_operands env now mac func err file line xs"
  obtain s' where s': "put_chain fmt ?ops s = Inr s'" "stream_ok s'"
      "stream_text s' = fold (ls.step fmt) ?ops []"
    using ls.chain[OF assms(2,4)] assms(3) by (auto simp: put_chain_def)
  have "log_statement fmt env now mac func err file line xs s g = Inr (emit (stream_text s') g)"
    using assms(1) s'(1)
    by (simp add: log_statement_def Logger_run_chain line_operands_def Logger_dtor_emit)
  moreover have "stream_text s' = line_text env now mac func err file line (concat (map (operand_text fmt) xs))"
    if "sum_list (map (operand_room fmt) ?ops) \<le> 4096"
    using ls.fold_step_fits[OF assms(4), of "[]"] that s'(3) by (simp add: line_operands_text)
  ultimately show ?thesis using stream_text_bound[OF s'(2)] unfolding emit_def by blast
qed

definition demo_site :: log_site where
  "demo_site = \<lparr>site_gmtime = (\<lambda>_. ''2024-01-02 03:04:05''), site_strerror = (\<lambda>_. ''refused''), site_tid = ''   42''\<rparr>"

definition demo_globals :: log_globals where
  "demo_globals = \<lparr>g_logLevel = INFO, emitted = [], flush_calls = 0, aborted = False\<rparr>"

lemma show_7: "show_int 7 = ''7''"
  by code_simp

lemma demo_line_operands:
  "(line_operands demo_site 1000007 LOG_FATAL ''f'' 0 ''src/a.cpp'' 7 [OString ''hi''] :: nat operand list) =
    [lit ''['', OString ''2024-01-02 03:04:05.000007'', lit ''] '', lit ''tid:'', OString ''   42'', lit '' '',
     lit ''FATAL '', OString ''hi'', lit '' - '', OString ''a.cpp'', OChar CHR '':'', OInt 7, OChar (CHR 0x0A)]"
  by code_simp

theorem log_statement_emits_line_witness:
  "log_statement (\<lambda>d :: nat. []) demo_site 1000007 LOG_FATAL ''f'' 0 ''src/a.cpp'' 7 [OString ''hi'']
     new_stream demo_globals
   = Inr \<lparr>g_logLevel = INFO,
       emitted = [''[2024-01-02 03:04:05.000007] tid:   42 FATAL hi - a.cpp:7'' @ [CHR 0x0A]],
       flush_calls = 1, aborted = False\<rparr>"
proof -
  let ?ops = "line_operands demo_site 1000007 LOG_FATAL ''f'' 0 ''src/a.cpp'' 7 [OString ''hi''] :: nat operand list"
  have ok: "list_all (operand_ok (\<lambda>d :: nat. [])) ?ops"
    unfolding demo_line_operands by (simp add: operand_ok_def show_7)
  have room: "sum_list (map (operand_room (\<lambda>d :: nat. [])) ?ops) \<le> 4096"
    unfolding demo_line_operands by (simp add: operand_room_def)
  have layout: "line_text demo_site 1000007 LOG_FATAL ''f'' 0 ''src/a.cpp'' 7
      (concat (map (operand_text (\<lambda>d :: nat. [])) [OString ''hi'']))
    = ''[2024-01-02 03:04:05.000007] tid:   42 FATAL hi - a.cpp:7'' @ [CHR 0x0A]"
    by code_simp
  have "macro_enabled LOG_FATAL (g_logLevel demo_globals)" by simp
  from log_statement_emits_line[OF this new_stream_ok ok] room layout show ?thesis
    by (auto simp: demo_globals_def)
qed

text \<open>The text of a \<^verbatim>\<open>Timestamp\<close> is never cut: seconds, a dot and six digits fit the array for every time.\<close>

lemma toStr_complete:
  "timestamp_toStr us = dec_digits (unat us div 1000000) @ ''.'' @ pad6 (uint us mod 1000000)
    \<and> length (pad6 (uint us mod 1000000)) = 6"
proof -
  have n: "unat us < 18446744073709551616" using unsigned_less [of us] by simp
  have d: "unat (us div 1000000) = unat us div 1000000" "uint (us mod 1000000) = uint us mod 1000000"
    by (simp_all add: unat_div_distrib uint_mod_distrib)
  have "unat us div 1000000 < 10 ^ 14" using n by simp
  then have a: "length (dec_digits (unat us div 1000000)) \<le> 14" by (rule length_dec_digits) simp
  have "nat (uint us mod 1000000) < 10 ^ 6" by simp
  then have "length (dec_digits (nat (uint us mod 1000000))) \<le> 6" by (rule length_dec_digits) simp
  then have b: "length (pad6 (uint us mod 1000000)) = 6" by (simp add: pad6_def Let_def)
  with a d show ?thesis by (simp add: timestamp_toStr_def Let_def)
qed

text \<open>C39: Splitting microseconds into seconds and a remainder, by the truncating division of C++ and a
  correction for a negative remainder, is division rounding down: it agrees with the mathematical
  quotient and remainder for every time, before and after 1970.\<close>

theorem split_microseconds_floor:
  "split_microseconds us = (us div 1000000, us mod 1000000)
    \<and> microseconds_to_utc_string gm us = take 31 (gm (us div 1000000) @ ''.'' @ pad6 (us mod 1000000))"
proof -
  have "split_microseconds us = (us div 1000000, us mod 1000000)"
  proof (cases "us \<ge> 0")
    case True
    then show ?thesis
      by (simp add: split_microseconds_def signed_divide_int_def signed_modulo_int_def sgn_if not_less Let_def)
  next
    case False
    then have "us sdiv 1000000 = - ((- us) div 1000000)" "us smod 1000000 = - ((- us) mod 1000000)"
      by (simp_all add: signed_divide_int_def signed_modulo_int_def)
    then show ?thesis
      using zdiv_zminus1_eq_if[of 1000000 "- us"] zmod_zminus1_eq_if[of "- us" 1000000]
        pos_mod_sign[of 1000000 "- us"]
      by (auto simp: split_microseconds_def Let_def not_less split: if_splits)
  qed
  then show ?thesis by (simp add: microseconds_to_utc_string_def time_text_def)
qed

end
