(* ===== verification/Tcp_Server.thy ===== *)
theory Tcp_Server
  imports Log_Stream Channel_Poller "HOL-Library.Multiset"
begin

text \<open>
  The server side: \<^verbatim>\<open>src/src/EventloopThreadPool.{h,cpp}\<close> (which loop gets the next connection),
  \<^verbatim>\<open>src/src/basics/Acceptor.{h,cpp}\<close> (accepting on the listening socket) and
  \<^verbatim>\<open>src/src/TcpServer.{h,cpp}\<close>, which joins the two and keeps the connections by name. A loop is a
  name of type \<open>'l\<close>; what a connection does afterwards is the subject of \<open>Tcp_Connection\<close>. The
  acceptor's channel lives in the poller of \<open>Channel_Poller\<close>, and the answers of
  \<^verbatim>\<open>accept4\<close> are a list.
\<close>

subsection \<open>EventloopThreadPool\<close>

record 'l loop_pool =
  baseLoop :: 'l
  pool_started :: bool
  threadName :: string
  threadNum :: int
  next_idx :: int
  loops :: "'l list"
  init_calls :: "'l list"

definition EventloopThreadPool :: "'l \<Rightarrow> string \<Rightarrow> 'l loop_pool" where
  "EventloopThreadPool base nm = \<lparr>baseLoop = base, pool_started = False, threadName = nm, threadNum = -1,
     next_idx = 0, loops = [], init_calls = []\<rparr>"

definition setThreadNum :: "int \<Rightarrow> 'l loop_pool \<Rightarrow> 'l loop_pool" where
  "setThreadNum n p = p\<lparr>threadNum := n\<rparr>"

text \<open>
  \<^verbatim>\<open>start\<close>: \<open>spawn i\<close> is the loop the \<open>i\<close>-th thread makes (it runs the callback itself); with a
  name of more than 16 characters the name of a thread is printed outside the array of 16. The
  thread check only reports.
\<close>

definition pool_start :: "(nat \<Rightarrow> 'l) \<Rightarrow> bool \<Rightarrow> 'l loop_pool \<Rightarrow> 'l loop_pool outcome" where
  "pool_start spawn has_cb p =
     assert_then (\<not> pool_started p) (
     if threadNum p > 0 \<and> length (threadName p) > 16 then Inl OutOfBounds
     else
       let new = map spawn [0..<nat (threadNum p)];
           p = p\<lparr>loops := loops p @ new,
                 init_calls := init_calls p @ (if has_cb then new else [])\<rparr>;
           p = (if threadNum p = 0 \<and> has_cb then p\<lparr>init_calls := init_calls p @ [baseLoop p]\<rparr> else p)
       in Inr (p\<lparr>pool_started := True\<rparr>))"

definition getNextLoop :: "'l loop_pool \<Rightarrow> ('l \<times> 'l loop_pool) outcome" where
  "getNextLoop p =
     assert_then (pool_started p) (
     if loops p = [] then Inr (baseLoop p, p)
     else
       let nxt = (next_idx p + 1) mod int (length (loops p))
       in Inr (loops p ! nat nxt, p\<lparr>next_idx := nxt\<rparr>))"

subsection \<open>Acceptor\<close>

text \<open>
  \<open>peer_cells\<close> are the \<^verbatim>\<open>InetAddr\<close> objects on the heap, by the text of the address they hold.
\<close>

record 'cb acceptor = "'cb poller" +
  acceptFd :: int
  acceptChannel :: ptr
  listening :: bool
  idleFd :: int
  peer_cells :: "nat \<Rightarrow> string"
  next_cell :: nat

definition Acceptor ::
  "int \<Rightarrow> int \<Rightarrow> 'cb \<Rightarrow> 'cb poller \<Rightarrow> 'cb acceptor outcome" where
  "Acceptor sockfd idle on_read p =
     assert_then (idle \<ge> 0) (
     case add_channel sockfd p of (c, p) \<Rightarrow>
       and_then (modify (set_in_callback (Some on_read)) c p) (\<lambda>p.
       Inr (poller.extend p \<lparr>acceptFd = sockfd, acceptChannel = c, listening = False, idleFd = idle,
         peer_cells = (\<lambda>_. []), next_cell = 0\<rparr>)))"

definition acceptor_listen :: "('cb, 'z) acceptor_scheme \<Rightarrow> ('cb, 'z) acceptor_scheme outcome" where
  "acceptor_listen a = (let a = (assertInLoopThread a)\<lparr>listening := True\<rparr> in EnableRead (acceptChannel a) a)"

text \<open>\<^verbatim>\<open>stop\<close>, called in the loop's thread.\<close>

definition acceptor_stop :: "('cb, 'z) acceptor_scheme \<Rightarrow> ('cb, 'z) acceptor_scheme outcome" where
  "acceptor_stop a = and_then (DisableRead (acceptChannel a) a) (\<lambda>a. Inr (a\<lparr>listening := False\<rparr>))"

definition Acceptor_dtor :: "('cb, 'z) acceptor_scheme \<Rightarrow> ('cb, 'z) acceptor_scheme outcome" where
  "Acceptor_dtor a =
     and_then (if listening a then DisableRead (acceptChannel a) a else Inr a) (\<lambda>a.
     Inr (sys (CloseFd (idleFd a)) a))"

text \<open>\<open>Accepted fd addr\<close> or an \<^verbatim>\<open>errno\<close>.\<close>

datatype accept_answer = Accepted int string | AcceptFailed int

text \<open>The errors that are only reported; the others pass in silence.\<close>

definition expected_accept_errnos :: "int list" where
  "expected_accept_errnos = [24, 11, 103, 71, 4, 1]"

text \<open>
  The loop of \<^verbatim>\<open>handleRead\<close>: \<open>k\<close> counts successes up and failures down, and the loop ends when a
  failure brings it to -32. \<open>newcb\<close> is the new-connection callback, if set; all calls get the same
  address object \<open>cell\<close>.
\<close>

fun accept_loop ::
  "(int \<Rightarrow> nat \<Rightarrow> ('cb, 'z) acceptor_scheme \<Rightarrow> ('cb, 'z) acceptor_scheme outcome) option \<Rightarrow> nat \<Rightarrow>
     accept_answer list \<Rightarrow> int \<Rightarrow> ('cb, 'z) acceptor_scheme \<Rightarrow>
     (accept_answer list \<times> ('cb, 'z) acceptor_scheme) outcome" where
  "accept_loop newcb cell [] k a = Inl NoReturn"
| "accept_loop newcb cell (Accepted fd addr # as) k a =
     (let a = a\<lparr>peer_cells := (peer_cells a)(cell := addr)\<rparr> in
      and_then (case newcb of Some f \<Rightarrow> f fd cell a | None \<Rightarrow> Inr (sys (CloseFd fd) a))
        (accept_loop newcb cell as (k + 1)))"
| "accept_loop newcb cell (AcceptFailed e # as) k a =
     (let a = (if e \<in> set expected_accept_errnos then a
               else a\<lparr>reports := reports a @ [''accept'']\<rparr>)
      in if k - 1 = -32 then Inr (as, a) else accept_loop newcb cell as (k - 1) a)"

definition handleRead ::
  "(int \<Rightarrow> nat \<Rightarrow> ('cb, 'z) acceptor_scheme \<Rightarrow> ('cb, 'z) acceptor_scheme outcome) option \<Rightarrow>
     accept_answer list \<Rightarrow> ('cb, 'z) acceptor_scheme \<Rightarrow>
     (accept_answer list \<times> ('cb, 'z) acceptor_scheme) outcome" where
  "handleRead newcb answers a =
     (let a = assertInLoopThread a; cell = next_cell a
      in accept_loop newcb cell answers 0 (a\<lparr>next_cell := Suc cell\<rparr>))"

subsection \<open>TcpServer\<close>

record 'l conn_entry =
  entry_fd :: int
  entry_loop :: 'l
  entry_peer :: nat

record ('cb, 'l) tcp_server = "'cb acceptor" +
  ipPort :: string
  server_name :: string
  threadPool :: "'l loop_pool"
  started_word :: u32
  nextConnId :: "32 word"
  connections :: "(string \<times> 'l conn_entry) list"
  established :: "(string \<times> 'l) list"

text \<open>\<^verbatim>\<open>snprintf\<close> into an array of 64 keeps 63 characters.\<close>

definition connName :: "('cb, 'l, 'z) tcp_server_scheme \<Rightarrow> string" where
  "connName s = server_name s @ take 63 (''-'' @ ipPort s @ ''#'' @ show_int (sint (nextConnId s)))"

text \<open>\<^verbatim>\<open>connections_[key] = conn\<close> and \<^verbatim>\<open>connections_.erase(key)\<close>, with the number of erased entries.\<close>

definition map_assign :: "'k \<Rightarrow> 'v \<Rightarrow> ('k \<times> 'v) list \<Rightarrow> ('k \<times> 'v) list" where
  "map_assign k v m = (if k \<in> fst ` set m then map (\<lambda>e. if fst e = k then (k, v) else e) m else m @ [(k, v)])"

definition map_erase_key :: "'k \<Rightarrow> ('k \<times> 'v) list \<Rightarrow> nat \<times> ('k \<times> 'v) list" where
  "map_erase_key k m = (length (filter (\<lambda>e. fst e = k) m), filter (\<lambda>e. fst e \<noteq> k) m)"

text \<open>
  \<^verbatim>\<open>newConnection\<close>: the functor that establishes the connection is handed to its loop
  (\<open>established\<close>).
\<close>

definition newConnection ::
  "int \<Rightarrow> nat \<Rightarrow> ('cb, 'l, 'z) tcp_server_scheme \<Rightarrow> ('cb, 'l, 'z) tcp_server_scheme outcome" where
  "newConnection sockfd peer s =
    (let s = assertInLoopThread s in
     and_then (getNextLoop (threadPool s)) (\<lambda>(ioLoop, pool).
     let s = s\<lparr>threadPool := pool\<rparr>;
         nm = connName s;
         s = s\<lparr>nextConnId := nextConnId s + 1\<rparr>;
         conn = \<lparr>entry_fd = sockfd, entry_loop = ioLoop, entry_peer = peer\<rparr>
     in Inr (s\<lparr>connections := map_assign nm conn (connections s),
               established := established s @ [(nm, ioLoop)]\<rparr>)))"

definition server_setThreadNum :: "int \<Rightarrow> ('cb, 'l, 'z) tcp_server_scheme \<Rightarrow> ('cb, 'l, 'z) tcp_server_scheme outcome" where
  "server_setThreadNum n s =
     assert_then (0 \<le> n) (Inr (s\<lparr>threadPool := setThreadNum n (threadPool s)\<rparr>))"

text \<open>\<^verbatim>\<open>start\<close>: nothing initialises or sets \<^verbatim>\<open>started_\<close>.\<close>

definition server_start ::
  "(nat \<Rightarrow> 'l) \<Rightarrow> bool \<Rightarrow> ('cb, 'l, 'z) tcp_server_scheme \<Rightarrow> ('cb, 'l, 'z) tcp_server_scheme outcome" where
  "server_start spawn has_cb s =
     (if started_word s = 0 then
        and_then (pool_start spawn has_cb (threadPool s)) (\<lambda>pool.
        let s = s\<lparr>threadPool := pool\<rparr> in
        assert_then (\<not> listening s) (acceptor_listen s))
      else Inr s)"

definition removeConnectionInLoop ::
  "string \<Rightarrow> ('cb, 'l, 'z) tcp_server_scheme \<Rightarrow> ('cb, 'l, 'z) tcp_server_scheme outcome" where
  "removeConnectionInLoop nm s =
    (let s = assertInLoopThread s; (n, m) = map_erase_key nm (connections s); s = s\<lparr>connections := m\<rparr>
     in assert_then (n = 1) (Inr s))"

text \<open>
  \<^verbatim>\<open>handle_sig_int\<close>: the range-for erases the entry its iterator stands on and then advances it.
  The functor that quits the loop is recorded as a report of the model.
\<close>

definition handle_sig_int ::
  "('cb, 'l, 'z) tcp_server_scheme \<Rightarrow> ('cb, 'l, 'z) tcp_server_scheme outcome" where
  "handle_sig_int s =
     and_then (acceptor_stop s) (\<lambda>s.
     if connections s \<noteq> [] then Inl UndefinedBehaviour
     else Inr (s\<lparr>reports := reports s @ [''quit'']\<rparr>))"

text \<open>\<^verbatim>\<open>TcpServer::~TcpServer\<close> only reports connections that are still there.\<close>

definition TcpServer_dtor :: "('cb, 'l, 'z) tcp_server_scheme \<Rightarrow> ('cb, 'l, 'z) tcp_server_scheme" where
  "TcpServer_dtor s =
    (let s = assertInLoopThread s in
     if connections s \<noteq> [] then s\<lparr>reports := reports s @ [''connections left'']\<rparr> else s)"


subsection \<open>Round robin\<close>

text \<open>The loop with running number \<open>j\<close>, and a pool that has handed out up to number \<open>j\<close>.\<close>

definition loop_at :: "'l loop_pool \<Rightarrow> nat \<Rightarrow> 'l" where
  "loop_at p j = (if loops p = [] then baseLoop p else loops p ! (j mod length (loops p)))"

definition pool_at :: "nat \<Rightarrow> 'l loop_pool \<Rightarrow> bool" where
  "pool_at j p \<longleftrightarrow> pool_started p \<and> (loops p \<noteq> [] \<longrightarrow> next_idx p = int (j mod length (loops p)))"

definition pool_after :: "nat \<Rightarrow> 'l loop_pool \<Rightarrow> 'l loop_pool" where
  "pool_after j p = (if loops p = [] then p else p\<lparr>next_idx := int (j mod length (loops p))\<rparr>)"

lemma pool_after_simps [simp]: "loops (pool_after j p) = loops p" "baseLoop (pool_after j p) = baseLoop p"
  "loop_at (pool_after j p) = loop_at p" "pool_after i (pool_after j p) = pool_after i p"
  "pool_started (pool_after j p) = pool_started p"
  by (auto simp: pool_after_def loop_at_def fun_eq_iff)

lemma getNextLoop_at:
  assumes "pool_at j p"
  shows "getNextLoop p = Inr (loop_at p (Suc j), pool_after (Suc j) p)"
proof -
  have "(int (j mod n) + 1) mod int n = int (Suc j mod n)" for n
    by (metis mod_add_left_eq of_nat_1 of_nat_add of_nat_mod plus_1_eq_Suc add.commute)
  then show ?thesis
    using assms by (simp add: getNextLoop_def pool_at_def loop_at_def pool_after_def)
qed

lemma pool_at_after: "pool_at j p \<Longrightarrow> pool_at i (pool_after i p)"
  by (auto simp: pool_at_def pool_after_def)

lemma getNextLoop_many:
  assumes "pool_at j p"
  shows "\<exists>p'. take_list getNextLoop n p = Inr (map (loop_at p) [Suc j..<Suc j + n], p')"
  using assms
proof (induction n arbitrary: j p)
  case 0
  then show ?case by simp
next
  case (Suc n)
  obtain p' where "take_list getNextLoop n (pool_after (Suc j) p)
      = Inr (map (loop_at p) [Suc (Suc j)..<Suc (Suc j) + n], p')"
    using Suc.IH[OF pool_at_after[OF Suc.prems, of "Suc j"]] by (auto simp del: upt_Suc)
  moreover have "[Suc j..<Suc j + Suc n] = Suc j # [Suc (Suc j)..<Suc (Suc j) + n]"
    by (simp add: upt_rec)
  ultimately show ?case using getNextLoop_at[OF Suc.prems] by (simp del: upt_Suc)
qed

lemma mset_rotate: "mset (rotate a xs) = mset xs"
proof (induction a)
  case (Suc a)
  then show ?case by (cases "rotate a xs") auto
qed simp

lemma one_round:
  assumes "loops p \<noteq> []"
  shows "mset (map (loop_at p) [a..<a + length (loops p)]) = mset (loops p)"
proof -
  have "map (loop_at p) [a..<a + length (loops p)] = rotate a (loops p)"
    using assms by (intro nth_equalityI) (simp_all add: loop_at_def nth_rotate)
  then show ?thesis by (simp add: mset_rotate)
qed

lemma many_rounds:
  assumes "loops p \<noteq> []"
  shows "mset (map (loop_at p) [a..<a + m * length (loops p)]) = repeat_mset m (mset (loops p))"
proof (induction m)
  case 0
  then show ?case by simp
next
  case (Suc m)
  let ?n = "length (loops p)"
  have "[a..<a + Suc m * ?n] = [a..<a + m * ?n] @ [a + m * ?n..<a + m * ?n + ?n]"
    using upt_add_eq_append[of a "a + m * ?n" ?n] by (simp add: ac_simps)
  then show ?case using Suc one_round[OF assms, of "a + m * ?n"] by simp
qed

subsection \<open>Names of connections\<close>

definition conn_name :: "('cb, 'l, 'z) tcp_server_scheme \<Rightarrow> int \<Rightarrow> string" where
  "conn_name s k = server_name s @ ''-'' @ ipPort s @ ''#'' @ show_int k"

lemma show_int_inj: "int_range a \<Longrightarrow> int_range b \<Longrightarrow> show_int a = show_int b \<Longrightarrow> a = b"
  by (metis sum.inject(2) stoi_show_int)

lemma conn_name_inj:
  "int_range a \<Longrightarrow> int_range b \<Longrightarrow> conn_name s a = conn_name s b \<Longrightarrow> a = b"
  by (auto simp: conn_name_def intro: show_int_inj)

lemma length_show_int: "int_range k \<Longrightarrow> length (show_int k) \<le> 21"
proof -
  assume "int_range k"
  then have "nat \<bar>k\<bar> < 10 ^ 20" by (auto simp: int_range_def abs_if)
  then have "length (dec_digits (nat \<bar>k\<bar>)) \<le> 20" by (rule length_dec_digits) simp
  then show ?thesis by (auto simp: show_int_def abs_if)
qed

lemma connName_eq:
  "length (ipPort s) \<le> 40 \<Longrightarrow> connName s = conn_name s (sint (nextConnId s))"
  using length_show_int[of "sint (nextConnId s)"] sint_greater_eq[of "nextConnId s"]
    sint_less[of "nextConnId s"]
  by (simp add: connName_def conn_name_def int_range_def)

text \<open>
  A server whose connections have the names it gave out, each once; \<open>cid\<close> is the number of the next
  one and \<open>j\<close> counts the loops handed out.
\<close>

definition server_ok :: "int \<Rightarrow> nat \<Rightarrow> ('cb, 'l, 'z) tcp_server_scheme \<Rightarrow> bool" where
  "server_ok cid j s \<longleftrightarrow> length (ipPort s) \<le> 40 \<and> sint (nextConnId s) = cid \<and> 0 < cid
     \<and> isInLoopThread s \<and> pool_at j (threadPool s) \<and> distinct (map fst (connections s))
     \<and> (\<forall>nm \<in> fst ` set (connections s). \<exists>k. 0 < k \<and> k < cid \<and> nm = conn_name s k)"

definition new_entry :: "('cb, 'l, 'z) tcp_server_scheme \<Rightarrow> int \<Rightarrow> nat \<Rightarrow> int \<Rightarrow> nat \<Rightarrow> string \<times> 'l conn_entry" where
  "new_entry s cid j fd cell =
     (conn_name s cid, \<lparr>entry_fd = fd, entry_loop = loop_at (threadPool s) j, entry_peer = cell\<rparr>)"

definition with_entry ::
  "int \<Rightarrow> nat \<Rightarrow> int \<Rightarrow> nat \<Rightarrow> ('cb, 'l, 'z) tcp_server_scheme \<Rightarrow> ('cb, 'l, 'z) tcp_server_scheme" where
  "with_entry cid j fd cell s = s\<lparr>threadPool := pool_after j (threadPool s), nextConnId := word_of_int (cid + 1),
     connections := connections s @ [new_entry s cid j fd cell],
     established := established s @ [(conn_name s cid, loop_at (threadPool s) j)]\<rparr>"

lemma server_ok_fresh:
  assumes "server_ok cid j s"
  shows "conn_name s cid \<notin> fst ` set (connections s)"
proof
  assume "conn_name s cid \<in> fst ` set (connections s)"
  then obtain k where k: "0 < k" "k < cid" "conn_name s cid = conn_name s k"
    using assms by (auto simp: server_ok_def)
  have "cid < 2 ^ 31"
    using assms sint_less[of "nextConnId s"] by (simp add: server_ok_def)
  with k have "int_range k" "int_range cid" by (simp_all add: int_range_def)
  with conn_name_inj k show False by blast
qed

lemma newConnection_ok:
  assumes "server_ok cid j s"
  shows "newConnection fd cell s = Inr (with_entry cid (Suc j) fd cell s)"
proof -
  have ok: "length (ipPort s) \<le> 40" "sint (nextConnId s) = cid" "isInLoopThread s"
      "pool_at j (threadPool s)"
    using assms by (auto simp: server_ok_def)
  let ?p = "pool_after (Suc j) (threadPool s)"
  have nm: "connName (s\<lparr>threadPool := ?p\<rparr>) = conn_name s cid"
    using connName_eq[of "s\<lparr>threadPool := ?p\<rparr>"] ok by (simp add: conn_name_def)
  have w: "nextConnId s + 1 = word_of_int (cid + 1)" unfolding ok(2) [symmetric] by simp
  show ?thesis
    using server_ok_fresh[OF assms] ok w nm
    by (simp add: newConnection_def getNextLoop_at with_entry_def new_entry_def map_assign_def
        assertInLoopThread_def Let_def)
qed

lemma sint_word_of_int: "int_range v \<Longrightarrow> sint (word_of_int v :: 32 word) = v"
  by (simp add: int_range_def signed_of_int signed_take_bit_int_eq_self)

lemma with_entry_ok:
  assumes "server_ok cid j s" and "cid + 1 < 2 ^ 31"
  shows "server_ok (cid + 1) (Suc j) (with_entry cid (Suc j) fd cell s)"
proof -
  let ?s = "with_entry cid (Suc j) fd cell s"
  have "int_range (cid + 1)" using assms by (simp add: server_ok_def int_range_def)
  then have "sint (nextConnId ?s) = cid + 1"
    using sint_word_of_int[of "cid + 1"] by (simp add: with_entry_def)
  moreover have "pool_at (Suc j) (threadPool ?s)"
    using assms(1) by (auto simp: server_ok_def with_entry_def intro: pool_at_after)
  moreover have "distinct (map fst (connections ?s))"
    using assms(1) server_ok_fresh[OF assms(1)]
    by (simp add: server_ok_def with_entry_def new_entry_def)
  moreover have "\<exists>k. 0 < k \<and> k < cid + 1 \<and> nm = conn_name ?s k"
    if "nm \<in> fst ` set (connections ?s)" for nm
  proof (cases "nm = conn_name s cid")
    case True
    then show ?thesis using assms(1) by (auto simp: server_ok_def with_entry_def conn_name_def)
  next
    case False
    then have "nm \<in> fst ` set (connections s)" using that by (auto simp: with_entry_def new_entry_def)
    then obtain k where "0 < k" "k < cid" "nm = conn_name s k" using assms(1) by (auto simp: server_ok_def)
    then show ?thesis by (intro exI[of _ k]) (simp add: with_entry_def conn_name_def)
  qed
  ultimately show ?thesis
    using assms(1) by (auto simp: server_ok_def) (simp_all add: with_entry_def isInLoopThread_def)
qed

subsection \<open>Accepting\<close>

lemma accept_failures:
  assumes "e \<in> set expected_accept_errnos"
  shows "accept_loop newcb cell (replicate (n + 32) (AcceptFailed e) @ rest) (int n) a = Inr (rest, a)"
proof -
  have "accept_loop newcb cell (replicate (Suc m) (AcceptFailed e) @ rest) (int m - 31) a = Inr (rest, a)" for m
    by (induction m) (use assms in \<open>simp_all\<close>)
  from this[of "n + 31"] show ?thesis by (simp add: add.commute)
qed

text \<open>The entries a batch of accepted sockets adds, and the server after it.\<close>

fun new_entries ::
  "('cb, 'l, 'z) tcp_server_scheme \<Rightarrow> int \<Rightarrow> nat \<Rightarrow> nat \<Rightarrow> (int \<times> string) list \<Rightarrow> (string \<times> 'l conn_entry) list" where
  "new_entries s cid j cell [] = []"
| "new_entries s cid j cell (c # cs) =
     new_entry s cid j (fst c) cell # new_entries s (cid + 1) (Suc j) cell cs"

lemma new_entries_cong:
  "server_name s' = server_name s \<Longrightarrow> ipPort s' = ipPort s \<Longrightarrow>
   loop_at (threadPool s') = loop_at (threadPool s) \<Longrightarrow>
   new_entries s' cid j cell cs = new_entries s cid j cell cs"
  by (induction cs arbitrary: cid j) (simp_all add: new_entry_def conn_name_def)

lemma new_entries_nth:
  "i < length cs \<Longrightarrow> new_entries s cid j cell cs ! i = new_entry s (cid + int i) (j + i) (fst (cs ! i)) cell"
proof (induction cs arbitrary: cid j i)
  case (Cons c cs)
  then show ?case by (cases i) (simp_all add: ac_simps)
qed simp

lemma length_new_entries [simp]: "length (new_entries s cid j cell cs) = length cs"
  by (induction cs arbitrary: cid j) simp_all

abbreviation accepts :: "(int \<times> string) list \<Rightarrow> accept_answer list" where
  "accepts cs \<equiv> map (\<lambda>(fd, addr). Accepted fd addr) cs"

lemma server_ok_cells:
  "server_ok cid j (s\<lparr>peer_cells := f\<rparr>) = server_ok cid j s"
  by (simp add: server_ok_def conn_name_def isInLoopThread_def)

lemma accept_batch:
  assumes "server_ok cid j s" and "cid + int (length cs) < 2 ^ 31"
  shows "\<exists>s'. accept_loop (Some newConnection) cell (accepts cs @ rest) k s
      = accept_loop (Some newConnection) cell rest (k + int (length cs)) s'
    \<and> connections s' = connections s @ new_entries s cid (Suc j) cell cs
    \<and> server_ok (cid + int (length cs)) (j + length cs) s'
    \<and> peer_cells s' = (if cs = [] then peer_cells s else (peer_cells s)(cell := snd (last cs)))
    \<and> reports s' = reports s"
  using assms
proof (induction cs arbitrary: cid j k s)
  case Nil
  then show ?case by auto
next
  case (Cons c cs)
  obtain fd addr where c: "c = (fd, addr)" by (cases c)
  let ?s0 = "s\<lparr>peer_cells := (peer_cells s)(cell := addr)\<rparr>"
  let ?s1 = "with_entry cid (Suc j) fd cell ?s0"
  have ok0: "server_ok cid j ?s0" using Cons.prems(1) by (simp add: server_ok_cells)
  have step: "accept_loop (Some newConnection) cell (accepts (c # cs) @ rest) k s
      = accept_loop (Some newConnection) cell (accepts cs @ rest) (k + 1) ?s1"
    by (simp add: c newConnection_ok[OF ok0])
  have "server_ok (cid + 1) (Suc j) ?s1" using with_entry_ok[OF ok0] Cons.prems(2) by simp
  from Cons.IH[OF this, of "k + 1"] Cons.prems(2)
  obtain s' where s': "accept_loop (Some newConnection) cell (accepts cs @ rest) (k + 1) ?s1
        = accept_loop (Some newConnection) cell rest (k + 1 + int (length cs)) s'"
      "connections s' = connections ?s1 @ new_entries ?s1 (cid + 1) (Suc (Suc j)) cell cs"
      "server_ok (cid + 1 + int (length cs)) (Suc j + length cs) s'"
      "peer_cells s' = (if cs = [] then peer_cells ?s1 else (peer_cells ?s1)(cell := snd (last cs)))"
      "reports s' = reports ?s1"
    by auto
  have "new_entries ?s1 (cid + 1) (Suc (Suc j)) cell cs = new_entries s (cid + 1) (Suc (Suc j)) cell cs"
    by (rule new_entries_cong) (simp_all add: with_entry_def)
  moreover have "connections ?s1 = connections s @ [new_entry s cid (Suc j) fd cell]"
    by (simp add: with_entry_def new_entry_def conn_name_def)
  moreover have "peer_cells ?s1 = (peer_cells s)(cell := addr)" "reports ?s1 = reports s"
    by (simp_all add: with_entry_def)
  ultimately show ?case
    using s' step by (intro exI[of _ s']) (auto simp: c ac_simps)
qed

lemma filter_key_once:
  "distinct (map fst m) \<Longrightarrow> k \<in> fst ` set m \<Longrightarrow> length (filter (\<lambda>e. fst e = k) m) = 1"
proof (induction m)
  case (Cons x m)
  show ?case
  proof (cases "fst x = k")
    case True
    then have "k \<notin> fst ` set m" using Cons.prems(1) by auto
    then have "filter (\<lambda>e. fst e = k) m = []" unfolding filter_empty_conv by (metis image_eqI)
    with True show ?thesis by simp
  next
    case False
    with Cons show ?thesis by auto
  qed
qed simp

lemma assertInLoopThread_connections: "connections (assertInLoopThread s) = connections s"
  by (simp add: assertInLoopThread_def abortNotInLoopThread_def)

lemma remove_known:
  assumes "server_ok cid j s" and "(nm, e) \<in> set (connections s)"
  shows "\<exists>s'. removeConnectionInLoop nm s = Inr s' \<and> server_ok cid j s'
    \<and> set (connections s') = set (connections s) - {(nm, e)}
    \<and> removeConnectionInLoop nm s' = Inl AssertionFailure"
proof -
  let ?m = "filter (\<lambda>e. fst e \<noteq> nm) (connections s)"
  have dist: "distinct (map fst (connections s))" and thr: "isInLoopThread s"
    using assms(1) by (auto simp: server_ok_def)
  have only: "e' = e" if "(nm, e') \<in> set (connections s)" for e'
    using dist assms(2) that by (simp add: eq_key_imp_eq_value)
  have n: "length (filter (\<lambda>e. fst e = nm) (connections s)) = 1"
    using filter_key_once[OF dist] assms(2) by force
  have "removeConnectionInLoop nm s = Inr (s\<lparr>connections := ?m\<rparr>)"
    using n thr by (simp add: removeConnectionInLoop_def map_erase_key_def assertInLoopThread_def)
  moreover have "removeConnectionInLoop nm (s\<lparr>connections := ?m\<rparr>) = Inl AssertionFailure"
    by (simp add: removeConnectionInLoop_def map_erase_key_def assertInLoopThread_connections Let_def)
  moreover have "server_ok cid j (s\<lparr>connections := ?m\<rparr>)"
    using assms(1) by (simp add: server_ok_def conn_name_def isInLoopThread_def distinct_map_filter)
  moreover have "set ?m = set (connections s) - {(nm, e)}"
  proof -
    have "fst x = nm \<longleftrightarrow> x = (nm, e)" if "x \<in> set (connections s)" for x
      using only that by (cases x) auto
    then show ?thesis unfolding set_filter by blast
  qed
  ultimately show ?thesis by (intro exI[of _ "s\<lparr>connections := ?m\<rparr>"]) simp
qed

subsection \<open>Properties\<close>

text \<open>C13: One readiness event of the listening socket takes every waiting connection: with \<open>n\<close>
  connections waiting, \<^verbatim>\<open>handleRead\<close> returns after \<open>n\<close> successful and \<open>n + 32\<close> failing calls of
  \<^verbatim>\<open>accept\<close>, and the server has registered the \<open>n\<close> descriptors in order, under new names with
  consecutive numbers, on the loops of the pool in turn, without touching the connections it had. All
  of them share one address object, which holds the address of the last one.\<close>

theorem server_accepts_batch:
  assumes "server_ok cid j s" and "cid + int (length cs) < 2 ^ 31" and "cs \<noteq> []"
    and "e \<in> set expected_accept_errnos"
  shows "\<exists>s'. handleRead (Some newConnection)
        (accepts cs @ replicate (length cs + 32) (AcceptFailed e) @ rest) s = Inr (rest, s')
    \<and> server_ok (cid + int (length cs)) (j + length cs) s'
    \<and> length (connections s') = length (connections s) + length cs
    \<and> take (length (connections s)) (connections s') = connections s
    \<and> (\<forall>i < length cs. connections s' ! (length (connections s) + i) =
         (conn_name s (cid + int i), \<lparr>entry_fd = fst (cs ! i),
           entry_loop = loop_at (threadPool s) (Suc j + i), entry_peer = next_cell s\<rparr>))
    \<and> peer_cells s' (next_cell s) = snd (last cs)"
proof -
  let ?s = "s\<lparr>next_cell := Suc (next_cell s)\<rparr>"
  have thr: "isInLoopThread s" using assms(1) by (simp add: server_ok_def)
  have ok: "server_ok cid j ?s"
    using assms(1) by (simp add: server_ok_def conn_name_def isInLoopThread_def)
  from accept_batch[OF ok assms(2), of "next_cell s" "replicate (length cs + 32) (AcceptFailed e) @ rest" 0]
  obtain s' where s': "accept_loop (Some newConnection) (next_cell s)
        (accepts cs @ replicate (length cs + 32) (AcceptFailed e) @ rest) 0 ?s
      = accept_loop (Some newConnection) (next_cell s)
          (replicate (length cs + 32) (AcceptFailed e) @ rest) (int (length cs)) s'"
    and conns: "connections s' = connections s @ new_entries ?s cid (Suc j) (next_cell s) cs"
    and ok': "server_ok (cid + int (length cs)) (j + length cs) s'"
    and peer: "peer_cells s' = (peer_cells s)(next_cell s := snd (last cs))"
    using assms(3) by auto
  have "handleRead (Some newConnection) (accepts cs @ replicate (length cs + 32) (AcceptFailed e) @ rest) s
      = Inr (rest, s')"
    using s' thr accept_failures[OF assms(4)] by (simp add: handleRead_def assertInLoopThread_def Let_def)
  moreover have "connections s' ! (length (connections s) + i) =
      (conn_name s (cid + int i), \<lparr>entry_fd = fst (cs ! i),
         entry_loop = loop_at (threadPool s) (Suc j + i), entry_peer = next_cell s\<rparr>)"
    if "i < length cs" for i
    using that by (simp add: conns nth_append new_entries_nth new_entry_def conn_name_def)
  ultimately show ?thesis using conns ok' peer by (intro exI[of _ s']) simp
qed

definition demo_server :: "(string, nat) tcp_server" where
  "demo_server = poller.extend (Epoller 1) \<lparr>acceptFd = 3, acceptChannel = 1, listening = True, idleFd = 4,
     peer_cells = (\<lambda>_. []), next_cell = 0, ipPort = ''0.0.0.0:80'', server_name = ''web'',
     threadPool = (EventloopThreadPool 9 ''web'')\<lparr>threadNum := 2, pool_started := True, loops := [10, 11]\<rparr>,
     started_word = 0, nextConnId = 1, connections = [], established = []\<rparr>"

lemma demo_server_ok: "server_ok 1 0 demo_server"
  by (simp add: server_ok_def demo_server_def poller.extend_def Epoller_def isInLoopThread_def pool_at_def
      EventloopThreadPool_def)

theorem server_accepts_batch_witness:
  "\<exists>s'. handleRead (Some newConnection)
        (accepts [(5, ''a''), (6, ''b'')] @ replicate (2 + 32) (AcceptFailed EAGAIN) @ []) demo_server = Inr ([], s')
    \<and> length (connections s') = 2 \<and> entry_loop (snd (connections s' ! 0)) = 11
    \<and> entry_loop (snd (connections s' ! 1)) = 10 \<and> peer_cells s' 0 = ''b''"
proof -
  have e: "EAGAIN \<in> set expected_accept_errnos" by (simp add: EAGAIN_def expected_accept_errnos_def)
  have c: "(1 :: int) + int (length [(5 :: int, ''a''), (6, ''b'')]) < 2 ^ 31" by simp
  have d: "connections demo_server = []" "next_cell demo_server = 0"
      "loop_at (threadPool demo_server) 1 = 11" "loop_at (threadPool demo_server) 2 = 10"
    by (simp_all add: demo_server_def poller.extend_def loop_at_def numeral_2_eq_2)
  obtain s' where s': "handleRead (Some newConnection) (accepts [(5, ''a''), (6, ''b'')] @
        replicate (length [(5 :: int, ''a''), (6, ''b'')] + 32) (AcceptFailed EAGAIN) @ []) demo_server = Inr ([], s')"
      "length (connections s') = 2" "peer_cells s' 0 = ''b''"
      "\<forall>i < 2. entry_loop (snd (connections s' ! i)) = loop_at (threadPool demo_server) (1 + i)"
    using server_accepts_batch[OF demo_server_ok c _ e, of "[]"] by (auto simp: d)
  have "entry_loop (snd (connections s' ! 0)) = 11" "entry_loop (snd (connections s' ! 1)) = 10"
    using s'(4) d(3,4) by (auto simp: numeral_2_eq_2)
  with s' show ?thesis by simp
qed

text \<open>The pool hands out its loops in turn: in any number of full rounds every loop is returned
  equally often, and each call returns the loop after the one returned before.\<close>

theorem pool_is_fair:
  assumes "pool_at j p" and "loops p \<noteq> []"
  shows "\<exists>ls p'. take_list getNextLoop (m * length (loops p)) p = Inr (ls, p')
    \<and> mset ls = repeat_mset m (mset (loops p))
    \<and> (\<forall>i < length ls. ls ! i = loops p ! ((Suc j + i) mod length (loops p)))"
proof -
  let ?n = "m * length (loops p)" and ?ls = "map (loop_at p) [Suc j..<Suc j + m * length (loops p)]"
  obtain p' where "take_list getNextLoop ?n p = Inr (?ls, p')" using getNextLoop_many[OF assms(1)] by blast
  moreover have "mset ?ls = repeat_mset m (mset (loops p))" by (rule many_rounds[OF assms(2)])
  moreover have "\<forall>i < length ?ls. ?ls ! i = loops p ! ((Suc j + i) mod length (loops p))"
    using assms(2) by (simp add: loop_at_def del: upt_Suc)
  ultimately show ?thesis by blast
qed

theorem pool_is_fair_witness:
  "\<exists>ls p'. take_list getNextLoop (3 * 2) (threadPool demo_server) = Inr (ls, p')
    \<and> mset ls = repeat_mset 3 {#10, 11#}"
proof -
  have l: "loops (threadPool demo_server) = [10, 11]" by (simp add: demo_server_def poller.extend_def)
  have "pool_at 0 (threadPool demo_server)" using demo_server_ok by (simp add: server_ok_def)
  from pool_is_fair[OF this, of 3] show ?thesis by (auto simp: l)
qed

end
