(* ===== verification/Tls_Handshake.thy ===== *)
theory Tls_Handshake
  imports Channel_Poller
begin

unbundle bit_operations_syntax

text \<open>
  The client side of the TLS handshake: \<^verbatim>\<open>src/src/https/ssl_handshake_handler.{h,cpp}\<close>. The handler takes
  over the channel of a connected socket and calls \<^verbatim>\<open>SSL_connect\<close> at every event until it is done. OpenSSL
  is outside the repository: an answer is the success of \<^verbatim>\<open>SSL_connect\<close> or what \<^verbatim>\<open>SSL_get_error\<close> says of a
  failure. The two callbacks the client installs are arguments.
\<close>

subsection \<open>State and operations\<close>

datatype ssl_error = WantRead | WantWrite | ZeroReturn | OtherError int

datatype hs_answer = HsDone | HsError ssl_error

text \<open>\<open>hs_ssl\<close>: \<^verbatim>\<open>ssl_\<close> is not null.\<close>

record handshake =
  hs_channel :: ptr
  hs_fd :: int
  hs_ssl :: bool

type_synonym ('cb, 'z) net_fun = "('cb, 'z) poller_scheme \<Rightarrow> ('cb, 'z) poller_scheme outcome"

text \<open>\<open>on_do\<close> and \<open>on_err\<close> name the lambdas that call \<^verbatim>\<open>doHandshake\<close> and \<^verbatim>\<open>onError\<close>.\<close>

definition handshake_callbacks :: "'cb \<Rightarrow> 'cb \<Rightarrow> 'cb channel \<Rightarrow> 'cb channel" where
  "handshake_callbacks on_do on_err ch = set_err_callback (Some on_err) (set_hup_callback (Some on_err)
     (set_out_callback (Some on_do) (set_in_callback (Some on_do) ch)))"

definition ssl_handshake_handler ::
  "'cb \<Rightarrow> 'cb \<Rightarrow> ptr \<Rightarrow> ('cb, 'z) poller_scheme \<Rightarrow> (handshake \<times> ('cb, 'z) poller_scheme) outcome"
where
  "ssl_handshake_handler on_do on_err c p =
     and_then (deref p c) (\<lambda>ch.
     and_then (modify (handshake_callbacks on_do on_err) c p) (\<lambda>p.
     Inr (\<lparr>hs_channel = c, hs_fd = ch_fd ch, hs_ssl = True\<rparr>, p)))"

definition onError ::
  "(int \<Rightarrow> ('cb, 'z) net_fun) \<Rightarrow> handshake \<Rightarrow> ('cb, 'z) poller_scheme \<Rightarrow> (handshake \<times> ('cb, 'z) poller_scheme) outcome"
where
  "onError errorCb h p =
     (let h = h\<lparr>hs_ssl := False\<rparr> in and_then (errorCb (hs_fd h) p) (\<lambda>p. Inr (h, p)))"

definition doHandshake ::
  "(int \<Rightarrow> ('cb, 'z) net_fun) \<Rightarrow> (int \<Rightarrow> ('cb, 'z) net_fun) \<Rightarrow> hs_answer \<Rightarrow> handshake \<Rightarrow>
     ('cb, 'z) poller_scheme \<Rightarrow> (handshake \<times> ('cb, 'z) poller_scheme) outcome"
where
  "doHandshake successCb errorCb answer h p =
     (let c = hs_channel h; done = (\<lambda>p. Inr (h, p)) in
      if \<not> hs_ssl h then Inl BadPointer
      else case answer of
          HsDone \<Rightarrow> and_then (DisableAll c p) (\<lambda>p. and_then (successCb (hs_fd h) p) done)
        | HsError WantRead \<Rightarrow> and_then (EnableRead c p) (\<lambda>p. and_then (DisableWrite c p) done)
        | HsError WantWrite \<Rightarrow> and_then (EnableWrite c p) (\<lambda>p. and_then (DisableRead c p) done)
        | HsError _ \<Rightarrow> onError errorCb h p)"

definition handshake_start ::
  "obj \<Rightarrow> (int \<Rightarrow> ('cb, 'z) net_fun) \<Rightarrow> (int \<Rightarrow> ('cb, 'z) net_fun) \<Rightarrow> hs_answer \<Rightarrow> handshake \<Rightarrow>
     ('cb, 'z) poller_scheme \<Rightarrow> (handshake \<times> ('cb, 'z) poller_scheme) outcome"
where
  "handshake_start self successCb errorCb answer h p =
     (let c = hs_channel h in
      and_then (modify (tie_obj (Some self)) c p) (\<lambda>p.
      and_then (EnableRead c p) (\<lambda>p.
      and_then (EnableWrite c p) (doHandshake successCb errorCb answer h))))"

text \<open>The events of the channel that follow the start, each with the answer of \<^verbatim>\<open>SSL_connect\<close>.\<close>

fun handshake_rounds ::
  "(int \<Rightarrow> ('cb, 'z) net_fun) \<Rightarrow> (int \<Rightarrow> ('cb, 'z) net_fun) \<Rightarrow> hs_answer list \<Rightarrow>
     handshake \<times> ('cb, 'z) poller_scheme \<Rightarrow> (handshake \<times> ('cb, 'z) poller_scheme) outcome"
where
  "handshake_rounds successCb errorCb [] (h, p) = Inr (h, p)"
| "handshake_rounds successCb errorCb (a # as) (h, p) =
     and_then (doHandshake successCb errorCb a h p) (handshake_rounds successCb errorCb as)"

subsection \<open>Masks of a registered channel\<close>

text \<open>The channel is known to the poller and registered in the kernel; its mask is \<open>m\<close>. The rest of the
  state, that of the component around the poller, is \<open>x\<close>.\<close>

definition hs_ready :: "'z \<Rightarrow> u32 \<Rightarrow> handshake \<Rightarrow> ('cb, 'z) poller_scheme \<Rightarrow> bool" where
  "hs_ready x m h p \<longleftrightarrow> poller.more p = x \<and> isInLoopThread p \<and> hs_ssl h \<and> m_channels p (hs_fd h) = Some (hs_channel h)
     \<and> interest (syscalls p) (hs_fd h) \<noteq> None
     \<and> (\<exists>ch. heap p (hs_channel h) = Some ch \<and> ch_fd ch = hs_fd h \<and> ch_idx ch = ch_added \<and> listen_events ch = m)"

definition registered :: "u32 \<Rightarrow> handshake \<Rightarrow> ('cb, 'z) poller_scheme \<Rightarrow> bool" where
  "registered m h p \<longleftrightarrow>
     interest (syscalls p) (hs_fd h) = Some (Some (m OR EPOLLET OR EPOLLRDHUP, hs_channel h))"

text \<open>Setting the mask of such a channel to another value but 0 reaches the kernel.\<close>

lemma set_mask:
  assumes "hs_ready x m h p" and "f = (\<lambda>ch. ch\<lparr>listen_events := g (listen_events ch)\<rparr>)" and "g m \<noteq> 0"
  shows "\<exists>p'. and_then (modify f (hs_channel h) p) (loop_updateChannel (hs_channel h)) = Inr p'
    \<and> hs_ready x (g m) h p' \<and> registered (g m) h p'"
    and "\<exists>p'. and_then (modify f (hs_channel h) p) (channel_update (hs_channel h)) = Inr p'
    \<and> hs_ready x (g m) h p' \<and> registered (g m) h p'"
proof -
  obtain ch where ch: "heap p (hs_channel h) = Some ch" "ch_fd ch = hs_fd h" "ch_idx ch = ch_added" "listen_events ch = m"
    using assms(1) by (auto simp: hs_ready_def)
  have p: "loop_tid p = cur_tid p" "m_channels p (hs_fd h) = Some (hs_channel h)" "hs_ssl h"
      "interest (syscalls p) (hs_fd h) \<noteq> None" "poller.more p = x"
    using assms(1) by (auto simp: hs_ready_def isInLoopThread_def)
  show "\<exists>p'. and_then (modify f (hs_channel h) p) (loop_updateChannel (hs_channel h)) = Inr p'
    \<and> hs_ready x (g m) h p' \<and> registered (g m) h p'"
    "\<exists>p'. and_then (modify f (hs_channel h) p) (channel_update (hs_channel h)) = Inr p'
    \<and> hs_ready x (g m) h p' \<and> registered (g m) h p'"
    using ch p assms(3)
    by (simp_all add: assms(2) channel_update_def loop_updateChannel_def updateChannel_def epoller_update_def
        assertInLoopThread_def isInLoopThread_def hs_ready_def registered_def)
qed

lemma or_nonzero: "y \<noteq> 0 \<Longrightarrow> x OR y \<noteq> (0 :: u32)"
  by (simp add: or_eq_0_iff)

lemma event_masks: "READ_EVENT \<noteq> 0" "WRITE_EVENT \<noteq> 0"
  "(READ_EVENT OR WRITE_EVENT) AND NOT WRITE_EVENT = READ_EVENT" "READ_EVENT AND NOT WRITE_EVENT = READ_EVENT"
  "(READ_EVENT OR WRITE_EVENT) AND NOT READ_EVENT = WRITE_EVENT" "WRITE_EVENT AND NOT READ_EVENT = WRITE_EVENT"
  by (simp_all add: flag_simps)

lemma enable_mask:
  assumes "hs_ready x m h p"
  shows "\<exists>p'. EnableRead (hs_channel h) p = Inr p' \<and> hs_ready x (m OR READ_EVENT) h p'"
    and "\<exists>p'. EnableWrite (hs_channel h) p = Inr p' \<and> hs_ready x (m OR WRITE_EVENT) h p'"
proof -
  note set = set_mask(1) [OF assms refl]
  show "\<exists>p'. EnableRead (hs_channel h) p = Inr p' \<and> hs_ready x (m OR READ_EVENT) h p'"
    unfolding EnableRead_def using set [of "\<lambda>m. m OR READ_EVENT", OF or_nonzero [OF event_masks(1)]] by blast
  show "\<exists>p'. EnableWrite (hs_channel h) p = Inr p' \<and> hs_ready x (m OR WRITE_EVENT) h p'"
    unfolding EnableWrite_def using set [of "\<lambda>m. m OR WRITE_EVENT", OF or_nonzero [OF event_masks(2)]] by blast
qed

lemma disable_mask:
  assumes "hs_ready x m h p"
  shows "m \<in> {READ_EVENT, READ_EVENT OR WRITE_EVENT} \<Longrightarrow>
      \<exists>p'. DisableWrite (hs_channel h) p = Inr p' \<and> hs_ready x READ_EVENT h p' \<and> registered READ_EVENT h p'"
    and "m \<in> {WRITE_EVENT, READ_EVENT OR WRITE_EVENT} \<Longrightarrow>
      \<exists>p'. DisableRead (hs_channel h) p = Inr p' \<and> hs_ready x WRITE_EVENT h p' \<and> registered WRITE_EVENT h p'"
proof -
  note set = set_mask(2) [OF assms refl]
  show "\<exists>p'. DisableWrite (hs_channel h) p = Inr p' \<and> hs_ready x READ_EVENT h p' \<and> registered READ_EVENT h p'"
    if "m \<in> {READ_EVENT, READ_EVENT OR WRITE_EVENT}"
  proof -
    have "m AND NOT WRITE_EVENT = READ_EVENT" using that event_masks(3,4) by blast
    with set [of "\<lambda>m. m AND NOT WRITE_EVENT"] event_masks(1) show ?thesis unfolding DisableWrite_def by simp
  qed
  show "\<exists>p'. DisableRead (hs_channel h) p = Inr p' \<and> hs_ready x WRITE_EVENT h p' \<and> registered WRITE_EVENT h p'"
    if "m \<in> {WRITE_EVENT, READ_EVENT OR WRITE_EVENT}"
  proof -
    have "m AND NOT READ_EVENT = WRITE_EVENT" using that event_masks(5,6) by blast
    with set [of "\<lambda>m. m AND NOT READ_EVENT"] event_masks(2) show ?thesis unfolding DisableRead_def by simp
  qed
qed

subsection \<open>Rounds\<close>

fun wanted_mask :: "hs_answer \<Rightarrow> u32" where
  "wanted_mask (HsError WantRead) = READ_EVENT"
| "wanted_mask (HsError WantWrite) = WRITE_EVENT"
| "wanted_mask _ = 0"

definition waits :: "hs_answer \<Rightarrow> bool" where
  "waits a \<longleftrightarrow> a = HsError WantRead \<or> a = HsError WantWrite"

definition round_masks :: "u32 set" where
  "round_masks = {READ_EVENT OR WRITE_EVENT, READ_EVENT, WRITE_EVENT}"

lemma round_masks_or: "m \<in> round_masks \<Longrightarrow> m OR READ_EVENT \<in> {READ_EVENT, READ_EVENT OR WRITE_EVENT}"
  "m \<in> round_masks \<Longrightarrow> m OR WRITE_EVENT \<in> {WRITE_EVENT, READ_EVENT OR WRITE_EVENT}"
  by (auto simp: round_masks_def or.commute or.left_commute)

lemma round_waits:
  assumes "hs_ready x m h p" and "m \<in> round_masks" and "waits a"
  shows "\<exists>p'. doHandshake sc ec a h p = Inr (h, p') \<and> hs_ready x (wanted_mask a) h p'
    \<and> registered (wanted_mask a) h p' \<and> wanted_mask a \<in> round_masks"
proof -
  have h: "hs_ssl h" using assms(1) by (simp add: hs_ready_def)
  from assms(3) consider "a = HsError WantRead" | "a = HsError WantWrite" by (auto simp: waits_def)
  then show ?thesis
  proof cases
    case 1
    obtain p1 where p1: "EnableRead (hs_channel h) p = Inr p1" "hs_ready x (m OR READ_EVENT) h p1"
      using enable_mask(1) [OF assms(1)] by blast
    obtain p2 where "DisableWrite (hs_channel h) p1 = Inr p2" "hs_ready x READ_EVENT h p2" "registered READ_EVENT h p2"
      using disable_mask(1) [OF p1(2) round_masks_or(1) [OF assms(2)]] by blast
    with p1 1 h show ?thesis by (simp add: doHandshake_def round_masks_def)
  next
    case 2
    obtain p1 where p1: "EnableWrite (hs_channel h) p = Inr p1" "hs_ready x (m OR WRITE_EVENT) h p1"
      using enable_mask(2) [OF assms(1)] by blast
    obtain p2 where "DisableRead (hs_channel h) p1 = Inr p2" "hs_ready x WRITE_EVENT h p2" "registered WRITE_EVENT h p2"
      using disable_mask(2) [OF p1(2) round_masks_or(2) [OF assms(2)]] by blast
    with p1 2 h show ?thesis by (simp add: doHandshake_def round_masks_def)
  qed
qed

lemma rounds_wait:
  assumes "hs_ready x m h p" and "m \<in> round_masks" and "list_all waits as"
  shows "\<exists>p' m'. handshake_rounds sc ec (as @ bs) (h, p) = handshake_rounds sc ec bs (h, p')
    \<and> hs_ready x m' h p' \<and> m' \<in> round_masks
    \<and> (as \<noteq> [] \<longrightarrow> m' = wanted_mask (last as) \<and> registered m' h p')"
  using assms
proof (induction as arbitrary: m p)
  case Nil
  then show ?case by auto
next
  case (Cons a as)
  obtain p1 where p1: "doHandshake sc ec a h p = Inr (h, p1)" "hs_ready x (wanted_mask a) h p1"
      "registered (wanted_mask a) h p1" "wanted_mask a \<in> round_masks"
    using round_waits [OF Cons.prems(1,2), of a sc ec] Cons.prems(3) by auto
  show ?case
  proof (cases "as = []")
    case True
    with p1 show ?thesis by auto
  next
    case False
    with p1 Cons.IH [OF p1(2,4)] Cons.prems(3) show ?thesis by auto
  qed
qed

lemma handshake_finish:
  assumes "hs_ready x m h p"
  shows "\<exists>p'. doHandshake sc ec HsDone h p = and_then (sc (hs_fd h) p') (\<lambda>p. Inr (h, p))
    \<and> interest (syscalls p') (hs_fd h) = None \<and> isInLoopThread p' \<and> poller.more p' = x
    \<and> (\<exists>ch. heap p' (hs_channel h) = Some ch \<and> listen_events ch = 0 \<and> ch_idx ch = ch_deleted)"
  using assms
  by (auto simp: hs_ready_def doHandshake_def DisableAll_def loop_updateChannel_def updateChannel_def
      epoller_update_def assertInLoopThread_def isInLoopThread_def channel_setters)

lemma handshake_begin:
  assumes "hs_ready x m h p" and "m \<in> round_masks \<or> m = 0"
  shows "\<exists>p' m'. handshake_start self sc ec a h p = doHandshake sc ec a h p'
    \<and> hs_ready x m' h p' \<and> m' \<in> round_masks"
proof -
  let ?p = "p\<lparr>heap := (heap p)(hs_channel h \<mapsto> tie_obj (Some self) (the (heap p (hs_channel h))))\<rparr>"
  have t: "modify (tie_obj (Some self)) (hs_channel h) p = Inr ?p" "hs_ready x m h ?p"
    using assms(1) by (auto simp: hs_ready_def isInLoopThread_def tie_obj_def)
  obtain p1 where p1: "EnableRead (hs_channel h) ?p = Inr p1" "hs_ready x (m OR READ_EVENT) h p1"
    using enable_mask(1) [OF t(2)] by blast
  obtain p2 where p2: "EnableWrite (hs_channel h) p1 = Inr p2" "hs_ready x (m OR READ_EVENT OR WRITE_EVENT) h p2"
    using enable_mask(2) [OF p1(2)] by (auto simp: or.assoc)
  have "m OR READ_EVENT OR WRITE_EVENT \<in> round_masks"
    using assms(2) by (auto simp: round_masks_def or.commute or.left_commute)
  with t(1) p1(1) p2 show ?thesis by (auto simp: handshake_start_def Let_def)
qed

subsection \<open>Properties\<close>

text \<open>C21: The handshake. Started on a registered channel, it waits, after each round in which OpenSSL is not
  done, for exactly the direction OpenSSL asked for last; when OpenSSL is done the success callback is
  called once, on a channel that is taken out of the interest list. Nothing but the poller changes in
  between.\<close>

theorem handshake_completes:
  assumes "hs_ready x m h p" and "m \<in> round_masks \<or> m = 0" and "list_all waits (a # as)"
  shows "\<exists>p1 p2. and_then (handshake_start self sc ec a h p) (handshake_rounds sc ec as) = Inr (h, p1)
    \<and> registered (wanted_mask (last (a # as))) h p1 \<and> poller.more p1 = x
    \<and> doHandshake sc ec HsDone h p1 = and_then (sc (hs_fd h) p2) (\<lambda>p. Inr (h, p))
    \<and> interest (syscalls p2) (hs_fd h) = None \<and> poller.more p2 = x
    \<and> (\<exists>ch. heap p2 (hs_channel h) = Some ch \<and> listen_events ch = 0)"
proof -
  obtain p0 m0 where p0: "handshake_start self sc ec a h p = doHandshake sc ec a h p0" "hs_ready x m0 h p0"
      "m0 \<in> round_masks"
    using handshake_begin [OF assms(1,2)] by blast
  obtain p1 m1 where p1: "handshake_rounds sc ec ((a # as) @ []) (h, p0) = handshake_rounds sc ec [] (h, p1)"
      "hs_ready x m1 h p1" "m1 = wanted_mask (last (a # as))" "registered m1 h p1"
    using rounds_wait [OF p0(2,3) assms(3), of sc ec "[]"] by blast
  obtain p2 where p2: "doHandshake sc ec HsDone h p1 = and_then (sc (hs_fd h) p2) (\<lambda>p. Inr (h, p))"
      "interest (syscalls p2) (hs_fd h) = None" "poller.more p2 = x" "\<exists>ch. heap p2 (hs_channel h) = Some ch \<and> listen_events ch = 0"
    using handshake_finish [OF p1(2)] by blast
  have "and_then (handshake_start self sc ec a h p) (handshake_rounds sc ec as) = Inr (h, p1)"
    using p0(1) p1(1) by simp
  moreover have "poller.more p1 = x" using p1(2) by (simp add: hs_ready_def)
  ultimately show ?thesis using p1(3,4) p2 by blast
qed

text \<open>After a failure the handler keeps its place on the channel with a null pointer: the next readable
  or writable event uses it.\<close>

lemma handshake_failure_leaves_null:
  assumes "hs_ssl h" and "e \<noteq> WantRead" and "e \<noteq> WantWrite" and "ec (hs_fd h) p = Inr p'"
  shows "handshake_rounds sc ec [HsError e, a] (h, p) = Inl BadPointer"
  using assms by (cases e) (simp_all add: doHandshake_def onError_def)

definition demo_hs_net :: "string poller" where
  "demo_hs_net = (Epoller 1)\<lparr>heap := [1 \<mapsto> (Channel 7 False)\<lparr>ch_idx := ch_added\<rparr>],
     next_ptr := 2, m_channels := [7 \<mapsto> 1],
     syscalls := [EpollCtl EPOLL_CTL_ADD 7 (Some (EPOLLOUT OR EPOLLET OR EPOLLRDHUP, 1))]\<rparr>"

theorem handshake_completes_witness:
  "\<exists>p1. and_then (handshake_start 5 (\<lambda>fd. Inr) (\<lambda>fd. Inr) (HsError WantRead) \<lparr>hs_channel = 1, hs_fd = 7, hs_ssl = True\<rparr>
      demo_hs_net) (handshake_rounds (\<lambda>fd. Inr) (\<lambda>fd. Inr) [HsError WantRead, HsError WantWrite])
      = Inr (\<lparr>hs_channel = 1, hs_fd = 7, hs_ssl = True\<rparr>, p1)
    \<and> registered WRITE_EVENT \<lparr>hs_channel = 1, hs_fd = 7, hs_ssl = True\<rparr> p1"
proof -
  let ?h = "\<lparr>hs_channel = 1, hs_fd = 7, hs_ssl = True\<rparr>"
  have "hs_ready () 0 ?h demo_hs_net"
    by (simp add: hs_ready_def demo_hs_net_def Epoller_def isInLoopThread_def interest_def Channel_def)
  moreover have "list_all waits [HsError WantRead, HsError WantRead, HsError WantWrite]" by (simp add: waits_def)
  ultimately show ?thesis
    using handshake_completes [of "()" 0 ?h demo_hs_net "HsError WantRead" "[HsError WantRead, HsError WantWrite]"
        5 "\<lambda>fd. Inr" "\<lambda>fd. Inr"] by auto
qed

end
