(* ===== verification/Tcp_Client.thy ===== *)
theory Tcp_Client
  imports Tcp_Connector Tls_Handshake Log_Stream
begin

unbundle bit_operations_syntax

text \<open>
  \<^verbatim>\<open>src/src/TcpClient.{h,cpp}\<close>: the client joins the connector with the connection made from its
  socket. Its state extends that of the connector. A connection is what the client knows of it
  (\<open>client_conn\<close>); its behaviour is the subject of \<open>Tcp_Connection\<close>, and of \<open>Tls_Connection\<close> when TLS is
  enabled. Calls into the connection are recorded in \<open>client_log\<close>; the handshake is that of
  \<open>Tls_Handshake\<close>. The operations that give a
  functor to the loop are those of the connector; the destruction of a connection
  (\<^verbatim>\<open>removeConnection\<close>, always in the loop's thread) runs at once.
\<close>

subsection \<open>State\<close>

record client_conn =
  cc_name :: string
  cc_fd :: int
  cc_channel :: ptr

datatype client_event =
    Established client_conn
  | Destroyed client_conn
  | ShutdownConn client_conn
  | ForceClosed client_conn
  | CloseCallback

text \<open>\<open>enable_ssl\<close> is \<open>None\<close> until it is set: the constructors leave the member uninitialised.\<close>

record 'cb tcp_client = "'cb connector" +
  client_name :: string
  retry_flag :: bool
  client_connect_flag :: bool
  client_nextConnId :: "32 word"
  connection :: "client_conn option"
  close_callback_set :: bool
  enable_ssl :: "bool option"
  sslHostname :: string
  handler :: "handshake option"
  client_log :: "client_event list"

definition TcpClient :: "string \<Rightarrow> 'cb connector \<Rightarrow> 'cb tcp_client" where
  "TcpClient nm c = connector.extend c \<lparr>client_name = nm, retry_flag = False,
     client_connect_flag = False, client_nextConnId = 1, connection = None, close_callback_set = False,
     enable_ssl = None, sslHostname = [], handler = None, client_log = []\<rparr>"

type_synonym ('cb, 'z) client_fun = "('cb, 'z) tcp_client_scheme \<Rightarrow> ('cb, 'z) tcp_client_scheme outcome"

definition client_event :: "client_event \<Rightarrow> ('cb, 'z) tcp_client_scheme \<Rightarrow> ('cb, 'z) tcp_client_scheme" where
  "client_event e s = s\<lparr>client_log := client_log s @ [e]\<rparr>"

subsection \<open>Operations\<close>

definition set_close_callback :: "('cb, 'z) tcp_client_scheme \<Rightarrow> ('cb, 'z) tcp_client_scheme" where
  "set_close_callback s = s\<lparr>close_callback_set := True\<rparr>"

definition client_enable_ssl :: "string \<Rightarrow> ('cb, 'z) tcp_client_scheme \<Rightarrow> ('cb, 'z) tcp_client_scheme" where
  "client_enable_ssl hst s = s\<lparr>sslHostname := hst, enable_ssl := Some True\<rparr>"

definition enableRetry :: "('cb, 'z) tcp_client_scheme \<Rightarrow> ('cb, 'z) tcp_client_scheme" where
  "enableRetry s = s\<lparr>retry_flag := True\<rparr>"

text \<open>
  What a new connection takes from outside: the printed address of the peer of a descriptor, the answer
  of the first \<^verbatim>\<open>SSL_connect\<close>, the handler object and the names of its two lambdas.
\<close>

record 'cb client_env =
  peer_text :: "int \<Rightarrow> string"
  first_answer :: hs_answer
  handler_obj :: obj
  on_handshake :: 'cb
  on_handshake_error :: 'cb

text \<open>The name of a connection is cut by \<^verbatim>\<open>snprintf\<close> into 32 bytes.\<close>

definition client_connName :: "'cb client_env \<Rightarrow> int \<Rightarrow> ('cb, 'z) tcp_client_scheme \<Rightarrow> string" where
  "client_connName env sockfd s =
     client_name s @ take 31 ('':'' @ peer_text env sockfd @ ''#'' @ show_int (sint (client_nextConnId s)))"

definition make_connection :: "string \<Rightarrow> int \<Rightarrow> ('cb, 'z) client_fun" where
  "make_connection nm sockfd s =
    (let conn = \<lparr>cc_name = nm, cc_fd = sockfd, cc_channel = connector_channel s\<rparr>;
         s = (resetChannel s)\<lparr>connection := Some conn\<rparr>
     in Inr (client_event (Established conn) s))"

text \<open>The two callbacks of the handshake; a retry after a failure is asked for 1000 seconds.\<close>

definition handshake_succeeded :: "string \<Rightarrow> int \<Rightarrow> ('cb, 'z) client_fun" where
  "handshake_succeeded nm sockfd s = make_connection nm sockfd s"

definition handshake_failed :: "int \<Rightarrow> ('cb, 'z) client_fun" where
  "handshake_failed sockfd s =
    (if retry_flag s \<and> client_connect_flag s
     then Inr (s\<lparr>timer_requests := timer_requests s @ [1000 * 1000], retry_flag := False\<rparr>)
     else Inr s)"

definition client_newConnection :: "'cb client_env \<Rightarrow> int \<Rightarrow> ('cb, 'z) client_fun" where
  "client_newConnection env sockfd s =
    (let s = assertInLoopThread s;
         nm = client_connName env sockfd s;
         s = s\<lparr>client_nextConnId := client_nextConnId s + 1\<rparr>
     in case enable_ssl s of
          None \<Rightarrow> Inl UndefinedBehaviour
        | Some True \<Rightarrow>
            and_then (ssl_handshake_handler (on_handshake env) (on_handshake_error env) (connector_channel s) s)
              (\<lambda>(h, s).
            and_then (handshake_start (handler_obj env) (handshake_succeeded nm) handshake_failed
                (first_answer env) h s) (\<lambda>(h, s).
            Inr (s\<lparr>handler := Some h\<rparr>)))
        | Some False \<Rightarrow> make_connection nm sockfd s)"

definition client_connect ::
  "net_answers \<Rightarrow> 'cb client_env \<Rightarrow> 'cb \<Rightarrow> 'cb \<Rightarrow> ('cb, 'z) client_fun" where
  "client_connect net env on_out on_err s =
     start net (client_newConnection env) on_out on_err (s\<lparr>client_connect_flag := True\<rparr>)"

definition force_close :: "('cb, 'z) client_fun" where
  "force_close s =
     (case connection s of None \<Rightarrow> Inl BadPointer | Some c \<Rightarrow> Inr (client_event (ForceClosed c) s))"

definition disconnect :: "('cb, 'z) tcp_client_scheme \<Rightarrow> ('cb, 'z) tcp_client_scheme" where
  "disconnect s =
    (let s = s\<lparr>client_connect_flag := False\<rparr>
     in case connection s of Some c \<Rightarrow> client_event (ShutdownConn c) s | None \<Rightarrow> s)"

definition client_stop :: "('cb, 'z) tcp_client_scheme \<Rightarrow> ('cb, 'z) tcp_client_scheme" where
  "client_stop s = stop (s\<lparr>client_connect_flag := False\<rparr>)"

text \<open>
  The destructor: \<open>now\<close> is the answer of \<^verbatim>\<open>now_microsecconds\<close>, passed to \<^verbatim>\<open>runAfter\<close> as seconds.
\<close>

definition TcpClient_dtor :: "int \<Rightarrow> ('cb, 'z) tcp_client_scheme \<Rightarrow> ('cb, 'z) tcp_client_scheme" where
  "TcpClient_dtor now s =
    (case connection s of
       Some c \<Rightarrow> s
     | None \<Rightarrow> (stop s)\<lparr>timer_requests := timer_requests s @ [(now + 1000) * 1000]\<rparr>)"

definition client_handle_sig_int :: "('cb, 'z) tcp_client_scheme \<Rightarrow> ('cb, 'z) tcp_client_scheme" where
  "client_handle_sig_int s =
    (let s = (case connection s of Some c \<Rightarrow> client_event (ShutdownConn c) s | None \<Rightarrow> s)
     in s\<lparr>client_connect_flag := False\<rparr>)"

definition removeConnection ::
  "net_answers \<Rightarrow> 'cb client_env \<Rightarrow> 'cb \<Rightarrow> 'cb \<Rightarrow> client_conn \<Rightarrow> ('cb, 'z) client_fun" where
  "removeConnection net env on_out on_err conn s =
    (let s = assertInLoopThread s in
     assert_then (connection s = None \<or> connection s = Some conn) (
     let s = (if connection s = None then s\<lparr>reports := reports s @ [''removeConnection'']\<rparr> else s);
         s = client_event (Destroyed conn) (s\<lparr>connection := None\<rparr>)
     in if retry_flag s \<and> client_connect_flag s
        then restart net (client_newConnection env) on_out on_err s
        else Inr s))"

text \<open>The close callback the client installs; calling an empty \<^verbatim>\<open>std::function\<close> throws.\<close>

definition on_conn_close ::
  "net_answers \<Rightarrow> 'cb client_env \<Rightarrow> 'cb \<Rightarrow> 'cb \<Rightarrow> client_conn \<Rightarrow> ('cb, 'z) client_fun" where
  "on_conn_close net env on_out on_err conn s =
     and_then (removeConnection net env on_out on_err conn s) (\<lambda>s.
     if close_callback_set s then Inr (client_event CloseCallback s) else Inl UncaughtException)"

subsection \<open>A connection's life\<close>

text \<open>The descriptor became writable: the connection exists, and the connector has let go of the channel.\<close>

lemma established:
  assumes "idle k s" and "enable_ssl s = Some False" and "so_error net fd = 0"
    and "\<not> self_connect net fd" and "run on_out = check_whether_connected net (client_newConnection env)"
  shows "\<exists>s2. deliver run EPOLLOUT (next_ptr s) (in_progress on_out on_err fd s) = Inr s2
    \<and> connection s2 = Some \<lparr>cc_name = client_connName env fd s, cc_fd = fd, cc_channel = next_ptr s\<rparr>
    \<and> connector_channel s2 = 0 \<and> conn_state s2 = Connected \<and> isInLoopThread s2
    \<and> client_log s2 = client_log s
        @ [Established \<lparr>cc_name = client_connName env fd s, cc_fd = fd, cc_channel = next_ptr s\<rparr>]
    \<and> retry_flag s2 = retry_flag s \<and> client_connect_flag s2 = client_connect_flag s
    \<and> close_callback_set s2 = close_callback_set s \<and> enable_ssl s2 = Some False
    \<and> m_channels s2 = (m_channels s)(fd \<mapsto> next_ptr s) \<and> next_ptr s2 = Suc (next_ptr s)
    \<and> timer_requests s2 = timer_requests s"
proof -
  have idle: "connect_flag s" "isInLoopThread s" using assms(1) by (auto simp: idle_def)
  note check = check_connected[OF assms(3,4) idle(1), of "client_newConnection env" EPOLLOUT on_out on_err]
  show ?thesis
    unfolding deliver_out assms(5) check using idle(2) assms(2)
    by (simp add: client_newConnection_def make_connection_def
        client_event_def resetChannel_def handling_def in_progress_def isInLoopThread_def
        assertInLoopThread_def client_connName_def Let_def)
qed

lemma closed_and_retried:
  assumes "connection s = Some c" and "connector_channel s = 0" and "isInLoopThread s"
    and "retry_flag s" and "client_connect_flag s" and "close_callback_set s"
    and "connect_errno net \<in> set expected_errnos" and "m_channels s (new_fd net) = None"
  shows "\<exists>s'. on_conn_close net env on_out on_err c s = Inr s' \<and> connection s' = None
    \<and> conn_state s' = Connecting \<and> retryDelayMs s' = InitRetryDelayMs
    \<and> connector_channel s' = next_ptr s \<and> m_channels s' (new_fd net) = Some (next_ptr s)
    \<and> client_log s' = client_log s @ [Destroyed c, CloseCallback]"
proof -
  let ?s = "(client_event (Destroyed c) (s\<lparr>connection := None\<rparr>))
      \<lparr>conn_state := Disconnected, retryDelayMs := InitRetryDelayMs, connect_flag := True\<rparr>"
  have idle: "idle 0 ?s"
    using assms(2,3) by (simp add: idle_def client_event_def backoff_0 isInLoopThread_def)
  have fresh: "m_channels ?s (new_fd net) = None" using assms(8) by (simp add: client_event_def)
  have "restart net (client_newConnection env) on_out on_err (client_event (Destroyed c) (s\<lparr>connection := None\<rparr>))
      = Inr (in_progress on_out on_err (new_fd net) ?s)"
    using start_in_progress[OF idle assms(7) fresh] assms(3)
    by (simp add: restart_def setState_def client_event_def isInLoopThread_def assertInLoopThread_def)
  then have "on_conn_close net env on_out on_err c s
      = Inr (client_event CloseCallback (in_progress on_out on_err (new_fd net) ?s))"
    using assms(1,3-6)
    by (simp add: on_conn_close_def removeConnection_def client_event_def in_progress_def Let_def)
  then show ?thesis
    by (simp add: client_event_def in_progress_def)
qed

subsection \<open>Connecting over TLS\<close>

lemma client_more:
  assumes "poller.more s = poller.more s'"
  shows "connection s = connection s'" "client_log s = client_log s'" "connector_channel s = connector_channel s'"
    "conn_state s = conn_state s'"
  using assms by (cases s; cases s'; simp add: connector.ext_inject tcp_client.ext_inject)+

text \<open>With TLS the same event starts the handshake.\<close>

lemma handshake_begun:
  assumes "idle k s" and "enable_ssl s = Some True" and "so_error net fd = 0"
    and "\<not> self_connect net fd" and "run on_out = check_whether_connected net (client_newConnection env)"
    and "waits (first_answer env)"
  shows "\<exists>s2 h m. deliver run EPOLLOUT (next_ptr s) (in_progress on_out on_err fd s) = Inr s2
    \<and> handler s2 = Some h \<and> hs_fd h = fd \<and> hs_ready (poller.more s2) m h s2 \<and> m \<in> round_masks
    \<and> connection s2 = connection s \<and> client_log s2 = client_log s \<and> connector_channel s2 = next_ptr s"
proof -
  have idle: "connect_flag s" "isInLoopThread s" using assms(1) by (auto simp: idle_def)
  let ?s = "(handling EPOLLOUT on_out on_err fd s)\<lparr>conn_state := Connected,
      heap := (heap s)(next_ptr s \<mapsto> reset_listen_events (ready_pending EPOLLOUT on_out on_err fd)),
      client_nextConnId := client_nextConnId s + 1\<rparr>"
  let ?ch = "handshake_callbacks (on_handshake env) (on_handshake_error env)
      (reset_listen_events (ready_pending EPOLLOUT on_out on_err fd))"
  let ?p = "?s\<lparr>heap := (heap s)(next_ptr s \<mapsto> ?ch)\<rparr>"
  let ?h = "\<lparr>hs_channel = next_ptr s, hs_fd = fd, hs_ssl = True\<rparr>"
  let ?sc = "handshake_succeeded (client_connName env fd s)"
  have ready: "hs_ready (poller.more ?p) 0 ?h ?p"
    using idle(2)
    by (simp add: hs_ready_def handling_def in_progress_def isInLoopThread_def handshake_callbacks_def
        set_in_callback_def set_out_callback_def set_hup_callback_def set_err_callback_def
        reset_listen_events_def ready_pending_def pending_channel_def Channel_def NONE_EVENT_def)
  obtain p1 m1 where p1: "handshake_start (handler_obj env) ?sc handshake_failed (first_answer env) ?h ?p
      = doHandshake ?sc handshake_failed (first_answer env) ?h p1"
      "hs_ready (poller.more ?p) m1 ?h p1" "m1 \<in> round_masks"
    using handshake_begin [OF ready] by blast
  obtain p2 where p2: "doHandshake ?sc handshake_failed (first_answer env) ?h p1 = Inr (?h, p2)"
      "hs_ready (poller.more ?p) (wanted_mask (first_answer env)) ?h p2" "wanted_mask (first_answer env) \<in> round_masks"
    using round_waits [OF p1(2,3) assms(6)] by blast
  have hd: "ssl_handshake_handler (on_handshake env) (on_handshake_error env) (next_ptr s) ?s = Inr (?h, ?p)"
    by (simp add: ssl_handshake_handler_def handling_def in_progress_def reset_listen_events_def ready_pending_def
        pending_channel_def Channel_def)
  let ?t = "(handling EPOLLOUT on_out on_err fd s)\<lparr>conn_state := Connected,
      heap := (heap s)(next_ptr s \<mapsto> reset_listen_events (ready_pending EPOLLOUT on_out on_err fd))\<rparr>"
  have t: "assertInLoopThread ?t = ?t" "client_connName env fd ?t = client_connName env fd s"
      "connector_channel ?s = next_ptr s" "enable_ssl ?s = Some True" "client_nextConnId ?t = client_nextConnId s"
    using idle(2) assms(2)
    by (simp_all add: assertInLoopThread_def isInLoopThread_def handling_def in_progress_def client_connName_def)
  have new: "client_newConnection env fd ?t = Inr (p2\<lparr>handler := Some ?h\<rparr>)"
    unfolding client_newConnection_def Let_def t(1,2,5) t(3,4) option.case bool.case hd and_then.simps prod.case p1(1) p2(1) ..
  obtain ch where ch: "heap p2 (next_ptr s) = Some ch" using p2(2) by (auto simp: hs_ready_def)
  let ?q = "p2\<lparr>handler := Some ?h, heap := (heap p2)(next_ptr s \<mapsto> ch\<lparr>eventHandling := False\<rparr>)\<rparr>"
  have "deliver run EPOLLOUT (next_ptr s) (in_progress on_out on_err fd s) = Inr ?q"
    unfolding deliver_out assms(5) check_connected [OF assms(3,4) idle(1)] new using ch by simp
  moreover have "hs_ready (poller.more ?q) (wanted_mask (first_answer env)) ?h ?q"
    using p2(2) ch by (auto simp: hs_ready_def isInLoopThread_def)
  moreover have "connection p2 = connection s" "client_log p2 = client_log s" "connector_channel p2 = next_ptr s"
    using client_more [of p2 ?p] p2(2) by (simp_all add: hs_ready_def handling_def in_progress_def)
  ultimately show ?thesis
    using p2(3) by (intro exI [of _ ?q] exI [of _ ?h] exI [of _ "wanted_mask (first_answer env)"]) simp
qed

subsection \<open>Properties\<close>


text \<open>C26: Connecting over TLS: when the descriptor becomes writable the client starts the handshake and has
  no connection yet; however many rounds OpenSSL needs, when it is done there is exactly one new
  connection, on the descriptor and the channel of the attempt, and it is established once.\<close>

theorem tls_client_connects:
  assumes "idle k s" and "enable_ssl s = Some True" and "so_error net fd = 0"
    and "\<not> self_connect net fd" and "run on_out = check_whether_connected net (client_newConnection env)"
    and "list_all waits (first_answer env # as)" and "connection s = None"
    and "nm = client_connName env fd s"
  shows "\<exists>s2 h s3 c. deliver run EPOLLOUT (next_ptr s) (in_progress on_out on_err fd s) = Inr s2
    \<and> handler s2 = Some h \<and> connection s2 = None
    \<and> handshake_rounds (handshake_succeeded nm) handshake_failed (as @ [HsDone]) (h, s2) = Inr (h, s3)
    \<and> c = \<lparr>cc_name = nm, cc_fd = fd, cc_channel = next_ptr s\<rparr>
    \<and> connection s3 = Some c \<and> client_log s3 = client_log s @ [Established c]"
proof -
  obtain s2 h m where s2: "deliver run EPOLLOUT (next_ptr s) (in_progress on_out on_err fd s) = Inr s2"
      "handler s2 = Some h" "hs_fd h = fd" "hs_ready (poller.more s2) m h s2" "m \<in> round_masks"
      "connection s2 = connection s" "client_log s2 = client_log s" "connector_channel s2 = next_ptr s"
    using handshake_begun [where net = net and fd = fd and run = run and env = env and on_out = on_out
        and on_err = on_err, OF assms(1-5)] assms(6) by auto
  obtain p m' where p: "handshake_rounds (handshake_succeeded nm) handshake_failed (as @ [HsDone]) (h, s2)
      = handshake_rounds (handshake_succeeded nm) handshake_failed [HsDone] (h, p)" "hs_ready (poller.more s2) m' h p"
    using rounds_wait [OF s2(4,5), of as "handshake_succeeded nm" handshake_failed "[HsDone]"] assms(6) by auto
  obtain q where q: "doHandshake (handshake_succeeded nm) handshake_failed HsDone h p
      = and_then (handshake_succeeded nm (hs_fd h) q) (\<lambda>p. Inr (h, p))" "poller.more q = poller.more s2"
    using handshake_finish [OF p(2)] by blast
  note eq = client_more [OF q(2)]
  show ?thesis
    using s2 p(1) q(1) eq assms(7)
    by (simp add: handshake_succeeded_def make_connection_def resetChannel_def client_event_def Let_def)
qed

text \<open>The retry a client asks for after a failed handshake cannot work: the connector still counts the
  descriptor as connected, and starting it again fails its assertion.\<close>

lemma handshake_retry_aborts:
  assumes "conn_state s = Connected" and "isInLoopThread s" and "retry_flag s" and "client_connect_flag s"
  shows "\<exists>s'. handshake_failed fd s = Inr s' \<and> timer_requests s' = timer_requests s @ [1000 * 1000]
    \<and> client_connect net env on_out on_err s' = Inl AssertionFailure"
  using assms
  by (simp add: handshake_failed_def client_connect_def start_def startInLoop_def isInLoopThread_def
      assertInLoopThread_def)

definition demo_client :: "string tcp_client" where
  "demo_client = (TcpClient ''c'' (Connector (Epoller 1)))\<lparr>retry_flag := True, close_callback_set := True,
     enable_ssl := Some False\<rparr>"

definition demo_env :: "string client_env" where
  "demo_env = \<lparr>peer_text = (\<lambda>_. ''p''), first_answer = HsError WantRead, handler_obj = 5,
     on_handshake = ''do'', on_handshake_error = ''fail''\<rparr>"


theorem tls_client_connects_witness:
  "\<exists>s2 h s3 c. deliver (\<lambda>cb. check_whether_connected (demo_net 7 EINPROGRESS 0) (client_newConnection demo_env))
      EPOLLOUT 1 (in_progress ''out'' ''err'' 7 (demo_client\<lparr>connect_flag := True, enable_ssl := Some True\<rparr>)) = Inr s2
    \<and> handshake_rounds (handshake_succeeded (client_connName demo_env 7 demo_client)) handshake_failed [HsError WantWrite, HsDone] (h, s2) = Inr (h, s3)
    \<and> connection s3 = Some c \<and> cc_fd c = 7"
proof -
  let ?s = "demo_client\<lparr>connect_flag := True, enable_ssl := Some True\<rparr>"
  have d: "idle 0 ?s" "enable_ssl ?s = Some True" "connection ?s = None" "next_ptr ?s = 1"
    by (simp_all add: demo_client_def TcpClient_def Connector_def Epoller_def poller.extend_def
        connector.extend_def isInLoopThread_def idle_def backoff_0)
  have n: "so_error (demo_net 7 EINPROGRESS 0) 7 = 0" "\<not> self_connect (demo_net 7 EINPROGRESS 0) 7"
    by (simp_all add: demo_net_def)
  have w: "list_all waits (first_answer demo_env # [HsError WantWrite])" by (simp add: demo_env_def waits_def)
  have nm: "client_connName demo_env 7 ?s = client_connName demo_env 7 demo_client"
    by (simp add: client_connName_def)
  from tls_client_connects [where on_out = "''out''" and on_err = "''err''"
      and run = "\<lambda>cb. check_whether_connected (demo_net 7 EINPROGRESS 0) (client_newConnection demo_env)",
      OF d(1,2) n refl w d(3) nm [symmetric]]
  show ?thesis unfolding d(4) append.simps by force
qed

end
