(* ===== verification/Tls_Connection.thy ===== *)
theory Tls_Connection
  imports Tcp_Connection Tls_Handshake
begin

unbundle bit_operations_syntax

text \<open>
  A connection over TLS: \<^verbatim>\<open>src/src/https/ssl_TcpConnection.{h,cpp}\<close>. The class overrides the handlers of
  \<^verbatim>\<open>TcpConnection\<close> that move bytes and the hang-up; the other handlers are inherited and call the
  overridden ones. OpenSSL is outside the repository: the results of \<^verbatim>\<open>SSL_read\<close> and \<^verbatim>\<open>SSL_write\<close> with
  what \<^verbatim>\<open>SSL_get_error\<close> then says are lists handed to the handlers, one entry per call. A call with the
  null pointer that the hang-up leaves behind is \<open>BadPointer\<close>.
\<close>

subsection \<open>State\<close>

datatype ssl_read_answer = SslRead "byte list" | SslReadFailed ssl_error

text \<open>A failed write carries the value returned, which is not positive.\<close>

datatype ssl_write_answer = SslWrote nat | SslWriteFailed int ssl_error

text \<open>\<open>ssl_set\<close>: \<^verbatim>\<open>ssl_\<close> is not null; \<open>ssl_freed\<close> counts the calls of \<^verbatim>\<open>SSL_free\<close>.\<close>

record tls_conn =
  base :: tcp_conn
  ssl_set :: bool
  ssl_freed :: nat

definition ssl_TcpConnection_fd :: "int \<Rightarrow> obj \<Rightarrow> conn_cb poller \<Rightarrow> tls_conn outcome" where
  "ssl_TcpConnection_fd fd self p =
     and_then (TcpConnection_fd fd self p) (\<lambda>c. Inr \<lparr>base = c, ssl_set = True, ssl_freed = 0\<rparr>)"

definition ssl_TcpConnection_on :: "ptr \<Rightarrow> int \<Rightarrow> obj \<Rightarrow> conn_cb poller \<Rightarrow> tls_conn outcome" where
  "ssl_TcpConnection_on ch fd self p =
     and_then (TcpConnection_on ch fd self p) (\<lambda>c. Inr \<lparr>base = c, ssl_set = True, ssl_freed = 0\<rparr>)"

definition with_base :: "(tcp_conn \<Rightarrow> tcp_conn outcome) \<Rightarrow> tls_conn \<Rightarrow> tls_conn outcome" where
  "with_base f c = and_then (f (base c)) (\<lambda>b. Inr (c\<lparr>base := b\<rparr>))"

definition on_loop :: "tls_conn \<Rightarrow> tls_conn" where
  "on_loop c = c\<lparr>base := (base c)\<lparr>net := assertInLoopThread (net (base c))\<rparr>\<rparr>"

subsection \<open>Hang-up\<close>

text \<open>The close callback runs before the state word becomes \<^verbatim>\<open>Disconnected\<close>.\<close>

definition ssl_close :: "tls_conn \<Rightarrow> tls_conn" where
  "ssl_close c = (if ssl_set c then c\<lparr>ssl_set := False, ssl_freed := ssl_freed c + 1\<rparr> else c)"

definition hup_base :: "tcp_conn \<Rightarrow> tcp_conn outcome" where
  "hup_base c =
     and_then (set_unused c) (\<lambda>c.
     and_then (with_net (DisableAll (conn_channel c)) c) (\<lambda>c.
     let c = socket_close c in
     and_then (if closeCallback c then Inr (log_event CloseSeen c) else Inl UncaughtException) (\<lambda>c.
     Inr (c\<lparr>state_word := Disconnected\<rparr>))))"

definition ssl_handle_ep_hup :: "tls_conn \<Rightarrow> tls_conn outcome" where
  "ssl_handle_ep_hup c =
     (let c = on_loop c in
      if has_flag (state_word (base c)) Disconnected then Inr c
      else with_base hup_base (ssl_close c))"

subsection \<open>Reading\<close>

text \<open>The read loop of \<^verbatim>\<open>handle_ep_in\<close> and \<^verbatim>\<open>finish_in_out\<close>; \<open>n\<close> counts the bytes read.\<close>

fun ssl_read_all :: "ssl_read_answer list \<Rightarrow> nat \<Rightarrow> buffer \<Rightarrow> (ssl_error \<times> nat \<times> buffer) outcome" where
  "ssl_read_all [] n b = Inl NoReturn"
| "ssl_read_all (a # as) n b =
     and_then (ensureWritableBytes 65536 b) (\<lambda>b.
     case a of
       SslRead bs \<Rightarrow>
         if bs = [] \<or> writableBytes b < length bs then Inl KernelContract
         else and_then (hasWritten (length bs) (b\<lparr>buf := overwrite (buf b) (writeBegin b) bs\<rparr>))
                (ssl_read_all as (n + length bs))
     | SslReadFailed e \<Rightarrow> Inr (e, n, b))"

definition message_if :: "nat \<Rightarrow> tls_conn \<Rightarrow> tls_conn outcome" where
  "message_if n c = (if n > 0 then with_base call_message c else Inr c)"

definition ssl_handle_ep_in :: "ssl_read_answer list \<Rightarrow> tls_conn \<Rightarrow> tls_conn outcome" where
  "ssl_handle_ep_in answers c =
     (let c = on_loop c in
      if \<not> ssl_set c then Inl BadPointer
      else and_then (ssl_read_all answers 0 (inputBuffer (base c))) (\<lambda>(e, n, b).
        let c = c\<lparr>base := (base c)\<lparr>inputBuffer := b\<rparr>\<rparr> in
        case e of
          WantRead \<Rightarrow> message_if n c
        | WantWrite \<Rightarrow>
            and_then (with_base (with_net (EnableWrite (conn_channel (base c)))) c) (message_if n)
        | ZeroReturn \<Rightarrow> and_then (message_if n c) ssl_handle_ep_hup
        | OtherError _ \<Rightarrow> ssl_handle_ep_hup c))"

subsection \<open>Writing queued output\<close>

text \<open>
  \<^verbatim>\<open>while (buf.readableBytes())\<close> on the front buffer. The result is the error that stopped the loop, if
  one did, the buffer, the bytes OpenSSL took and the answers left.
\<close>

fun ssl_flush_front ::
  "ssl_write_answer list \<Rightarrow> buffer \<Rightarrow> byte list
    \<Rightarrow> (ssl_error option \<times> buffer \<times> byte list \<times> ssl_write_answer list) outcome"
where
  "ssl_flush_front answers b out =
     (if readableBytes b = 0 then Inr (None, b, out, answers)
      else case answers of
          [] \<Rightarrow> Inl NoReturn
        | SslWrote n # as \<Rightarrow>
            if n = 0 \<or> readableBytes b < n then Inl KernelContract
            else and_then (retrieve n b) (\<lambda>b'. ssl_flush_front as b' (out @ take n (contents b)))
        | SslWriteFailed r e # as \<Rightarrow> Inr (Some e, b, out, as))"

declare ssl_flush_front.simps [simp del]

text \<open>
  \<^verbatim>\<open>while (!outputBuffers_.empty())\<close>; \<open>on_empty\<close> is what follows a buffer written out: \<^verbatim>\<open>handle_ep_out\<close>
  queues the write-complete callback, \<^verbatim>\<open>finish_in_out\<close> calls it, and takes the buffer off the list only
  if there is one: without it the loop goes round with the empty buffer for ever.
\<close>

fun ssl_flush ::
  "(tcp_conn \<Rightarrow> tcp_conn outcome) \<Rightarrow> buffer list \<Rightarrow> ssl_write_answer list \<Rightarrow> tcp_conn
    \<Rightarrow> (ssl_error option \<times> tcp_conn) outcome"
where
  "ssl_flush on_empty [] answers c = Inr (None, c)"
| "ssl_flush on_empty (b # bs) answers c =
     and_then (ssl_flush_front answers b (sent c)) (\<lambda>(e, b', out, as).
     let c = c\<lparr>sent := out, outputBuffers := b' # bs\<rparr> in
     case e of
       None \<Rightarrow> and_then (on_empty c) (\<lambda>c. ssl_flush on_empty bs as (c\<lparr>outputBuffers := bs\<rparr>))
     | Some e \<Rightarrow> Inr (Some e, c))"

definition queue_complete :: "tcp_conn \<Rightarrow> tcp_conn outcome" where
  "queue_complete c = Inr (if writeCompleteCallback c then log_event WriteCompleteQueued c else c)"

definition call_complete :: "tcp_conn \<Rightarrow> tcp_conn outcome" where
  "call_complete c = (if writeCompleteCallback c then Inr (log_event WriteCompleteSeen c) else Inl NoReturn)"

text \<open>\<^verbatim>\<open>rdhup_phrase\<close> has no initial value.\<close>

definition ssl_handle_ep_out :: "ssl_write_answer list \<Rightarrow> tls_conn \<Rightarrow> tls_conn outcome" where
  "ssl_handle_ep_out answers c =
     (let c = on_loop c in
      if outputBuffers (base c) = [] then with_base (with_net (DisableWrite (conn_channel (base c)))) c
      else if \<not> ssl_set c then Inl BadPointer
      else and_then (ssl_flush queue_complete (outputBuffers (base c)) answers (base c)) (\<lambda>(e, b).
        let c = c\<lparr>base := b\<rparr> in
        case e of
          None \<Rightarrow> (case rdhup_phrase b of
              None \<Rightarrow> Inl UndefinedBehaviour
            | Some ph \<Rightarrow> if ph then ssl_handle_ep_hup c else Inr c)
        | Some WantWrite \<Rightarrow> Inr c
        | Some WantRead \<Rightarrow> with_base (with_net (EnableRead (conn_channel b))) c
        | Some _ \<Rightarrow> ssl_handle_ep_hup c))"

definition ssl_finish_in_out ::
  "ssl_read_answer list \<Rightarrow> ssl_write_answer list \<Rightarrow> tls_conn \<Rightarrow> (bool \<times> tls_conn) outcome"
where
  "ssl_finish_in_out reads writes c =
     (let c = on_loop c; give_up = (\<lambda>c. and_then (ssl_handle_ep_hup c) (\<lambda>c. Inr (False, c))) in
      if \<not> ssl_set c then Inl BadPointer
      else and_then (ssl_read_all reads 0 (inputBuffer (base c))) (\<lambda>(e, n, b).
        let c = c\<lparr>base := (base c)\<lparr>inputBuffer := b\<rparr>\<rparr> in
        if e \<noteq> ZeroReturn then give_up c
        else and_then (message_if n c) (\<lambda>c.
          if outputBuffers (base c) = [] then Inr (True, c)
          else and_then (ssl_flush call_complete (outputBuffers (base c)) writes (base c)) (\<lambda>(e, b).
            let c = c\<lparr>base := b\<rparr> in
            case e of
              None \<Rightarrow> Inr (True, c)
            | Some WantWrite \<Rightarrow>
                and_then (deref (net b) (conn_channel b)) (\<lambda>ch.
                and_then (if \<not> isWriting ch then with_base (with_net (EnableWrite (conn_channel b))) c
                          else Inr c) (\<lambda>c. Inr (False, c)))
            | Some WantRead \<Rightarrow>
                and_then (with_base (with_net (EnableRead (conn_channel b))) c) (\<lambda>c. Inr (False, c))
            | Some _ \<Rightarrow> give_up c))))"

subsection \<open>Sending\<close>

text \<open>
  \<^verbatim>\<open>while (remaining)\<close> of \<^verbatim>\<open>sendInLoop\<close>, which offers the whole of \<open>data\<close> in every round. The result is
  \<^verbatim>\<open>faultError\<close>, \<^verbatim>\<open>remaining\<close> and the last \<^verbatim>\<open>nwrote\<close>.
\<close>

fun ssl_write_direct ::
  "ssl_write_answer list \<Rightarrow> byte list \<Rightarrow> nat \<Rightarrow> int \<Rightarrow> tcp_conn \<Rightarrow> (bool \<times> nat \<times> int \<times> tcp_conn) outcome"
where
  "ssl_write_direct answers data remaining nwrote c =
     (if remaining = 0 then Inr (False, remaining, nwrote, c)
      else case answers of
          [] \<Rightarrow> Inl NoReturn
        | SslWrote n # as \<Rightarrow>
            if n = 0 \<or> length data < n then Inl KernelContract
            else
              let c = c\<lparr>sent := sent c @ take n data\<rparr>; remaining = length data - n in
              ssl_write_direct as data remaining (int n)
                (if remaining = 0 \<and> writeCompleteCallback c then log_event WriteCompleteQueued c else c)
        | SslWriteFailed r e # as \<Rightarrow>
            if r > 0 then Inl KernelContract
            else if r = 0 then ssl_write_direct as data (length data) 0 c
            else (case e of
                WantWrite \<Rightarrow> Inr (False, remaining, r, c)
              | WantRead \<Rightarrow>
                  and_then (with_net (EnableRead (conn_channel c)) c) (\<lambda>c. Inr (False, remaining, r, c))
              | _ \<Rightarrow> Inr (True, remaining, r, c)))"

declare ssl_write_direct.simps [simp del]

definition ssl_store_rest :: "byte list \<Rightarrow> nat \<Rightarrow> int \<Rightarrow> tcp_conn \<Rightarrow> tcp_conn outcome" where
  "ssl_store_rest data remaining nwrote c =
     and_then (Buffer InitialSize) (\<lambda>b.
     let c = c\<lparr>oldLen := oldLen c + word_of_nat remaining\<rparr>;
         total = oldLen c + word_of_nat remaining;
         c = (if highWaterMark c \<le> total \<and> oldLen c < highWaterMark c \<and> highWaterMarkCallback c
              then log_event (HighWaterQueued total) c else c) in
     if nwrote < 0 \<or> length data < nat nwrote + remaining then Inl OutOfBounds
     else
       and_then (buf_append b (take remaining (drop (nat nwrote) data))) (\<lambda>b.
       let c = c\<lparr>outputBuffers := b # outputBuffers c\<rparr> in
       and_then (deref (net c) (conn_channel c)) (\<lambda>ch.
       if \<not> isWriting ch then with_net (EnableWrite (conn_channel c)) c else Inr c)))"

definition ssl_sendInLoop :: "ssl_write_answer list \<Rightarrow> byte list \<Rightarrow> tls_conn \<Rightarrow> tls_conn outcome" where
  "ssl_sendInLoop answers data c =
     (let c = on_loop c; old = state_word (base c) in
      and_then (deref (net (base c)) (conn_channel (base c))) (\<lambda>ch.
      and_then (if \<not> isWriting ch \<and> outputBuffers (base c) = [] \<and> data \<noteq> [] then
                  if ssl_set c then ssl_write_direct answers data (length data) 0 (base c) else Inl BadPointer
                else Inr (False, length data, 0, base c)) (\<lambda>(fault, remaining, nwrote, b).
      and_then (if \<not> fault \<and> remaining > 0 then ssl_store_rest data remaining nwrote b else Inr b) (\<lambda>b.
      Inr (c\<lparr>base := b\<lparr>state_word := finish_send 3 (state_word b) (LData old)\<rparr>\<rparr>)))))"

definition ssl_send :: "ssl_write_answer list \<Rightarrow> byte list \<Rightarrow> tls_conn \<Rightarrow> tls_conn outcome" where
  "ssl_send answers msg c =
     (case pass_gate 5 (state_word (base c)) SLoad of
        None \<Rightarrow> Inl NoReturn
      | Some (w, admitted) \<Rightarrow>
          (let c = c\<lparr>base := (base c)\<lparr>state_word := w\<rparr>\<rparr> in
           if \<not> admitted then Inr c
           else if isInLoopThread (net (base c)) then ssl_sendInLoop answers msg c
           else Inr (c\<lparr>base := log_event (SendQueued msg) (base c)\<rparr>)))"

subsection \<open>Inherited handlers\<close>

definition ssl_handle_ep_rdhup ::
  "ssl_read_answer list \<Rightarrow> ssl_write_answer list \<Rightarrow> tls_conn \<Rightarrow> tls_conn outcome"
where
  "ssl_handle_ep_rdhup reads writes c =
     (if has_flag (state_word (base c)) Connecting then Inl NoReturn
      else and_then (ssl_finish_in_out reads writes c) (\<lambda>(fin, c).
        and_then (if fin then ssl_handle_ep_hup c else Inr c) (\<lambda>c.
        Inr (c\<lparr>base := (base c)\<lparr>rdhup_phrase := Some True\<rparr>\<rparr>))))"

definition ssl_handle_ep_err :: "int \<Rightarrow> tls_conn \<Rightarrow> tls_conn outcome" where
  "ssl_handle_ep_err so_error c = (if so_error \<noteq> 0 then ssl_handle_ep_hup c else Inr c)"

definition ssl_forceCloseInLoop :: "tls_conn \<Rightarrow> tls_conn outcome" where
  "ssl_forceCloseInLoop c = and_then (with_base set_unused (on_loop c)) ssl_handle_ep_hup"

datatype tls_input =
    TlsIn "ssl_read_answer list"
  | TlsOut "ssl_write_answer list"
  | TlsRdhup "ssl_read_answer list" "ssl_write_answer list"
  | TlsHup
  | TlsErr int
  | TlsForceClose

fun tls_do :: "tls_conn \<Rightarrow> tls_input \<Rightarrow> tls_conn outcome" where
  "tls_do c (TlsIn rs) = ssl_handle_ep_in rs c"
| "tls_do c (TlsOut ws) = ssl_handle_ep_out ws c"
| "tls_do c (TlsRdhup rs ws) = ssl_handle_ep_rdhup rs ws c"
| "tls_do c TlsHup = ssl_handle_ep_hup c"
| "tls_do c (TlsErr e) = ssl_handle_ep_err e c"
| "tls_do c TlsForceClose = ssl_forceCloseInLoop c"

subsection \<open>set_unused\<close>

text \<open>With nobody else at the state word, \<^verbatim>\<open>set_unused\<close> clears at most the flag \<^verbatim>\<open>used\<close>.\<close>

lemma clear_used:
  assumes "has_flag w used"
  shows "has_flag (w - used) Disconnected = has_flag w Disconnected"
proof -
  have "bit w 4" using assms has_flag_bit [of w 4] by (simp add: used_def)
  then have "NOT w AND used = 0"
    using and_exp_eq_0_iff_not_bit [of "NOT w" 4] by (simp add: used_def bit_not_iff)
  then have "w - used = w AND NOT used" by (rule disjunctive_diff_eq_and_not)
  moreover have "bit (w AND NOT used) 2 = bit w 2"
    using bit_exp_iff [of 4 2, where 'a = "64 word"] by (simp add: used_def bit_and_iff bit_not_iff)
  ultimately show ?thesis
    using has_flag_bit [of "w - used" 2] has_flag_bit [of w 2] by (simp add: Disconnected_def)
qed

lemma unused_step_keeps:
  "unused_step spur w pc = (w', pc') \<Longrightarrow> (\<forall>old. pc = UCas old \<longrightarrow> has_flag old used) \<Longrightarrow>
    has_flag w' Disconnected = has_flag w Disconnected \<and> (\<forall>old. pc' = UCas old \<longrightarrow> has_flag old used)"
  by (cases pc) (auto simp: clear_used split: if_splits)

lemma run_unused_unfold:
  "run_unused n w pc = (if pc = UDone then Some w else case n of 0 \<Rightarrow> None
     | Suc k \<Rightarrow> (case unused_step False w pc of (w', pc') \<Rightarrow> run_unused k w' pc'))"
  by (cases pc; cases n) auto

lemma run_unused_keeps:
  "run_unused n w pc = Some w' \<Longrightarrow> (\<forall>old. pc = UCas old \<longrightarrow> has_flag old used) \<Longrightarrow>
    has_flag w' Disconnected = has_flag w Disconnected"
proof (induction n arbitrary: w pc)
  case (Suc n)
  obtain v pc1 where "unused_step False w pc = (v, pc1)" by fastforce
  with Suc unused_step_keeps [OF this Suc.prems(2)] show ?case
    by (auto simp: run_unused_unfold [of "Suc n"] split: if_splits)
qed (auto simp: run_unused_unfold split: if_splits)

lemma set_unused_eq:
  "set_unused c = Inr c' \<Longrightarrow> \<exists>w. c' = c\<lparr>state_word := w\<rparr>
    \<and> has_flag w Disconnected = has_flag (state_word c) Disconnected"
  using run_unused_keeps [of 4 "state_word c" ULoad] by (auto simp: set_unused_def split: option.splits)

lemma set_unused_idle: "state_word c = Connected OR used \<Longrightarrow> set_unused c = Inr (c\<lparr>state_word := Connected\<rparr>)"
proof -
  have "run_unused 4 (Connected OR used) ULoad = Some Connected" by code_simp
  then show "state_word c = Connected OR used \<Longrightarrow> set_unused c = Inr (c\<lparr>state_word := Connected\<rparr>)"
    by (simp add: set_unused_def)
qed

text \<open>While a send is counted in the word, the wait of \<^verbatim>\<open>set_unused\<close> has no end unless another thread
  changes the word.\<close>

lemma run_unused_writing:
  assumes w: "has_flag w used" "has_flag w writing" "\<not> has_flag w Connecting"
    and pc: "pc \<in> {ULoad, ULoad2, ULoop w, UWaitWriting w}"
  shows "run_unused n w pc = None"
  using pc
proof (induction n arbitrary: pc)
  case (Suc n)
  from Suc.prems obtain pc1 where "unused_step False w pc = (w, pc1)" "pc1 \<in> {ULoad, ULoad2, ULoop w, UWaitWriting w}"
    using w by (auto simp: futex_blocks_def)
  with Suc show ?case by (auto simp: run_unused_unfold [of "Suc n"])
qed (auto simp: run_unused_unfold)

subsection \<open>Bytes taken by OpenSSL\<close>

lemma retrieve_conserves:
  assumes "retrieve n b = Inr b'"
  shows "take n (contents b) @ contents b' = contents b"
proof (cases "n < readableBytes b")
  case True
  with assms have "contents b' = drop n (contents b)"
    by (auto simp: retrieve_def buffer_defs drop_take add.commute)
  then show ?thesis by simp
next
  case False
  with assms have "b' = retrieveAll b" "n = readableBytes b"
    by (auto simp: retrieve_def assert_then_eq_Inr)
  then show ?thesis by (simp add: contents_def [of b])
qed

lemma flush_front_conserves:
  "ssl_flush_front ws b out = Inr (e, b', out', ws') \<Longrightarrow>
    out' @ contents b' = out @ contents b \<and> (e = None \<longrightarrow> readableBytes b' = 0)"
proof (induction ws arbitrary: b out)
  case Nil
  then show ?case by (auto simp: ssl_flush_front.simps split: if_splits)
next
  case (Cons w ws)
  show ?case
  proof (cases "readableBytes b = 0 \<or> (\<exists>r e'. w = SslWriteFailed r e')")
    case True
    with Cons.prems show ?thesis by (auto simp: ssl_flush_front.simps [of "w # ws"] split: if_splits)
  next
    case False
    then obtain n where w: "w = SslWrote n" by (cases w) auto
    with False Cons.prems obtain b1 where b1: "retrieve n b = Inr b1"
        "ssl_flush_front ws b1 (out @ take n (contents b)) = Inr (e, b', out', ws')"
      by (auto simp: ssl_flush_front.simps [of "SslWrote n # ws"] and_then_eq_Inr split: if_splits)
    from Cons.IH [OF b1(2)] retrieve_conserves [OF b1(1)] show ?thesis by simp
  qed
qed

lemma contents_0: "readableBytes b = 0 \<Longrightarrow> contents b = []"
  by (simp add: contents_def)

lemma log_outputBuffers: "(log_event e c)\<lparr>outputBuffers := bs\<rparr> = log_event e (c\<lparr>outputBuffers := bs\<rparr>)"
  by (cases c) (simp add: log_event_def)

subsection \<open>What every event keeps\<close>

text \<open>
  The handlers of a TLS connection are built from a few kinds of changes. A predicate that each of them
  keeps holds after any sequence of events.
\<close>

locale tls_invariant =
  fixes I :: "tls_conn \<Rightarrow> bool"
  assumes keep_net: "\<And>c p. I c \<Longrightarrow> I (c\<lparr>base := (base c)\<lparr>net := p\<rparr>\<rparr>)"
    and keep_input: "\<And>c b. I c \<Longrightarrow> I (c\<lparr>base := (base c)\<lparr>inputBuffer := b\<rparr>\<rparr>)"
    and keep_rdhup: "\<And>c r. I c \<Longrightarrow> I (c\<lparr>base := (base c)\<lparr>rdhup_phrase := r\<rparr>\<rparr>)"
    and keep_log: "\<And>c e. I c \<Longrightarrow> e \<noteq> CloseSeen \<Longrightarrow> I (c\<lparr>base := log_event e (base c)\<rparr>)"
    and keep_flush: "\<And>c out bs. I c \<Longrightarrow> out @ concat (map contents bs) = sent (base c) @ concat (map contents (outputBuffers (base c)))
      \<Longrightarrow> I (c\<lparr>base := (base c)\<lparr>sent := out, outputBuffers := bs\<rparr>\<rparr>)"
    and keep_unused: "\<And>c b. I c \<Longrightarrow> set_unused (base c) = Inr b \<Longrightarrow> I (c\<lparr>base := b\<rparr>)"
    and keep_hup: "\<And>c c'. I c \<Longrightarrow> ssl_handle_ep_hup c = Inr c' \<Longrightarrow> I c'"
begin

lemma keep_on_loop: "I c \<Longrightarrow> I (on_loop c)"
  by (simp add: on_loop_def keep_net)

lemma keep_with_net: "with_base (with_net f) c = Inr c' \<Longrightarrow> I c \<Longrightarrow> I c'"
  by (auto simp: with_base_def with_net_def and_then_eq_Inr keep_net)

lemma keep_message: "message_if n c = Inr c' \<Longrightarrow> I c \<Longrightarrow> I c'"
  using keep_log [OF keep_input]
  by (fastforce simp: message_if_def with_base_def call_message_def and_then_eq_Inr split: if_splits option.splits)

lemma keep_in:
  assumes "ssl_handle_ep_in rs c = Inr c'" and "I c"
  shows "I c'"
proof -
  obtain e n b where r: "ssl_read_all rs 0 (inputBuffer (base (on_loop c))) = Inr (e, n, b)"
    using assms(1) by (auto simp: ssl_handle_ep_in_def Let_def and_then_eq_Inr split: if_splits)
  have "I ((on_loop c)\<lparr>base := (base (on_loop c))\<lparr>inputBuffer := b\<rparr>\<rparr>)"
    using assms(2) by (simp add: keep_on_loop keep_input)
  with assms(1) r show ?thesis
    by (auto simp: ssl_handle_ep_in_def Let_def and_then_eq_Inr split: if_splits ssl_error.splits
        dest: keep_message keep_with_net keep_hup)
qed

text \<open>One buffer of the queue, as far as OpenSSL takes it.\<close>

lemma keep_front:
  assumes "ssl_flush_front ws b (sent (base c)) = Inr (e, b', out, ws')" and "I c"
    and "outputBuffers (base c) = b # bs"
  shows "I (c\<lparr>base := (base c)\<lparr>sent := out, outputBuffers := b' # bs\<rparr>\<rparr>)"
    and "e = None \<Longrightarrow> I (c\<lparr>base := (base c)\<lparr>sent := out, outputBuffers := bs\<rparr>\<rparr>)"
  using flush_front_conserves [OF assms(1)] assms(3) contents_0 [of b']
  by (auto intro!: keep_flush [OF assms(2)] simp flip: append_assoc)

definition keeps :: "(tcp_conn \<Rightarrow> tcp_conn outcome) \<Rightarrow> bool" where
  "keeps f \<longleftrightarrow> (\<forall>c b bs. I (c\<lparr>base := (base c)\<lparr>outputBuffers := bs\<rparr>\<rparr>) \<longrightarrow> f (base c) = Inr b
     \<longrightarrow> I (c\<lparr>base := b\<lparr>outputBuffers := bs\<rparr>\<rparr>))"

lemma keeps_complete: "keeps queue_complete" "keeps call_complete"
  using keep_log [of "c\<lparr>base := (base c)\<lparr>outputBuffers := bs\<rparr>\<rparr>" for c bs]
  by (auto simp: keeps_def queue_complete_def call_complete_def log_outputBuffers split: if_splits)

lemma keep_ssl_flush:
  assumes "keeps f"
  shows "ssl_flush f bs ws (base c) = Inr (e, b) \<Longrightarrow> I c \<Longrightarrow> outputBuffers (base c) = bs \<Longrightarrow> I (c\<lparr>base := b\<rparr>)"
proof (induction bs arbitrary: ws c)
  case Nil
  then show ?case by (cases c) auto
next
  case (Cons b1 bs)
  obtain e1 b' out as where f: "ssl_flush_front ws b1 (sent (base c)) = Inr (e1, b', out, as)"
    using Cons.prems(1) by (auto simp: and_then_eq_Inr)
  note front = keep_front [OF f Cons.prems(2,3)]
  let ?c = "c\<lparr>base := (base c)\<lparr>sent := out, outputBuffers := b' # bs\<rparr>\<rparr>"
  show ?case
  proof (cases e1)
    case None
    then obtain b2 where b2: "f (base ?c) = Inr b2" "ssl_flush f bs as (b2\<lparr>outputBuffers := bs\<rparr>) = Inr (e, b)"
      using Cons.prems(1) f by (auto simp: and_then_eq_Inr)
    have "I (?c\<lparr>base := (base ?c)\<lparr>outputBuffers := bs\<rparr>\<rparr>)" using front(2) None by simp
    with assms b2(1) have "I (?c\<lparr>base := b2\<lparr>outputBuffers := bs\<rparr>\<rparr>)" unfolding keeps_def by blast
    from Cons.IH [OF _ this] b2(2) show ?thesis by simp
  next
    case (Some e2)
    with Cons.prems(1) f front(1) show ?thesis by (auto simp: Let_def)
  qed
qed

lemma keep_out:
  assumes "ssl_handle_ep_out ws c = Inr c'" and "I c"
  shows "I c'"
proof (cases "outputBuffers (base (on_loop c)) = []")
  case True
  with assms show ?thesis
    by (auto simp: ssl_handle_ep_out_def Let_def dest: keep_with_net [OF _ keep_on_loop])
next
  case False
  with assms(1) obtain e b where
    f: "ssl_flush queue_complete (outputBuffers (base (on_loop c))) ws (base (on_loop c)) = Inr (e, b)"
    by (auto simp: ssl_handle_ep_out_def Let_def and_then_eq_Inr split: if_splits)
  have "I ((on_loop c)\<lparr>base := b\<rparr>)"
    using keep_ssl_flush [OF keeps_complete(1) f] assms(2) keep_on_loop by blast
  with assms(1) f False show ?thesis
    by (auto simp: ssl_handle_ep_out_def Let_def split: if_splits option.splits ssl_error.splits
        dest: keep_with_net keep_hup)
qed

lemma keep_finish:
  assumes "ssl_finish_in_out rs ws c = Inr (fin, c')" and "I c"
  shows "I c'"
proof -
  obtain e n b where r: "ssl_read_all rs 0 (inputBuffer (base (on_loop c))) = Inr (e, n, b)"
    using assms(1) by (auto simp: ssl_finish_in_out_def Let_def and_then_eq_Inr split: if_splits)
  let ?c = "(on_loop c)\<lparr>base := (base (on_loop c))\<lparr>inputBuffer := b\<rparr>\<rparr>"
  have I: "I ?c" using assms(2) by (simp add: keep_on_loop keep_input)
  show ?thesis
  proof (cases "e = ZeroReturn")
    case False
    with assms(1) r I show ?thesis
      by (auto simp: ssl_finish_in_out_def Let_def and_then_eq_Inr split: if_splits dest: keep_hup)
  next
    case True
    with assms(1) r obtain c1 where c1: "message_if n ?c = Inr c1"
      by (auto simp: ssl_finish_in_out_def Let_def and_then_eq_Inr split: if_splits)
    note I1 = keep_message [OF c1 I]
    show ?thesis
    proof (cases "outputBuffers (base c1) = []")
      case nil: True
      with True assms(1) r c1 I1 show ?thesis
        by (auto simp: ssl_finish_in_out_def Let_def split: if_splits)
    next
      case False
      with True assms(1) r c1 obtain e2 b2 where
        f: "ssl_flush call_complete (outputBuffers (base c1)) ws (base c1) = Inr (e2, b2)"
        by (auto simp: ssl_finish_in_out_def Let_def and_then_eq_Inr split: if_splits)
      have "I (c1\<lparr>base := b2\<rparr>)" using keep_ssl_flush [OF keeps_complete(2) f I1] by simp
      with False True assms(1) r c1 f show ?thesis
        by (auto simp: ssl_finish_in_out_def Let_def and_then_eq_Inr
            split: if_splits option.splits ssl_error.splits dest: keep_with_net keep_hup)
    qed
  qed
qed

lemma keep_do: "tls_do c i = Inr c' \<Longrightarrow> I c \<Longrightarrow> I c'"
  by (cases i)
    (auto simp: ssl_handle_ep_rdhup_def ssl_handle_ep_err_def ssl_forceCloseInLoop_def with_base_def and_then_eq_Inr
      split: if_splits dest: keep_in keep_out keep_finish keep_hup intro: keep_rdhup keep_hup [OF keep_unused [OF keep_on_loop]] keep_hup [OF keep_finish])

lemma keep_run: "put_list tls_do evs c = Inr c' \<Longrightarrow> I c \<Longrightarrow> I c'"
  by (induction evs arbitrary: c) (auto simp: and_then_eq_Inr dest: keep_do)

end

subsection \<open>The life of the SSL object\<close>

text \<open>The object is there and not freed until the connection is disconnected; then it was freed once, and the
  close callback ran once.\<close>

definition tls_life :: "tls_conn \<Rightarrow> bool" where
  "tls_life c \<longleftrightarrow> closed_once (base c) \<and> ssl_set c = (\<not> has_flag (state_word (base c)) Disconnected)
     \<and> ssl_freed c = (if ssl_set c then 0 else 1)"

lemma hup_base_eq:
  assumes "hup_base c = Inr c'"
  shows "\<exists>p. c' = c\<lparr>net := p, socket_fd := -1, conn_log := conn_log c @ [CloseSeen], state_word := Disconnected\<rparr>"
proof -
  obtain c1 where c1: "set_unused c = Inr c1" using assms by (auto simp: hup_base_def and_then_eq_Inr)
  obtain w where "c1 = c\<lparr>state_word := w\<rparr>" using set_unused_eq [OF c1] by blast
  with assms c1 show ?thesis
    by (auto simp: hup_base_def and_then_eq_Inr with_net_def socket_close_def log_event_def Let_def
        split: if_splits)
qed

lemma ssl_hup_fields:
  "ssl_handle_ep_hup c = Inr c' \<Longrightarrow> \<not> has_flag (state_word (base c)) Disconnected \<Longrightarrow>
    \<not> ssl_set c' \<and> outputBuffers (base c') = outputBuffers (base c)"
  by (auto simp: ssl_handle_ep_hup_def Let_def on_loop_def with_base_def ssl_close_def and_then_eq_Inr
      split: if_splits dest!: hup_base_eq)

lemma tls_life_hup: "tls_life c \<Longrightarrow> ssl_handle_ep_hup c = Inr c' \<Longrightarrow> tls_life c'"
  by (auto simp: ssl_handle_ep_hup_def Let_def on_loop_def with_base_def ssl_close_def tls_life_def
      closed_once_def count_list_snoc and_then_eq_Inr has_flag_def flag_simps
      split: if_splits dest!: hup_base_eq)

lemma tls_life_frame:
  "tls_life (c\<lparr>base := (base c)\<lparr>net := p\<rparr>\<rparr>) = tls_life c"
  "tls_life (c\<lparr>base := (base c)\<lparr>inputBuffer := b\<rparr>\<rparr>) = tls_life c"
  "tls_life (c\<lparr>base := (base c)\<lparr>rdhup_phrase := r\<rparr>\<rparr>) = tls_life c"
  "tls_life (c\<lparr>base := (base c)\<lparr>sent := out, outputBuffers := bs\<rparr>\<rparr>) = tls_life c"
  "e \<noteq> CloseSeen \<Longrightarrow> tls_life (c\<lparr>base := log_event e (base c)\<rparr>) = tls_life c"
  by (simp_all add: tls_life_def closed_once_log) (simp add: log_event_def)

interpretation life: tls_invariant tls_life
proof
  fix c b assume "tls_life c" "set_unused (base c) = Inr b"
  then show "tls_life (c\<lparr>base := b\<rparr>)"
    using set_unused_eq [of "base c" b] by (auto simp: tls_life_def closed_once_def)
qed (simp_all add: tls_life_frame tls_life_hup)

text \<open>The bytes OpenSSL took and the bytes still queued, in the order they are to leave.\<close>

definition out_bytes :: "tls_conn \<Rightarrow> byte list" where
  "out_bytes c = sent (base c) @ concat (map contents (outputBuffers (base c)))"

lemma out_bytes_hup: "ssl_handle_ep_hup c = Inr c' \<Longrightarrow> out_bytes c' = out_bytes c"
  by (auto simp: ssl_handle_ep_hup_def Let_def on_loop_def with_base_def ssl_close_def out_bytes_def
      and_then_eq_Inr split: if_splits dest!: hup_base_eq)

interpretation bytes: tls_invariant "\<lambda>c. out_bytes c = x"
proof
  fix c b assume "out_bytes c = x" "set_unused (base c) = Inr b"
  then show "out_bytes (c\<lparr>base := b\<rparr>) = x"
    using set_unused_eq [of "base c" b] by (auto simp: out_bytes_def)
qed (simp_all add: out_bytes_hup, simp_all add: out_bytes_def log_event_def)

subsection \<open>Hang-up of an idle connection\<close>

text \<open>An established connection whose word counts no send.\<close>

definition tls_ok :: "tls_conn \<Rightarrow> bool" where
  "tls_ok c \<longleftrightarrow> conn_ok (base c) \<and> state_word (base c) = Connected OR used \<and> ssl_set c"

lemma tls_ok_on_loop: "tls_ok (on_loop c) = tls_ok c"
  by (simp add: tls_ok_def on_loop_def)

lemma disable_all_ok:
  assumes "conn_ok c"
  obtains p where "DisableAll (conn_channel c) (net c) = Inr p" "wf_poller p"
proof -
  obtain ch where ch: "heap (net c) (conn_channel c) = Some ch"
    and wf: "wf_poller (net c)" and fd: "m_channels (net c) (socket_fd c) = Some (conn_channel c)"
    using assms by (auto simp: conn_ok_def)
  have "ch_fd ch = socket_fd c" using wf_pollerD(1) [OF wf fd ch] .
  then show thesis
    using update_listen_wf [OF wf fd ch, of "ch\<lparr>listen_events := 0\<rparr>"] ch that by (auto simp: DisableAll_def)
qed

lemma ssl_hup_ok:
  assumes "tls_ok c"
  obtains p where "ssl_handle_ep_hup c = Inr (c\<lparr>base := (base c)\<lparr>net := p, socket_fd := -1, state_word := Disconnected,
      conn_log := conn_log (base c) @ [CloseSeen]\<rparr>, ssl_set := False, ssl_freed := ssl_freed c + 1\<rparr>)"
    "interest (syscalls p) (socket_fd (base c)) = None"
proof -
  have ok: "conn_ok ((base c)\<lparr>net := assertInLoopThread (net (base c))\<rparr>)"
    and st: "state_word (base c) = Connected OR used" "ssl_set c" "closeCallback (base c)"
    using assms by (auto simp: tls_ok_def conn_ok_def)
  have up: "\<not> has_flag (Connected OR used) Disconnected" by (simp add: has_flag_def flag_simps)
  obtain p where p: "DisableAll (conn_channel (base c)) (assertInLoopThread (net (base c))) = Inr p" "wf_poller p"
    using disable_all_ok [OF ok] by auto
  show thesis
    by (rule that [of "sys (CloseFd (socket_fd (base c))) p"])
      (simp_all add: ssl_handle_ep_hup_def on_loop_def Let_def st up with_base_def ssl_close_def hup_base_def
        set_unused_idle with_net_def p(1) socket_close_def log_event_def)
qed

subsection \<open>Reading\<close>

lemma ssl_read_data:
  assumes "wf_buffer b" and "\<And>bs. bs \<in> set bss \<Longrightarrow> bs \<noteq> [] \<and> length bs \<le> 65536"
  shows "\<exists>b'. wf_buffer b' \<and> contents b' = contents b @ concat bss
    \<and> ssl_read_all (map SslRead bss @ [SslReadFailed e]) n b = Inr (e, n + length (concat bss), b')"
  using assms
proof (induction bss arbitrary: b n)
  case Nil
  obtain b1 where "ensureWritableBytes 65536 b = Inr b1" "wf_buffer b1" "contents b1 = contents b"
    using ensureWritableBytes_ok [OF Nil.prems(1)] by metis
  then show ?case by simp
next
  case (Cons bs bss)
  obtain b1 where b1: "ensureWritableBytes 65536 b = Inr b1" "wf_buffer b1" "contents b1 = contents b"
      "65536 \<le> writableBytes b1"
    using ensureWritableBytes_ok [OF Cons.prems(1)] by metis
  have bs: "bs \<noteq> []" "length bs \<le> writableBytes b1" using Cons.prems(2) [of bs] b1(4) by auto
  let ?b = "b1\<lparr>buf := overwrite (buf b1) (write_idx b1) bs, write_idx := write_idx b1 + length bs\<rparr>"
  have "hasWritten (length bs) (b1\<lparr>buf := overwrite (buf b1) (writeBegin b1) bs\<rparr>) = Inr ?b"
    using bs(2) writable_room [OF b1(2), of "length bs"]
    by (simp add: hasWritten_def writableBytes_def writeBegin_def)
  then have "ssl_read_all (map SslRead (bs # bss) @ [SslReadFailed e]) n b
      = ssl_read_all (map SslRead bss @ [SslReadFailed e]) (n + length bs) ?b"
    using b1(1) bs by simp
  moreover obtain b' where "wf_buffer b'" "contents b' = contents ?b @ concat bss"
      "ssl_read_all (map SslRead bss @ [SslReadFailed e]) (n + length bs) ?b
        = Inr (e, n + length bs + length (concat bss), b')"
    using Cons.IH [OF contents_written(1) [OF b1(2) bs(2)], of "n + length bs"] Cons.prems(2) by auto
  moreover have "contents ?b = contents b @ bs" using contents_written(2) [OF b1(2) bs(2)] b1(3) by simp
  ultimately show ?case by (intro exI [of _ b']) simp
qed

subsection \<open>Writing\<close>

lemma flush_front_whole:
  assumes "wf_buffer b" and "sum_list ns = readableBytes b" and "0 \<notin> set ns"
  shows "\<exists>b'. ssl_flush_front (map SslWrote ns @ ws) b out = Inr (None, b', out @ contents b, ws)"
  using assms
proof (induction ns arbitrary: b out)
  case Nil
  then show ?case by (simp add: ssl_flush_front.simps contents_0)
next
  case (Cons n ns)
  then have n: "0 < n" "n \<le> readableBytes b" by auto
  obtain b1 where b1: "retrieve n b = Inr b1" "wf_buffer b1" "contents b1 = drop n (contents b)"
    using retrieve_ok [OF Cons.prems(1) n(2)] by metis
  have "readableBytes b1 = readableBytes b - n"
    using length_contents [OF b1(2)] b1(3) Cons.prems(1) by simp
  then have "sum_list ns = readableBytes b1" using Cons.prems(2) by simp
  then obtain b' where "ssl_flush_front (map SslWrote ns @ ws) b1 (out @ take n (contents b))
      = Inr (None, b', (out @ take n (contents b)) @ contents b1, ws)"
    using Cons.IH [OF b1(2), of "out @ take n (contents b)"] Cons.prems(3) by auto
  with n b1 show ?case by (simp add: ssl_flush_front.simps [of "SslWrote n # _"])
qed

text \<open>How OpenSSL may divide the buffers of a queue into writes.\<close>

definition chunks_ok :: "buffer list \<Rightarrow> nat list list \<Rightarrow> bool" where
  "chunks_ok bs nss \<longleftrightarrow> list_all2 (\<lambda>b ns. wf_buffer b \<and> sum_list ns = readableBytes b \<and> 0 \<notin> set ns) bs nss"

lemma ssl_flush_whole:
  assumes "chunks_ok bs nss"
  shows "\<exists>c'. ssl_flush queue_complete bs (concat (map (map SslWrote) nss)) c = Inr (None, c')
    \<and> sent c' = sent c @ concat (map contents bs) \<and> (outputBuffers c = bs \<longrightarrow> outputBuffers c' = [])
    \<and> conn_log c' = conn_log c @ (if writeCompleteCallback c then replicate (length bs) WriteCompleteQueued else [])
    \<and> state_word c' = state_word c \<and> rdhup_phrase c' = rdhup_phrase c"
  using assms
proof (induction bs arbitrary: nss c)
  case Nil
  then show ?case by (simp add: chunks_ok_def)
next
  case (Cons b bs)
  then obtain ns nss' where nss: "nss = ns # nss'" "wf_buffer b" "sum_list ns = readableBytes b" "0 \<notin> set ns"
      "chunks_ok bs nss'"
    by (auto simp: chunks_ok_def list_all2_Cons1)
  obtain b' where "ssl_flush_front (map SslWrote ns @ concat (map (map SslWrote) nss')) b (sent c)
      = Inr (None, b', sent c @ contents b, concat (map (map SslWrote) nss'))"
    using flush_front_whole [OF nss(2-4)] by blast
  moreover let ?c1 = "c\<lparr>sent := sent c @ contents b, outputBuffers := b' # bs\<rparr>"
  let ?c2 = "(if writeCompleteCallback c then log_event WriteCompleteQueued ?c1 else ?c1)\<lparr>outputBuffers := bs\<rparr>"
  obtain c' where c': "ssl_flush queue_complete bs (concat (map (map SslWrote) nss')) ?c2 = Inr (None, c')"
      "sent c' = sent ?c2 @ concat (map contents bs)" "outputBuffers c' = []"
      "conn_log c' = conn_log ?c2 @ (if writeCompleteCallback ?c2 then replicate (length bs) WriteCompleteQueued else [])"
      "state_word c' = state_word ?c2" "rdhup_phrase c' = rdhup_phrase ?c2"
    using Cons.IH [OF nss(5), of ?c2] by auto
  moreover have "sent ?c2 = sent c @ contents b" "state_word ?c2 = state_word c" "rdhup_phrase ?c2 = rdhup_phrase c"
      "writeCompleteCallback ?c2 = writeCompleteCallback c"
      "conn_log ?c2 = conn_log c @ (if writeCompleteCallback c then [WriteCompleteQueued] else [])"
    by (simp_all add: log_event_def)
  ultimately show ?case
    by (intro exI [of _ c'], cases "writeCompleteCallback c") (simp_all add: nss(1) queue_complete_def [of ?c1])
qed

subsection \<open>Properties\<close>

text \<open>C8: No event loses, repeats or reorders output. Whatever events the loop delivers and whatever
  \<^verbatim>\<open>SSL_read\<close> and \<^verbatim>\<open>SSL_write\<close> answer, if the handlers return, the bytes handed to OpenSSL followed by
  the bytes still queued are the same as before.\<close>

theorem tls_output_conserved:
  assumes "put_list tls_do evs c = Inr c'"
  shows "sent (base c') @ concat (map contents (outputBuffers (base c')))
    = sent (base c) @ concat (map contents (outputBuffers (base c)))"
  using bytes.keep_run [OF assms] by (simp add: out_bytes_def)

text \<open>C10: The SSL object and the close callback. Starting from a connection that is not disconnected and
  holds its SSL object, after any events that return the object was freed and the close callback ran
  exactly once if the connection is disconnected, and neither happened otherwise; the pointer is null
  exactly when the object was freed.\<close>

theorem tls_freed_once:
  assumes "put_list tls_do evs c = Inr c'" and "\<not> has_flag (state_word (base c)) Disconnected"
    and "ssl_set c" and "ssl_freed c = 0" and "CloseSeen \<notin> set (conn_log (base c))"
  shows "ssl_freed c' = (if disconnected (base c') then 1 else 0)
    \<and> count_list (conn_log (base c')) CloseSeen = ssl_freed c' \<and> ssl_set c' = (ssl_freed c' = 0)"
proof -
  have "tls_life c" using assms(2-5) by (simp add: tls_life_def closed_once_def count_list_0_iff)
  from life.keep_run [OF assms(1) this] show ?thesis
    by (auto simp: tls_life_def closed_once_def disconnected_def)
qed



text \<open>C38: A hang-up while a send is under way stops the event loop. When the state word counts a send,
  for instance one of another thread that is still in the loop's queue, \<^verbatim>\<open>handle_ep_hup\<close> waits in
  \<^verbatim>\<open>set_unused\<close> for the word to change, which only the loop thread itself could do: no number of steps
  ends the wait.\<close>

theorem tls_hup_waits_for_itself:
  assumes "has_flag (state_word (base c)) used" and "has_flag (state_word (base c)) writing"
    and "\<not> has_flag (state_word (base c)) Connecting" and "\<not> has_flag (state_word (base c)) Disconnected"
  shows "ssl_handle_ep_hup c = Inl NoReturn \<and> (\<forall>n. run_unused n (state_word (base c)) ULoad = None)"
proof -
  have "run_unused n (state_word (base c)) ULoad = None" for n
    using run_unused_writing [OF assms(1-3)] by blast
  with assms(4) show ?thesis
    by (simp add: ssl_handle_ep_hup_def on_loop_def Let_def with_base_def ssl_close_def hup_base_def set_unused_def)
qed

text \<open>C23: Sending over TLS from the loop thread on an idle connection. OpenSSL, which by default accepts a
  message whole or not at all, either takes it: its bytes go out once, the write-complete callback is
  queued if there is one and the state word is as before; or it is not ready and returns a negative
  value, which the code adds to the address of the message: the copy it queues starts before the message.\<close>

theorem tls_send_whole_or_out_of_bounds:
  assumes "ready_to_send (base c)" and "ssl_set c" and "msg \<noteq> []"
  shows "(\<exists>c'. ssl_send [SslWrote (length msg)] msg c = Inr c' \<and> sent (base c') = sent (base c) @ msg
      \<and> state_word (base c') = state_word (base c) \<and> outputBuffers (base c') = []
      \<and> conn_log (base c') = conn_log (base c) @ (if writeCompleteCallback (base c) then [WriteCompleteQueued] else []))
    \<and> (\<forall>r < 0. ssl_send [SslWriteFailed r WantWrite] msg c = Inl OutOfBounds)"
proof -
  obtain ch where ch: "heap (net (base c)) (conn_channel (base c)) = Some ch" "\<not> isWriting ch"
    and st: "isInLoopThread (net (base c))" "state_word (base c) = Connected OR used" "outputBuffers (base c) = []"
    using assms(1) by (auto simp: ready_to_send_def)
  have send: "ssl_send ws msg c =
      and_then (ssl_write_direct ws msg (length msg) 0 ((base c)\<lparr>state_word := pack 1\<rparr>)) (\<lambda>(fault, remaining, nwrote, b).
      and_then (if \<not> fault \<and> remaining > 0 then ssl_store_rest msg remaining nwrote b else Inr b) (\<lambda>b.
      Inr (c\<lparr>base := b\<lparr>state_word := finish_send 3 (state_word b) (LData (pack 1))\<rparr>\<rparr>)))" for ws
    using ch st assms(2,3) gate_free
    by (simp add: ssl_send_def ssl_sendInLoop_def on_loop_def Let_def assertInLoopThread_def)
  have "ssl_send [SslWriteFailed r WantWrite] msg c = Inl OutOfBounds" if "r < 0" for r
    using that assms(3) by (simp add: send ssl_write_direct.simps ssl_store_rest_def Let_def)
  moreover have "\<exists>c'. ssl_send [SslWrote (length msg)] msg c = Inr c' \<and> sent (base c') = sent (base c) @ msg
      \<and> state_word (base c') = state_word (base c) \<and> outputBuffers (base c') = []
      \<and> conn_log (base c') = conn_log (base c) @ (if writeCompleteCallback (base c) then [WriteCompleteQueued] else [])"
    using assms(3) st(2,3) finish_free
    by (simp add: send ssl_write_direct.simps [of "SslWrote _ # _"] ssl_write_direct.simps [of _ _ 0] Let_def log_event_def)
  ultimately show ?thesis by blast
qed

text \<open>A close by the peer with output pending and no write-complete callback: the loop that writes the
  rest never ends, even though OpenSSL takes everything.\<close>

lemma tls_finish_spins:
  assumes "ssl_set c" and "wf_buffer (inputBuffer (base c))" and "outputBuffers (base c) = b # bs"
    and "chunks_ok [b] [ns]" and "\<not> writeCompleteCallback (base c)"
  shows "ssl_finish_in_out [SslReadFailed ZeroReturn] (map SslWrote ns) c = Inl NoReturn"
proof -
  obtain b1 where "ensureWritableBytes 65536 (inputBuffer (base c)) = Inr b1"
    using ensureWritableBytes_ok [OF assms(2)] by metis
  moreover obtain b' where "ssl_flush_front (map SslWrote ns) b (sent (base c)) = Inr (None, b', sent (base c) @ contents b, [])"
    using flush_front_whole [of b ns "[]"] assms(4) by (auto simp: chunks_ok_def)
  ultimately show ?thesis
    using assms(1,3,5) by (simp add: ssl_finish_in_out_def Let_def on_loop_def message_if_def call_complete_def)
qed

text \<open>A readable and a writable event of one round, as \<^verbatim>\<open>Channel::HandleEvent\<close> delivers them: the hang-up
  leaves the callbacks in place, and the second handler uses the null pointer.\<close>

lemma tls_use_after_close:
  assumes "tls_ok c" and "outputBuffers (base c) \<noteq> []"
  shows "put_list tls_do [TlsIn [SslReadFailed ZeroReturn], TlsOut ws] c = Inl BadPointer"
proof -
  have c: "tls_ok (on_loop c)" "ssl_set c" "wf_buffer (inputBuffer (base c))"
    using assms(1) by (auto simp: tls_ok_on_loop) (auto simp: tls_ok_def conn_ok_def)
  obtain b1 where b1: "ensureWritableBytes 65536 (inputBuffer (base c)) = Inr b1" "wf_buffer b1"
    using ensureWritableBytes_ok [OF c(3)] by metis
  let ?c = "(on_loop c)\<lparr>base := (base (on_loop c))\<lparr>inputBuffer := b1\<rparr>\<rparr>"
  have "tls_ok ?c" using c(1) b1(2) by (simp add: tls_ok_def conn_ok_def)
  then obtain c1 where c1: "ssl_handle_ep_hup ?c = Inr c1" by (rule ssl_hup_ok)
  have "\<not> has_flag (state_word (base ?c)) Disconnected"
    using \<open>tls_ok ?c\<close> by (simp add: tls_ok_def has_flag_def flag_simps)
  from ssl_hup_fields [OF c1 this] assms(2) c1
  have "ssl_handle_ep_hup ?c = Inr c1" "\<not> ssl_set c1" "outputBuffers (base c1) \<noteq> []"
    by (simp_all add: on_loop_def)
  then show ?thesis
    using c(2) b1(1) by (simp add: ssl_handle_ep_in_def ssl_handle_ep_out_def Let_def on_loop_def message_if_def)
qed

subsection \<open>Witnesses\<close>

definition demo_tls :: tls_conn where
  "demo_tls = \<lparr>base = demo_conn, ssl_set = True, ssl_freed = 0\<rparr>"

lemma demo_tls_ok: "tls_ok demo_tls"
  using demo_conn_ok(1) by (simp add: tls_ok_def demo_tls_def) (simp add: demo_conn_def)

definition demo_out :: tls_conn where
  "demo_out = demo_tls\<lparr>base := demo_conn\<lparr>rdhup_phrase := Some False,
     outputBuffers := [\<lparr>buf = [8, 9, 7], read_idx = 0, write_idx = 3\<rparr>, \<lparr>buf = [5], read_idx = 0, write_idx = 1\<rparr>]\<rparr>\<rparr>"

lemma demo_out_chunks: "chunks_ok (outputBuffers (base demo_out)) [[1, 2], [1]]"
  by (simp add: chunks_ok_def demo_out_def buffer_defs)

lemma demo_out_fields: "ssl_set demo_out" "outputBuffers (base demo_out) \<noteq> []"
  "rdhup_phrase (base demo_out) = Some False" "sent (base demo_out) = []"
  "concat (map contents (outputBuffers (base demo_out))) = [8, 9, 7, 5]"
  by (simp_all add: demo_out_def demo_tls_def demo_conn_def buffer_defs)


theorem tls_output_conserved_witness:
  "\<exists>c'. put_list tls_do [TlsOut [SslWrote 2, SslWriteFailed (-1) WantWrite]] demo_out = Inr c'
    \<and> sent (base c') @ concat (map contents (outputBuffers (base c'))) = [8, 9, 7, 5]"
proof -
  have "on_loop demo_out = demo_out"
    by (simp add: demo_out_def demo_tls_def demo_conn_def demo_net_def Epoller_def on_loop_def
        assertInLoopThread_def isInLoopThread_def)
  then obtain c' where "put_list tls_do [TlsOut [SslWrote 2, SslWriteFailed (-1) WantWrite]] demo_out = Inr c'"
    by (simp add: ssl_handle_ep_out_def Let_def)
      (simp add: demo_out_def demo_tls_def demo_conn_def ssl_flush_front.simps retrieve_def readableBytes_def)
  then show ?thesis
    using tls_output_conserved [of "[TlsOut [SslWrote 2, SslWriteFailed (-1) WantWrite]]" demo_out c'] demo_out_fields(4,5)
    by simp
qed

theorem tls_freed_once_witness:
  "\<exists>c'. put_list tls_do [TlsErr 104, TlsHup] demo_tls = Inr c' \<and> ssl_freed c' = 1"
proof -
  have up: "\<not> has_flag (state_word (base demo_tls)) Disconnected" "ssl_set demo_tls" "ssl_freed demo_tls = 0"
      "CloseSeen \<notin> set (conn_log (base demo_tls))"
    by (simp_all add: demo_tls_def demo_conn_def has_flag_def flag_simps)
  obtain c1 where c1: "ssl_handle_ep_hup demo_tls = Inr c1" using ssl_hup_ok [OF demo_tls_ok] by blast
  have "disconnected (base c1)"
    using c1 up(1) by (auto simp: ssl_handle_ep_hup_def Let_def on_loop_def with_base_def and_then_eq_Inr disconnected_def
        has_flag_def flag_simps dest!: hup_base_eq split: if_splits)
  then obtain c' where c': "put_list tls_do [TlsErr 104, TlsHup] demo_tls = Inr c'" "disconnected (base c')"
    using c1 by (simp add: ssl_handle_ep_err_def ssl_handle_ep_hup_def [of c1] Let_def on_loop_def disconnected_def)
  from tls_freed_once [OF c'(1) up] c' show ?thesis by auto
qed


theorem tls_hup_waits_for_itself_witness:
  "ssl_handle_ep_hup (demo_tls\<lparr>base := demo_conn\<lparr>state_word := pack 1\<rparr>\<rparr>) = Inl NoReturn"
  using tls_hup_waits_for_itself [of "demo_tls\<lparr>base := demo_conn\<lparr>state_word := pack 1\<rparr>\<rparr>"] pack_flags [of 1]
  by simp

theorem tls_send_whole_or_out_of_bounds_witness:
  "(\<exists>c'. ssl_send [SslWrote (length [1, 2, 3 :: byte])] [1, 2, 3] demo_tls = Inr c' \<and> sent (base c') = [1, 2, 3])
    \<and> ssl_send [SslWriteFailed (-1) WantWrite] [1, 2, 3] demo_tls = Inl OutOfBounds"
proof -
  have c: "ready_to_send (base demo_tls)" "ssl_set demo_tls" "sent (base demo_tls) = []"
    using demo_conn_ok(2) by (simp_all add: demo_tls_def) (simp add: demo_conn_def)
  from tls_send_whole_or_out_of_bounds [OF c(1,2), of "[1, 2, 3]"] c(3) show ?thesis by auto
qed

end
