(* ===== verification/Https_Client.thy ===== *)
theory Https_Client
  imports Http_Util Byte_Buffer
begin

text \<open>
  The HTTPS client: \<^verbatim>\<open>src/src/https/https_client.{h,cpp}\<close>. It assembles requests in buffers, keeps one
  \<^verbatim>\<open>TcpClient\<close> per URL, and hands what arrives to the \<^verbatim>\<open>llhttp\<close> parser, whose callbacks collect the
  response. \<^verbatim>\<open>llhttp\<close> is outside the repository: \<open>llhttp\<close> holds its initial state and its execution, which
  gives the callbacks it makes, in order, with their arguments, the error code and the next state. The
  TCP client is what this class uses of it; see \<open>Tcp_Client\<close>. Calls to the outside are recorded in
  \<open>http_log\<close>. A character of a string is a byte of a buffer.
\<close>

subsection \<open>State\<close>

record http_response =
  status_code :: int
  headers :: "string \<Rightarrow> string option"
  body :: string

datatype parse_event =
    OnStatus int
  | OnHeaderField string
  | OnHeaderValue string
  | OnHeadersComplete
  | OnBody string
  | OnMessageComplete

record 'p llhttp =
  llhttp_init :: 'p
  llhttp_execute :: "'p \<Rightarrow> byte list \<Rightarrow> parse_event list \<times> int \<times> 'p"

definition HPE_OK :: int where "HPE_OK = 0"
definition HPE_PAUSED :: int where "HPE_PAUSED = 21"

datatype http_event =
    ErrorCalled string
  | ResponseCalled http_response
  | ConnectCalled string
  | RequestSent string "byte list"
  | ShutdownCalled string
  | ForceCloseCalled string

record client_entry =
  ce_ip :: string
  ce_port :: u16
  ce_keep_alive :: bool
  ce_connect :: bool

record 'p http_client =
  parser :: 'p
  response :: http_response
  headers_complete :: bool
  msg_complete :: bool
  cur_header_field :: string
  cur_header_val :: string
  resp_cb_set :: bool
  err_cb_set :: bool
  clients :: "string \<Rightarrow> client_entry option"
  request_bufs :: "buffer list"
  http_log :: "http_event list"

definition http_emit :: "http_event \<Rightarrow> 'p http_client \<Rightarrow> 'p http_client" where
  "http_emit e c = c\<lparr>http_log := http_log c @ [e]\<rparr>"

definition no_response :: http_response where
  "no_response = \<lparr>status_code = 0, headers = (\<lambda>_. None), body = []\<rparr>"

text \<open>
  \<^verbatim>\<open>resetParser\<close> clears the response with \<^verbatim>\<open>memset\<close>. The language does not say what string and what map zero
  bytes are; they are the argument \<open>z\<close>, and theorems that need them to be empty say so.
\<close>

definition resetParser :: "'p llhttp \<Rightarrow> http_response \<Rightarrow> 'p http_client \<Rightarrow> 'p http_client" where
  "resetParser ll z c = c\<lparr>parser := llhttp_init ll, headers_complete := False, msg_complete := False,
     response := z\<lparr>status_code := 0\<rparr>, cur_header_field := [], cur_header_val := []\<rparr>"

definition http_client_ctor :: "'p llhttp \<Rightarrow> 'p http_client" where
  "http_client_ctor ll = \<lparr>parser = llhttp_init ll, response = no_response, headers_complete = False,
     msg_complete = False, cur_header_field = [], cur_header_val = [], resp_cb_set = False,
     err_cb_set = False, clients = (\<lambda>_. None), request_bufs = [], http_log = []\<rparr>"

subsection \<open>Callbacks of the parser\<close>

definition on_status :: "int \<Rightarrow> 'p http_client \<Rightarrow> 'p http_client" where
  "on_status code c = c\<lparr>response := (response c)\<lparr>status_code := code\<rparr>\<rparr>"

text \<open>The function works on copies \<open>f\<close> and \<open>v\<close> of the two members; only the map is changed.\<close>

definition on_header_field :: "string \<Rightarrow> 'p http_client \<Rightarrow> 'p http_client" where
  "on_header_field at_text c =
    (let f = cur_header_field c; v = cur_header_val c in
     if f \<noteq> [] \<and> v \<noteq> []
     then c\<lparr>response := (response c)\<lparr>headers := (headers (response c))(f \<mapsto> v)\<rparr>\<rparr>
     else c)"

definition on_hader_val :: "string \<Rightarrow> 'p http_client \<Rightarrow> 'p http_client" where
  "on_hader_val at_text c = c\<lparr>cur_header_val := cur_header_val c @ at_text\<rparr>"

definition on_body :: "string \<Rightarrow> 'p http_client \<Rightarrow> 'p http_client" where
  "on_body at_text c = c\<lparr>response := (response c)\<lparr>body := body (response c) @ at_text\<rparr>\<rparr>"

definition on_header_complete :: "'p http_client \<Rightarrow> 'p http_client" where
  "on_header_complete c =
    (let f = cur_header_field c;
         c = (if f \<noteq> [] then c\<lparr>response := (response c)\<lparr>headers := (headers (response c))(f \<mapsto> cur_header_val c)\<rparr>\<rparr>
              else c)
     in c\<lparr>headers_complete := True\<rparr>)"

definition on_msg_complete :: "'p http_client \<Rightarrow> 'p http_client" where
  "on_msg_complete c = c\<lparr>msg_complete := True\<rparr>"

fun parser_callback :: "parse_event \<Rightarrow> 'p http_client \<Rightarrow> 'p http_client" where
  "parser_callback (OnStatus code) c = on_status code c"
| "parser_callback (OnHeaderField t) c = on_header_field t c"
| "parser_callback (OnHeaderValue t) c = on_hader_val t c"
| "parser_callback OnHeadersComplete c = on_header_complete c"
| "parser_callback (OnBody t) c = on_body t c"
| "parser_callback OnMessageComplete c = on_msg_complete c"

subsection \<open>Requests\<close>

definition bytes_of :: "string \<Rightarrow> byte list" where
  "bytes_of s = map of_char s"

definition header_pieces :: "(string \<times> string) list \<Rightarrow> string list" where
  "header_pieces hs = concat (map (\<lambda>(k, v). [k, '': '', v, crlf]) hs)"

definition connection_piece :: "bool \<Rightarrow> string" where
  "connection_piece keep_alive = (if keep_alive then ''keep-alive'' @ crlf else ''close'' @ crlf)"

definition get_pieces :: "url_parts \<Rightarrow> (string \<times> string) list \<Rightarrow> bool \<Rightarrow> string list" where
  "get_pieces u hs keep_alive =
     [''GET '', path u, '' HTTP/1.1'' @ crlf, ''Host: '', host u, crlf,
      ''Connection: '', connection_piece keep_alive] @ header_pieces hs @ [crlf]"

definition post_pieces :: "url_parts \<Rightarrow> (string \<times> string) list \<Rightarrow> string \<Rightarrow> bool \<Rightarrow> string list" where
  "post_pieces u hs bdy keep_alive =
     [''POST '', path u, '' HTTP/1.1'' @ crlf, ''Host: '', host u, crlf,
      ''Connection: '', connection_piece keep_alive,
      ''Content-Length: '', dec_digits (length bdy), crlf] @ header_pieces hs @ [crlf, bdy]"

text \<open>The client of a URL is made at its first request and connected unless it was before.\<close>

definition open_client :: "(string \<Rightarrow> string) \<Rightarrow> string \<Rightarrow> url_parts \<Rightarrow> bool \<Rightarrow> 'p http_client \<Rightarrow> 'p http_client" where
  "open_client resolve url u keep_alive c =
    (let e = (case clients c url of Some e \<Rightarrow> e
              | None \<Rightarrow> \<lparr>ce_ip = resolve (cstr (host u)), ce_port = port u, ce_keep_alive = keep_alive, ce_connect = False\<rparr>)
     in if ce_connect e then c\<lparr>clients := (clients c)(url \<mapsto> e)\<rparr>
        else http_emit (ConnectCalled url) (c\<lparr>clients := (clients c)(url \<mapsto> e\<lparr>ce_connect := True\<rparr>)\<rparr>))"

text \<open>\<^verbatim>\<open>http_client::parse_url_https\<close>, a second function beside that of \<^verbatim>\<open>http_util\<close>.\<close>

definition client_parse_url_https :: "string \<Rightarrow> url_parts \<Rightarrow> (bool \<times> url_parts) outcome" where
  "client_parse_url_https url u =
    (let start = cstr url in
     if take 8 start \<noteq> ''https://'' then Inr (False, u)
     else
       let hostStart = drop 8 start;
           (hostPort, u) =
             (if CHR ''/'' \<in> set hostStart
              then (takeWhile (\<lambda>c. c \<noteq> CHR ''/'') hostStart, u\<lparr>path := dropWhile (\<lambda>c. c \<noteq> CHR ''/'') hostStart\<rparr>)
              else (hostStart, u\<lparr>path := ''/''\<rparr>));
           colon = length (takeWhile (\<lambda>c. c \<noteq> CHR '':'') hostPort)
       in if colon \<noteq> length hostPort then
            let u = u\<lparr>host := take colon hostPort\<rparr>
            in and_then (stoi (drop (colon + 1) hostPort)) (\<lambda>p. Inr (True, u\<lparr>port := word_of_int p\<rparr>))
          else Inr (True, u\<lparr>host := hostPort, port := 443\<rparr>))"

definition http_request ::
  "'p llhttp \<Rightarrow> http_response \<Rightarrow> (string \<Rightarrow> string) \<Rightarrow> (url_parts \<Rightarrow> string list) \<Rightarrow> string \<Rightarrow> bool \<Rightarrow> bool \<Rightarrow> bool
    \<Rightarrow> 'p http_client \<Rightarrow> 'p http_client outcome" where
  "http_request ll z resolve pieces url has_resp has_err keep_alive c =
     and_then (client_parse_url_https url \<lparr>host = [], port = 443, path = []\<rparr>) (\<lambda>(ok, u).
     if \<not> ok then Inr (if has_err then http_emit (ErrorCalled (''Invalid URL: '' @ url)) c else c)
     else
       let c = (resetParser ll z c)\<lparr>resp_cb_set := has_resp, err_cb_set := has_err\<rparr> in
       and_then (Buffer InitialSize) (\<lambda>b.
       and_then (put_list buf_append (map bytes_of (pieces u)) b) (\<lambda>b.
       Inr (open_client resolve url u keep_alive (c\<lparr>request_bufs := b # request_bufs c\<rparr>)))))"

definition http_get where
  "http_get ll z resolve url hs has_resp has_err keep_alive c =
     http_request ll z resolve (\<lambda>u. get_pieces u hs keep_alive) url has_resp has_err keep_alive c"

definition http_post where
  "http_post ll z resolve url hs bdy has_resp has_err keep_alive c =
     http_request ll z resolve (\<lambda>u. post_pieces u hs bdy keep_alive) url has_resp has_err keep_alive c"

text \<open>A client that was never made is a null pointer, which \<^verbatim>\<open>operator[]\<close> puts into the map.\<close>

definition http_force_close :: "string \<Rightarrow> 'p http_client \<Rightarrow> 'p http_client outcome" where
  "http_force_close url c =
    (case clients c url of None \<Rightarrow> Inl BadPointer | Some e \<Rightarrow> Inr (http_emit (ForceCloseCalled url) c))"

subsection \<open>Events of a connection\<close>

definition on_connection :: "string \<Rightarrow> bool \<Rightarrow> 'p http_client \<Rightarrow> 'p http_client" where
  "on_connection url connected c =
    (if connected
     then c\<lparr>http_log := http_log c @ map (RequestSent url \<circ> contents) (request_bufs c), request_bufs := []\<rparr>
     else c)"

definition on_message :: "'p llhttp \<Rightarrow> http_response \<Rightarrow> string \<Rightarrow> buffer \<Rightarrow> 'p http_client \<Rightarrow> (buffer \<times> 'p http_client) outcome" where
  "on_message ll z url b c =
    (case llhttp_execute ll (parser c) (contents b) of (evs, ret, p) \<Rightarrow>
       let c = fold parser_callback evs (c\<lparr>parser := p\<rparr>); b = retrieveAll b in
       if ret = HPE_OK \<and> msg_complete c then
         if resp_cb_set c then Inr (b, resetParser ll z (http_emit (ResponseCalled (response c)) c))
         else Inl UncaughtException
       else if ret \<noteq> HPE_OK \<and> ret \<noteq> HPE_PAUSED then Inr (b, http_emit (ShutdownCalled url) c)
       else Inr (b, c))"

text \<open>The buffers a connection delivers one after the other.\<close>

definition on_messages :: "'p llhttp \<Rightarrow> http_response \<Rightarrow> string \<Rightarrow> buffer list \<Rightarrow> 'p http_client \<Rightarrow> 'p http_client outcome" where
  "on_messages ll z url bs c = put_list (\<lambda>c b. and_then (on_message ll z url b c) (\<lambda>(b, c). Inr c)) bs c"

subsection \<open>What the callbacks collect\<close>

definition body_text :: "parse_event list \<Rightarrow> string" where
  "body_text evs = concat (map (\<lambda>e. case e of OnBody t \<Rightarrow> t | _ \<Rightarrow> []) evs)"

definition last_status :: "int \<Rightarrow> parse_event list \<Rightarrow> int" where
  "last_status s evs = fold (\<lambda>e s. case e of OnStatus n \<Rightarrow> n | _ \<Rightarrow> s) evs s"

lemmas callback_defs = on_status_def on_header_field_def on_hader_val_def on_body_def on_header_complete_def
  on_msg_complete_def Let_def

lemma callbacks_collect:
  "body (response (fold parser_callback evs c)) = body (response c) @ body_text evs
    \<and> status_code (response (fold parser_callback evs c)) = last_status (status_code (response c)) evs
    \<and> msg_complete (fold parser_callback evs c) = (msg_complete c \<or> OnMessageComplete \<in> set evs)
    \<and> resp_cb_set (fold parser_callback evs c) = resp_cb_set c \<and> http_log (fold parser_callback evs c) = http_log c
    \<and> parser (fold parser_callback evs c) = parser c"
proof (induction evs arbitrary: c)
  case Nil
  then show ?case by (simp add: body_text_def last_status_def)
next
  case (Cons e evs)
  show ?case
    by (cases e) (auto simp: Cons.IH body_text_def last_status_def callback_defs)
qed

text \<open>The field name is never stored, so no header is.\<close>

definition headerless :: "'p http_client \<Rightarrow> bool" where
  "headerless c \<longleftrightarrow> cur_header_field c = [] \<and> headers (response c) = (\<lambda>_. None)"

lemma callbacks_headerless: "headerless c \<Longrightarrow> headerless (fold parser_callback evs c)"
proof (induction evs arbitrary: c)
  case (Cons e evs)
  then have "headerless (parser_callback e c)" by (cases e) (auto simp: headerless_def callback_defs)
  with Cons.IH show ?case by simp
qed simp

subsection \<open>Assembling requests\<close>

lemma pieces_assembled:
  "\<exists>b. put_list buf_append (map bytes_of ps) \<lparr>buf = replicate InitialSize 0, read_idx = 0, write_idx = 0\<rparr> = Inr b
    \<and> wf_buffer b \<and> contents b = bytes_of (concat ps)"
proof -
  have fresh: "wf_buffer \<lparr>buf = replicate InitialSize 0, read_idx = 0, write_idx = 0\<rparr>"
      "contents \<lparr>buf = replicate InitialSize 0, read_idx = 0, write_idx = 0\<rparr> = []"
    by (simp_all add: buffer_defs)
  have "concat (map bytes_of ps) = bytes_of (concat ps)" by (induction ps) (simp_all add: bytes_of_def)
  with bq.put_list_abs [OF fresh(1), of "map bytes_of ps"] fresh(2) show ?thesis by simp
qed

text \<open>The two URL parsers agree on every input, the exceptions of \<^verbatim>\<open>std::stoi\<close> included.\<close>

lemma colon_split:
  fixes c :: char
  shows "length (takeWhile (\<lambda>x. x \<noteq> c) xs) \<noteq> length xs \<longleftrightarrow> c \<in> set xs"
    and "take (length (takeWhile (\<lambda>x. x \<noteq> c) xs)) xs = takeWhile (\<lambda>x. x \<noteq> c) xs"
    and "drop (Suc (length (takeWhile (\<lambda>x. x \<noteq> c) xs))) xs = tl (dropWhile (\<lambda>x. x \<noteq> c) xs)"
  by (induction xs) auto

lemma client_parse_url_https_eq [simp]: "client_parse_url_https url u = parse_url_https url u"
  by (simp add: client_parse_url_https_def parse_url_https_def Let_def colon_split del: drop_drop)

lemma request_queued:
  assumes "parse_url_https url \<lparr>host = [], port = 443, path = []\<rparr> = Inr (True, u)"
  shows "\<exists>b c'. http_request ll z resolve pieces url r e keep c = Inr c' \<and> request_bufs c' = b # request_bufs c
    \<and> contents b = bytes_of (concat (pieces u))
    \<and> c' = open_client resolve url u keep ((resetParser ll z c)\<lparr>resp_cb_set := r, err_cb_set := e, request_bufs := b # request_bufs c\<rparr>)"
proof -
  obtain b where b: "put_list buf_append (map bytes_of (pieces u)) \<lparr>buf = replicate InitialSize 0, read_idx = 0, write_idx = 0\<rparr> = Inr b"
      "contents b = bytes_of (concat (pieces u))"
    using pieces_assembled by blast
  let ?c = "(resetParser ll z c)\<lparr>resp_cb_set := r, err_cb_set := e, request_bufs := b # request_bufs c\<rparr>"
  have "request_bufs (open_client resolve url u keep ?c) = b # request_bufs c"
    by (simp add: open_client_def http_emit_def Let_def resetParser_def)
  with b show ?thesis
    by (simp add: http_request_def assms resetParser_def)
qed

definition header_text :: "(string \<times> string) list \<Rightarrow> string" where
  "header_text hs = concat (map (\<lambda>(k, v). k @ '': '' @ v @ crlf) hs)"

lemma header_pieces_text: "concat (header_pieces hs) = header_text hs"
  by (induction hs) (auto simp: header_pieces_def header_text_def)

subsection \<open>A response in pieces\<close>

text \<open>The parser run over the buffers alone: the callbacks it makes and whether it reported no error.\<close>

fun parses :: "'p llhttp \<Rightarrow> 'p \<Rightarrow> buffer list \<Rightarrow> parse_event list \<times> bool \<times> 'p" where
  "parses ll p [] = ([], True, p)"
| "parses ll p (b # bs) =
    (case llhttp_execute ll p (contents b) of (evs, ret, p1) \<Rightarrow>
     case parses ll p1 bs of (evs', ok, p2) \<Rightarrow> (evs @ evs', ret = HPE_OK \<and> ok, p2))"

lemma last_status_append: "last_status s (xs @ ys) = last_status (last_status s xs) ys"
  by (simp add: last_status_def)

lemma body_text_append: "body_text (xs @ ys) = body_text xs @ body_text ys"
  by (simp add: body_text_def)

lemma pieces_collected:
  assumes "parses ll (parser c) bs = (evs, True, p)" and "OnMessageComplete \<notin> set evs" and "\<not> msg_complete c"
  shows "\<exists>c'. on_messages ll z url bs c = Inr c' \<and> parser c' = p \<and> \<not> msg_complete c' \<and> http_log c' = http_log c
    \<and> resp_cb_set c' = resp_cb_set c \<and> body (response c') = body (response c) @ body_text evs
    \<and> status_code (response c') = last_status (status_code (response c)) evs"
  using assms
proof (induction bs arbitrary: c evs)
  case Nil
  then show ?case by (auto simp: on_messages_def body_text_def last_status_def)
next
  case (Cons b bs)
  obtain evs1 p1 evs2 where x: "llhttp_execute ll (parser c) (contents b) = (evs1, HPE_OK, p1)"
      "parses ll p1 bs = (evs2, True, p)" "evs = evs1 @ evs2"
    using Cons.prems(1) by (auto split: prod.splits)
  let ?c = "fold parser_callback evs1 (c\<lparr>parser := p1\<rparr>)"
  have c: "parser ?c = p1" "\<not> msg_complete ?c" "http_log ?c = http_log c" "resp_cb_set ?c = resp_cb_set c"
      "body (response ?c) = body (response c) @ body_text evs1"
      "status_code (response ?c) = last_status (status_code (response c)) evs1"
    using Cons.prems(2,3) x(3) by (simp_all add: callbacks_collect)
  have "on_message ll z url b c = Inr (retrieveAll b, ?c)"
    using x(1) c(2) by (simp add: on_message_def)
  then have "on_messages ll z url (b # bs) c = on_messages ll z url bs ?c" by (simp add: on_messages_def)
  with Cons.IH [of ?c evs2] x c Cons.prems(2) show ?case
    by (auto simp: last_status_append body_text_append)
qed

text \<open>No response handed to the user so far has a header.\<close>

definition no_headers :: "'p http_client \<Rightarrow> bool" where
  "no_headers c \<longleftrightarrow> headerless c \<and> (\<forall>r. ResponseCalled r \<in> set (http_log c) \<longrightarrow> headers r = (\<lambda>_. None))"

lemma message_no_headers:
  assumes "on_message ll z url b c = Inr (b', c')" and "no_headers c" and "headers z = (\<lambda>_. None)"
  shows "no_headers c'"
proof -
  obtain evs ret p where x: "llhttp_execute ll (parser c) (contents b) = (evs, ret, p)" by (metis prod_cases3)
  let ?c = "fold parser_callback evs (c\<lparr>parser := p\<rparr>)"
  have "headerless (c\<lparr>parser := p\<rparr>)" using assms(2) by (simp add: no_headers_def headerless_def)
  then have "headerless ?c" by (rule callbacks_headerless)
  moreover have "http_log ?c = http_log c" by (simp add: callbacks_collect)
  ultimately have "no_headers ?c" using assms(2) by (simp add: no_headers_def)
  with assms(1,3) x show ?thesis
    by (auto simp: on_message_def Let_def no_headers_def headerless_def http_emit_def resetParser_def no_response_def
        split: if_splits)
qed

lemma messages_no_headers: "on_messages ll z url bs c = Inr c' \<Longrightarrow> no_headers c \<Longrightarrow> headers z = (\<lambda>_. None) \<Longrightarrow> no_headers c'"
proof (induction bs arbitrary: c)
  case (Cons b bs)
  then obtain b1 c1 where "on_message ll z url b c = Inr (b1, c1)" "on_messages ll z url bs c1 = Inr c'"
    by (auto simp: on_messages_def and_then_eq_Inr)
  with Cons message_no_headers show ?case by blast
qed (simp add: on_messages_def)

subsection \<open>Properties\<close>



text \<open>No response has headers. \<^verbatim>\<open>on_header_field\<close> appends the name of a header to a copy, so whatever the
  peer sends and however the parser reports it, every response handed to the user has an empty header
  map.\<close>

theorem responses_lack_headers:
  assumes "on_messages ll z url bs (http_client_ctor ll) = Inr c'" and "ResponseCalled r \<in> set (http_log c')"
    and "headers z = (\<lambda>_. None)"
  shows "headers r = (\<lambda>_. None)"
proof -
  have "no_headers (http_client_ctor ll)"
    by (simp add: no_headers_def headerless_def http_client_ctor_def no_response_def)
  from messages_no_headers [OF assms(1) this assms(3)] assms(2) show ?thesis by (simp add: no_headers_def)
qed

text \<open>Requests are queued for whichever connection comes up next. A request for a URL whose client was
  connected before is neither sent nor does it start a connection; it leaves with the next connection
  established for any URL, before the requests queued earlier.\<close>

theorem request_waits_for_any_connection:
  assumes "host_ok h" and "path_ok q" and "url = https_url h (map_option unat (p :: u16 option)) q"
    and "clients c url = Some en" and "ce_connect en"
  shows "\<exists>b c'. http_get ll z resolve url hs r e keep c = Inr c' \<and> http_log c' = http_log c
    \<and> http_log (on_connection other True c') = http_log c @ map (RequestSent other) (contents b # map contents (request_bufs c))"
proof -
  obtain u where parse: "parse_url_https url \<lparr>host = [], port = 443, path = []\<rparr> = Inr (True, u)"
    unfolding assms(3) parse_printed_url [OF assms(1,2)] by blast
  obtain b c' where g: "http_get ll z resolve url hs r e keep c = Inr c'" "request_bufs c' = b # request_bufs c"
      "c' = open_client resolve url u keep ((resetParser ll z c)\<lparr>resp_cb_set := r, err_cb_set := e, request_bufs := b # request_bufs c\<rparr>)"
    unfolding http_get_def using request_queued [OF parse] by blast
  have "http_log c' = http_log c" using assms(4,5) g(3) by (simp add: open_client_def resetParser_def)
  with g show ?thesis by (auto simp: on_connection_def comp_def)
qed

subsection \<open>Witnesses\<close>

text \<open>A parser that reports the end of a message for a byte 10 and body text for the others.\<close>

definition demo_llhttp :: "unit llhttp" where
  "demo_llhttp = \<lparr>llhttp_init = (), llhttp_execute = (\<lambda>_ bs.
     (concat (map (\<lambda>x. if x = 10 then [OnMessageComplete]
        else [OnStatus 200, OnHeaderField ''h'', OnHeaderValue ''v'', OnBody [char_of (unat x)]]) bs), HPE_OK, ()))\<rparr>"

definition demo_http :: "unit http_client" where
  "demo_http = (http_client_ctor demo_llhttp)\<lparr>resp_cb_set := True\<rparr>"

definition demo_buf :: "byte list \<Rightarrow> buffer" where
  "demo_buf bs = \<lparr>buf = bs, read_idx = 0, write_idx = length bs\<rparr>"

lemma demo_buf_contents [simp]: "contents (demo_buf bs) = bs"
  by (simp add: demo_buf_def buffer_defs)



theorem responses_lack_headers_witness:
  "\<exists>c'. on_messages demo_llhttp no_response ''u'' [demo_buf [65]] (http_client_ctor demo_llhttp) = Inr c'
    \<and> (\<forall>r. ResponseCalled r \<in> set (http_log c') \<longrightarrow> headers r = (\<lambda>_. None))"
proof -
  obtain c' where "on_messages demo_llhttp no_response ''u'' [demo_buf [65]] (http_client_ctor demo_llhttp) = Inr c'"
    by (simp add: on_messages_def on_message_def demo_llhttp_def http_client_ctor_def callback_defs HPE_OK_def no_response_def)
  moreover have "headers no_response = (\<lambda>_. None)" by (simp add: no_response_def)
  ultimately show ?thesis using responses_lack_headers by blast
qed

definition demo_connected :: "unit http_client" where
  "demo_connected = demo_http\<lparr>clients := [https_url ''h'' None []
     \<mapsto> \<lparr>ce_ip = [], ce_port = 443, ce_keep_alive = False, ce_connect = True\<rparr>]\<rparr>"

theorem request_waits_for_any_connection_witness:
  "\<exists>b c'. http_get demo_llhttp no_response (\<lambda>s. s) (https_url ''h'' None []) [] True True False demo_connected = Inr c'
    \<and> http_log c' = [] \<and> http_log (on_connection ''other'' True c') = [RequestSent ''other'' (contents b)]"
proof -
  have h: "host_ok ''h''" "path_ok []" by code_simp+
  have u: "https_url ''h'' None [] = https_url ''h'' (map_option unat (None :: u16 option)) []" by simp
  obtain en where en: "clients demo_connected (https_url ''h'' None []) = Some en" "ce_connect en"
    by (simp add: demo_connected_def)
  have "http_log demo_connected = []" "request_bufs demo_connected = []"
    by (simp_all add: demo_connected_def demo_http_def http_client_ctor_def)
  then show ?thesis
    using request_waits_for_any_connection [OF h u en, of demo_llhttp no_response "\<lambda>s. s" "[]" True True False "''other''"] by simp
qed

end
