(* ===== verification/Inet_Addr.thy ===== *)
theory Inet_Addr
  imports Http_Util Byte_Buffer
begin

text \<open>
  Addresses and socket options: \<^verbatim>\<open>src/src/Sockets/InetAddr.{h,cpp}\<close> and the conversions and option
  setters of \<^verbatim>\<open>src/src/Sockets/SocketOps.cpp\<close>. An \<^verbatim>\<open>InetAddr\<close> is a union of \<^verbatim>\<open>sockaddr_in\<close> and
  \<^verbatim>\<open>sockaddr_in6\<close>; the record has the memory the two share, with a field read under two names once.
  Ports and IPv4 addresses are the bytes in memory, in network order. \<^verbatim>\<open>inet_ntop\<close> of an IPv6 address is
  the argument \<open>ntop\<close>.
\<close>

subsection \<open>Memory of an address\<close>

definition AF_INET :: int where "AF_INET = 2"
definition AF_INET6 :: int where "AF_INET6 = 10"
definition INET_ADDRSTRLEN :: nat where "INET_ADDRSTRLEN = 16"

text \<open>
  \<open>sin_family\<close> and \<open>sin_port\<close> are the first four bytes in both structures; \<open>sin_addr\<close> overlaps
  \<^verbatim>\<open>sin6_flowinfo\<close>, and \<open>sin6_addr\<close> lies behind it.
\<close>

record inet_addr =
  sin_family :: int
  sin_port :: "byte list"
  sin_addr :: "byte list"
  sin6_addr :: "byte list"
  sin6_scope_id :: u32

definition zero_addr :: inet_addr where
  "zero_addr = \<lparr>sin_family = 0, sin_port = [0, 0], sin_addr = [0, 0, 0, 0], sin6_addr = replicate 16 0,
     sin6_scope_id = 0\<rparr>"

text \<open>\<^verbatim>\<open>memset\<close> of \<^verbatim>\<open>addr4\<close> clears 16 bytes: half of the IPv6 address and its scope keep what the memory
  held. \<^verbatim>\<open>memset\<close> of \<^verbatim>\<open>addr6\<close> clears everything.\<close>

definition memset_addr4 :: "inet_addr \<Rightarrow> inet_addr" where
  "memset_addr4 m = zero_addr\<lparr>sin6_addr := overwrite (sin6_addr m) 0 (replicate 8 0), sin6_scope_id := sin6_scope_id m\<rparr>"

definition memset_addr6 :: "inet_addr \<Rightarrow> inet_addr" where
  "memset_addr6 m = zero_addr"

definition htons :: "u16 \<Rightarrow> byte list" where
  "htons p = network_bytes 2 p"

definition ntohs :: "byte list \<Rightarrow> u16" where
  "ntohs bs = load_le (rev bs)"

definition htonl :: "u32 \<Rightarrow> byte list" where
  "htonl p = network_bytes 4 p"

subsection \<open>Text of IPv4 addresses\<close>

definition inet_ntop4 :: "byte list \<Rightarrow> string" where
  "inet_ntop4 bs = concat (map (\<lambda>b. dec_digits (unat b) @ ''.'') (butlast bs)) @ dec_digits (unat (last bs))"

fun split_dots :: "string \<Rightarrow> string list" where
  "split_dots [] = [[]]"
| "split_dots (c # cs) =
    (if c = CHR ''.'' then [] # split_dots cs
     else case split_dots cs of p # ps \<Rightarrow> (c # p) # ps | [] \<Rightarrow> [[c]])"

definition octet_of :: "string \<Rightarrow> byte option" where
  "octet_of ds =
    (if ds \<noteq> [] \<and> length ds \<le> 3 \<and> list_all is_digit ds \<and> (hd ds \<noteq> CHR ''0'' \<or> length ds = 1) \<and> dec_value ds \<le> 255
     then Some (word_of_int (dec_value ds)) else None)"

definition inet_pton4 :: "string \<Rightarrow> byte list option" where
  "inet_pton4 s = (case map octet_of (split_dots (cstr s)) of
     [Some a, Some b, Some c, Some d] \<Rightarrow> Some [a, b, c, d] | _ \<Rightarrow> None)"

subsection \<open>Conversions\<close>

text \<open>\<open>old\<close> is the text in the buffer before; \<^verbatim>\<open>inet_ntop\<close> leaves it when the buffer is too small.\<close>

definition toIp :: "(byte list \<Rightarrow> string) \<Rightarrow> nat \<Rightarrow> inet_addr \<Rightarrow> string \<Rightarrow> string outcome" where
  "toIp ntop sz a old =
    (if sin_family a = AF_INET then
       assert_then (INET_ADDRSTRLEN \<le> sz)
         (Inr (if length (inet_ntop4 (sin_addr a)) < sz then inet_ntop4 (sin_addr a) else old))
     else if sin_family a = AF_INET6 then
       assert_then (INET_ADDRSTRLEN \<le> sz)
         (Inr (if length (ntop (sin6_addr a)) < sz then ntop (sin6_addr a) else old))
     else Inr old)"

definition snprintf_at :: "nat \<Rightarrow> string \<Rightarrow> string \<Rightarrow> string" where
  "snprintf_at sz b t = b @ take (sz - length b - 1) t"

text \<open>The branch for \<^verbatim>\<open>AF_INET6\<close> does not return.\<close>

definition toIpPort :: "(byte list \<Rightarrow> string) \<Rightarrow> nat \<Rightarrow> inet_addr \<Rightarrow> string \<Rightarrow> string outcome" where
  "toIpPort ntop sz a old =
     and_then
       (if sin_family a = AF_INET6 then
          and_then (toIp ntop (sz - 1) a (tl old)) (\<lambda>t.
          let b = CHR ''['' # t in
          assert_then (sz > length b + 4)
            (Inr (snprintf_at sz b ('']:'' @ dec_digits (unat (ntohs (sin_port a)))))))
        else Inr old) (\<lambda>b.
     and_then (toIp ntop sz a b) (\<lambda>b.
     assert_then (sz > length b)
       (Inr (snprintf_at sz b ('':'' @ dec_digits (unat (ntohs (sin_port a))))))))"

definition fromIpPort4 :: "string \<Rightarrow> u16 \<Rightarrow> inet_addr \<Rightarrow> inet_addr" where
  "fromIpPort4 ip p a =
    (let a = a\<lparr>sin_family := AF_INET, sin_port := htons p\<rparr>
     in case inet_pton4 ip of Some bs \<Rightarrow> a\<lparr>sin_addr := bs\<rparr> | None \<Rightarrow> a)"

text \<open>The overload for \<^verbatim>\<open>sockaddr_in6\<close> sets the family of IPv4 and parses an IPv4 address.\<close>

definition fromIpPort6 :: "string \<Rightarrow> u16 \<Rightarrow> inet_addr \<Rightarrow> inet_addr" where
  "fromIpPort6 ip p a =
    (let a = a\<lparr>sin_family := AF_INET, sin_port := htons p\<rparr>
     in case inet_pton4 ip of Some bs \<Rightarrow> a\<lparr>sin6_addr := overwrite (sin6_addr a) 0 bs\<rparr> | None \<Rightarrow> a)"

subsection \<open>InetAddr\<close>

definition INADDR_ANY :: u32 where "INADDR_ANY = 0"
definition INADDR_LOOPBACK :: u32 where "INADDR_LOOPBACK = 0x7f000001"

text \<open>The constructors; \<open>m\<close> is the memory before.\<close>

definition InetAddr_port :: "inet_addr \<Rightarrow> u16 \<Rightarrow> bool \<Rightarrow> bool \<Rightarrow> inet_addr" where
  "InetAddr_port m p isLoopback isIpv6 =
    (if isIpv6
     then (memset_addr6 m)\<lparr>sin_family := AF_INET6, sin_port := htons p,
            sin6_addr := (if isLoopback then replicate 15 0 @ [1] else replicate 16 0)\<rparr>
     else (memset_addr4 m)\<lparr>sin_family := AF_INET, sin_port := htons p,
            sin_addr := htonl (if isLoopback then INADDR_LOOPBACK else INADDR_ANY)\<rparr>)"

definition InetAddr_ip :: "inet_addr \<Rightarrow> string \<Rightarrow> u16 \<Rightarrow> bool \<Rightarrow> inet_addr" where
  "InetAddr_ip m ip p isIpv6 =
    (if isIpv6 \<or> CHR '':'' \<in> set (cstr ip) then fromIpPort6 ip p (memset_addr6 m)
     else fromIpPort4 ip p (memset_addr4 m))"

definition ipStr :: "(byte list \<Rightarrow> string) \<Rightarrow> inet_addr \<Rightarrow> string outcome" where
  "ipStr ntop a = toIp ntop 64 a []"

definition ipPortStr :: "(byte list \<Rightarrow> string) \<Rightarrow> inet_addr \<Rightarrow> string outcome" where
  "ipPortStr ntop a = toIpPort ntop 64 a []"

definition setScopeId :: "u32 \<Rightarrow> inet_addr \<Rightarrow> inet_addr" where
  "setScopeId sid a = (if sin_family a = AF_INET6 then a\<lparr>sin6_scope_id := sid\<rparr> else a)"

text \<open>\<^verbatim>\<open>getsockname\<close> and \<^verbatim>\<open>getpeername\<close>: the address, or \<open>None\<close> for an error.\<close>

definition getLocalAddr :: "inet_addr option \<Rightarrow> inet_addr" where
  "getLocalAddr answer = (case answer of Some a \<Rightarrow> a | None \<Rightarrow> zero_addr)"

definition getPeerAddr :: "inet_addr option \<Rightarrow> inet_addr" where
  "getPeerAddr answer = (case answer of Some a \<Rightarrow> a | None \<Rightarrow> zero_addr)"

definition isSelfConnect :: "inet_addr option \<Rightarrow> inet_addr option \<Rightarrow> bool" where
  "isSelfConnect l p =
    (let localaddr = getLocalAddr l; peeraddr = getPeerAddr p in
     if sin_family localaddr = AF_INET
     then sin_port localaddr = sin_port peeraddr \<and> sin_addr localaddr = sin_addr peeraddr
     else if sin_family localaddr = AF_INET6
     then sin_port localaddr = sin_port peeraddr \<and> sin6_addr localaddr = sin6_addr peeraddr
     else False)"

text \<open>\<^verbatim>\<open>getaddrinfo\<close> fails or gives a list of families with the four bytes of the address; the result is a
  string of 32 characters unless the call failed.\<close>

fun resolve_domain_ipv4 :: "(int \<times> byte list) list option \<Rightarrow> string" where
  "resolve_domain_ipv4 None = []"
| "resolve_domain_ipv4 (Some res) =
    (case find (\<lambda>(f, bs). f = AF_INET) res of
       Some (f, bs) \<Rightarrow> overwrite (replicate 32 nul) 0 (inet_ntop4 bs @ [nul])
     | None \<Rightarrow> replicate 32 nul)"

text \<open>\<^verbatim>\<open>Socket::get_addr\<close>.\<close>

definition get_addr :: "inet_addr option \<Rightarrow> string" where
  "get_addr peer = (case peer of None \<Rightarrow> []
     | Some a \<Rightarrow> inet_ntop4 (sin_addr a) @ '':'' @ dec_digits (unat (ntohs (sin_port a))))"

subsection \<open>Socket options\<close>

text \<open>A call of \<^verbatim>\<open>setsockopt\<close>: descriptor, level, option, value of the integer passed, length given.\<close>

datatype sockopt_level = SOL_SOCKET | SOL_TCP
datatype sockopt_name = TCP_NODELAY | SO_REUSEADDR | SO_REUSEPORT | SO_KEEPALIVE
datatype sockopt_call = Setsockopt int sockopt_level sockopt_name int nat

definition setTcpNoDelay :: "bool \<Rightarrow> int \<Rightarrow> sockopt_call" where
  "setTcpNoDelay on fd = (let opVal = (if on then 1 else 0) in Setsockopt fd SOL_SOCKET TCP_NODELAY opVal (nat opVal))"

definition setReuseAddr :: "bool \<Rightarrow> int \<Rightarrow> sockopt_call" where
  "setReuseAddr on fd = Setsockopt fd SOL_SOCKET SO_REUSEADDR (if on then 1 else 0) 4"

definition setReusePort :: "bool \<Rightarrow> int \<Rightarrow> sockopt_call" where
  "setReusePort on fd = Setsockopt fd SOL_SOCKET SO_REUSEPORT (if on then 1 else 0) 4"

definition setKeepAlive :: "bool \<Rightarrow> int \<Rightarrow> sockopt_call" where
  "setKeepAlive on fd = Setsockopt fd SOL_SOCKET SO_KEEPALIVE (if on then 1 else 0) 4"

text \<open>The documented rule for boolean options: the right level, and at least the size of an \<^verbatim>\<open>int\<close>.\<close>

fun sockopt_takes_effect :: "sockopt_call \<Rightarrow> bool" where
  "sockopt_takes_effect (Setsockopt fd lvl nm v len) \<longleftrightarrow>
     4 \<le> len \<and> lvl = (if nm = TCP_NODELAY then SOL_TCP else SOL_SOCKET)"

text \<open>\<^verbatim>\<open>getSocketError\<close> and \<^verbatim>\<open>get_keep_alive\<close>: the value of the option, or -1 when the call fails.\<close>

definition getSocketError :: "int option \<Rightarrow> int" where
  "getSocketError answer = (case answer of Some v \<Rightarrow> v | None \<Rightarrow> -1)"

definition get_keep_alive :: "int option \<Rightarrow> int" where
  "get_keep_alive answer = (case answer of Some v \<Rightarrow> v | None \<Rightarrow> -1)"

text \<open>\<^verbatim>\<open>connect\<close>, \<^verbatim>\<open>bindOrDie\<close>: the address and the length that is passed with it.\<close>

definition sock_connect :: "inet_addr \<Rightarrow> inet_addr \<times> nat" where
  "sock_connect a = (a, 16)"

definition bindOrDie :: "inet_addr \<Rightarrow> inet_addr \<times> nat" where
  "bindOrDie a = (a, 28)"

text \<open>The documented rule: the length covers the structure of the family (an IPv6 address without its
  scope has 24 bytes).\<close>

fun addr_length_valid :: "inet_addr \<times> nat \<Rightarrow> bool" where
  "addr_length_valid (a, len) \<longleftrightarrow>
     sin_family a = AF_INET \<and> 16 \<le> len \<or> sin_family a = AF_INET6 \<and> 24 \<le> len"

subsection \<open>Reading back what was printed\<close>

lemma octet_dec_digits: "octet_of (dec_digits (unat b)) = Some b" for b :: byte
proof -
  have n: "unat b < 256" using unsigned_less [of b, where 'a = nat] by simp
  then have u: "uint b \<le> 255" unfolding uint_nat by linarith
  from n have "unat b < 10 ^ 3" by simp
  then have "length (dec_digits (unat b)) \<le> 3" by (rule length_dec_digits) simp
  moreover have "hd (dec_digits (unat b)) \<noteq> CHR ''0'' \<or> length (dec_digits (unat b)) = 1"
    using hd_dec_digits [of "unat b"] by (cases "unat b = 0") (simp_all add: dec_digits.simps [of 0])
  ultimately show ?thesis
    using u by (simp add: octet_of_def dec_digits_not_Nil dec_digits_digits dec_digits_value)
qed

lemma split_dots_plain: "CHR ''.'' \<notin> set p \<Longrightarrow> split_dots p = [p]"
  by (induction p) auto

lemma split_dots_append: "CHR ''.'' \<notin> set p \<Longrightarrow> split_dots (p @ CHR ''.'' # cs) = p # split_dots cs"
  by (induction p) auto

lemma dec_digits_no_dot: "CHR ''.'' \<notin> set (dec_digits n)" "nul \<notin> set (dec_digits n)"
  using dec_digits_digits [of n] by (auto simp: list_all_iff is_digit_def)

lemma ntop4_plain: "nul \<notin> set (inet_ntop4 bs)" "CHR '':'' \<notin> set (inet_ntop4 bs)"
  using dec_digits_plain dec_digits_no_dot by (auto simp: inet_ntop4_def)

lemma ntop4_four: "inet_ntop4 [a, b, c, d] =
    dec_digits (unat a) @ CHR ''.'' # dec_digits (unat b) @ CHR ''.'' # dec_digits (unat c) @ CHR ''.'' # dec_digits (unat d)"
  by (simp add: inet_ntop4_def)

lemma pton4_ntop4: "inet_pton4 (inet_ntop4 [a, b, c, d]) = Some [a, b, c, d]"
proof -
  have "split_dots (inet_ntop4 [a, b, c, d])
      = [dec_digits (unat a), dec_digits (unat b), dec_digits (unat c), dec_digits (unat d)]"
    by (simp add: ntop4_four split_dots_append split_dots_plain dec_digits_no_dot)
  then show ?thesis by (simp add: inet_pton4_def ntop4_plain octet_dec_digits)
qed

lemma ntop4_length: "length (inet_ntop4 [a, b, c, d]) \<le> 15"
proof -
  have "length (dec_digits (unat x)) \<le> 3" for x :: byte
    using octet_dec_digits [of x] by (auto simp: octet_of_def split: if_splits)
  from this [of a] this [of b] this [of c] this [of d] show ?thesis by (simp add: ntop4_four)
qed

lemma port_text_length: "length (dec_digits (unat (p :: u16))) \<le> 5"
proof -
  have "unat p < 10 ^ 5" using unsigned_less [of p, where 'a = nat] by simp
  then show ?thesis by (rule length_dec_digits) simp
qed

lemma ntohs_htons [simp]: "ntohs (htons p) = p"
  by (simp add: ntohs_def htons_def network_bytes_def load_store_le)

lemma cstr_cons [simp]: "cstr (s @ nul # r) = cstr s"
  by (induction s) (auto simp: cstr_def)

lemma resolve_cstr:
  "cstr (resolve_domain_ipv4 (Some res)) =
    (case find (\<lambda>(f, bs). f = AF_INET) res of Some (f, bs) \<Rightarrow> inet_ntop4 bs | None \<Rightarrow> [])"
proof (cases "find (\<lambda>(f, bs). f = AF_INET) res")
  case None
  then show ?thesis by (simp add: cstr_def)
next
  case (Some r)
  then show ?thesis by (cases r) (simp add: overwrite_def ntop4_plain)
qed

lemma find_first_ipv4:
  assumes "res = pre @ (AF_INET, bs) # rest" and "list_all (\<lambda>(f, _). f \<noteq> AF_INET) pre"
  shows "find (\<lambda>(f, bs). f = AF_INET) res = Some (AF_INET, bs)"
  using assms(2) unfolding assms(1) by (induction pre) auto

lemma pton4_cstr: "inet_pton4 (cstr s) = inet_pton4 s"
  by (simp add: inet_pton4_def cstr_def)

lemma InetAddr_ip_cstr: "InetAddr_ip m (cstr s) p six = InetAddr_ip m s p six"
  by (simp add: InetAddr_ip_def fromIpPort4_def fromIpPort6_def pton4_cstr) (simp add: cstr_def)

lemma InetAddr_ip_ntop4:
  "InetAddr_ip m (inet_ntop4 [a, b, c, d]) p False =
    (memset_addr4 m)\<lparr>sin_family := AF_INET, sin_port := htons p, sin_addr := [a, b, c, d]\<rparr>"
  by (simp add: InetAddr_ip_def ntop4_plain fromIpPort4_def pton4_ntop4)

text \<open>What an address of the family \<^verbatim>\<open>AF_INET\<close> is printed as.\<close>

lemma printed_ipv4:
  assumes "sin_family x = AF_INET" and "sin_addr x = [a, b, c, d]" and "sin_port x = htons p"
  shows "ipStr ntop x = Inr (inet_ntop4 [a, b, c, d])"
    and "ipPortStr ntop x = Inr (inet_ntop4 [a, b, c, d] @ '':'' @ dec_digits (unat p))"
proof -
  have len: "length (inet_ntop4 [a, b, c, d]) \<le> 15" "length (dec_digits (unat p)) \<le> 5"
    by (rule ntop4_length port_text_length)+
  have ip: "toIp ntop 64 x old = Inr (inet_ntop4 [a, b, c, d])" for old
    using assms len by (simp add: toIp_def INET_ADDRSTRLEN_def)
  then show "ipStr ntop x = Inr (inet_ntop4 [a, b, c, d])" by (simp add: ipStr_def)
  show "ipPortStr ntop x = Inr (inet_ntop4 [a, b, c, d] @ '':'' @ dec_digits (unat p))"
    using assms len ip by (simp add: ipPortStr_def toIpPort_def AF_INET_def AF_INET6_def snprintf_at_def)
qed

text \<open>C37: The address a client connects to is the one the resolver found. When \<^verbatim>\<open>getaddrinfo\<close> lists an IPv4
  address after any number of others, the 32 characters that \<^verbatim>\<open>resolve_domain_ipv4\<close> returns, NUL characters
  included, make an \<^verbatim>\<open>InetAddr\<close> with exactly the four bytes of the first IPv4 entry and the port in network
  order, whatever the memory held; it prints as the dotted text, with the port in decimal, without being cut
  off, and the length that \<^verbatim>\<open>connect\<close> passes is valid for it.\<close>

theorem resolved_address_round_trip:
  assumes "list_all (\<lambda>(f, _). f \<noteq> AF_INET) others"
    and "x = InetAddr_ip m (resolve_domain_ipv4 (Some (others @ (AF_INET, [a, b, c, d]) # rest))) p False"
  shows "sin_addr x = [a, b, c, d] \<and>
    ntohs (sin_port x) = p \<and>
    sin_family x = AF_INET \<and>
    ipStr ntop x = Inr (inet_ntop4 [a, b, c, d]) \<and>
    ipPortStr ntop x = Inr (inet_ntop4 [a, b, c, d] @ '':'' @ dec_digits (unat p)) \<and>
    InetAddr_ip m' (inet_ntop4 (sin_addr x)) (ntohs (sin_port x)) False = x\<lparr>sin6_addr := sin6_addr (memset_addr4 m'), sin6_scope_id := sin6_scope_id m'\<rparr> \<and>
    addr_length_valid (sock_connect x)"
proof -
  have x: "x = (memset_addr4 m)\<lparr>sin_family := AF_INET, sin_port := htons p, sin_addr := [a, b, c, d]\<rparr>"
    unfolding assms(2) by (subst InetAddr_ip_cstr [symmetric])
      (simp only: resolve_cstr find_first_ipv4 [OF refl assms(1)] option.case prod.case InetAddr_ip_ntop4)
  have "ipStr ntop x = Inr (inet_ntop4 [a, b, c, d])"
    and "ipPortStr ntop x = Inr (inet_ntop4 [a, b, c, d] @ '':'' @ dec_digits (unat p))"
    by (rule printed_ipv4; simp add: x)+
  moreover have "InetAddr_ip m' (inet_ntop4 (sin_addr x)) (ntohs (sin_port x)) False =
      x\<lparr>sin6_addr := sin6_addr (memset_addr4 m'), sin6_scope_id := sin6_scope_id m'\<rparr>"
    by (simp add: x InetAddr_ip_ntop4 memset_addr4_def)
  moreover have "addr_length_valid (sock_connect x)" by (simp add: x sock_connect_def)
  ultimately show ?thesis by (simp add: x)
qed

theorem resolved_address_round_trip_witness:
  "ipPortStr (\<lambda>_. []) (InetAddr_ip zero_addr
      (resolve_domain_ipv4 (Some [(AF_INET6, [1]), (AF_INET, [93, 184, 216, 34]), (AF_INET, [1, 1, 1, 1])])) 443 False)
   = Inr ''93.184.216.34:443''"
proof -
  have z: "inet_ntop4 [93, 184, 216, 34] @ '':'' @ dec_digits (unat (443 :: u16)) = ''93.184.216.34:443''" by code_simp
  have l: "list_all (\<lambda>(f, _). f \<noteq> AF_INET) [(AF_INET6, [1 :: byte])]" by code_simp
  show ?thesis
    using resolved_address_round_trip [OF l refl, where ntop = "\<lambda>_. []" and m = zero_addr and a = 93 and b = 184
        and c = 216 and d = 34 and rest = "[(AF_INET, [1, 1, 1, 1])]" and p = 443, THEN conjunct2, THEN conjunct2, THEN conjunct2, THEN conjunct2, THEN conjunct1]
    by (simp only: z, simp only: append_Cons append_Nil)
qed

lemma octet_no_colon: "octet_of w = Some v \<Longrightarrow> CHR '':'' \<notin> set w"
  by (auto simp: octet_of_def is_digit_def list_all_iff split: if_splits)

text \<open>An address made by the constructor from text with IPv6 asked for, or with a colon in the text, has the
  family \<^verbatim>\<open>AF_INET\<close> and the address 0.0.0.0, whatever the text is: that is what is printed, with the port, and
  what a connect is made to.\<close>

theorem ipv6_text_is_lost:
  assumes "isIpv6 \<or> CHR '':'' \<in> set (cstr ip)" and "x = InetAddr_ip m ip p isIpv6"
  shows "sin_family x = AF_INET" and "sin_addr x = [0, 0, 0, 0]"
    and "ipStr ntop x = Inr ''0.0.0.0''" and "ipPortStr ntop x = Inr (''0.0.0.0:'' @ dec_digits (unat p))"
proof -
  show f: "sin_family x = AF_INET" and a: "sin_addr x = [0, 0, 0, 0]"
    using assms by (auto simp: InetAddr_ip_def fromIpPort6_def memset_addr6_def zero_addr_def Let_def split: option.splits)
  have q: "sin_port x = htons p"
    using assms by (auto simp: InetAddr_ip_def fromIpPort6_def memset_addr6_def zero_addr_def Let_def split: option.splits)
  have "inet_ntop4 [0, 0, 0, 0] = ''0.0.0.0''" by code_simp
  with printed_ipv4 [OF f a q, of ntop]
  show "ipStr ntop x = Inr ''0.0.0.0''" "ipPortStr ntop x = Inr (''0.0.0.0:'' @ dec_digits (unat p))"
    by simp_all
qed

theorem ipv6_text_is_lost_witness:
  "ipStr (\<lambda>_. ''::1'') (InetAddr_ip zero_addr ''::1'' 80 False) = Inr ''0.0.0.0''"
  by (rule ipv6_text_is_lost (3) [OF _ refl, where ip = "''::1''"]) (simp add: cstr_def)

text \<open>An address of the family \<^verbatim>\<open>AF_INET6\<close> is printed with its port after an unbracketed address, and cannot be
  connected to: the length passed is that of an IPv4 address.\<close>

lemma ipv6_printed_unbracketed:
  assumes "sin_family x = AF_INET6" and "length (ntop (sin6_addr x)) < 46" and "sin_port x = htons p"
  shows "ipPortStr ntop x = Inr (ntop (sin6_addr x) @ '':'' @ dec_digits (unat p))"
    and "\<not> addr_length_valid (sock_connect x)" and "addr_length_valid (bindOrDie x)"
proof -
  have "length (dec_digits (unat p)) \<le> 5" by (rule port_text_length)
  with assms show "ipPortStr ntop x = Inr (ntop (sin6_addr x) @ '':'' @ dec_digits (unat p))"
    by (simp add: ipPortStr_def toIpPort_def toIp_def AF_INET_def AF_INET6_def INET_ADDRSTRLEN_def snprintf_at_def)
qed (use assms in \<open>simp_all add: sock_connect_def bindOrDie_def AF_INET_def AF_INET6_def\<close>)

text \<open>The socket is connected to itself only when both calls succeeded.\<close>

lemma isSelfConnect_same:
  assumes "sin_family a = AF_INET \<or> sin_family a = AF_INET6"
  shows "isSelfConnect (Some a) (Some a)" and "\<not> isSelfConnect None p"
    and "sin_port a \<noteq> [0, 0] \<Longrightarrow> \<not> isSelfConnect (Some a) None"
  using assms by (auto simp: isSelfConnect_def getLocalAddr_def getPeerAddr_def zero_addr_def AF_INET_def AF_INET6_def)

text \<open>Of the option setters, \<^verbatim>\<open>setTcpNoDelay\<close> never takes effect: wrong level, and the value as the length.\<close>

lemma option_calls:
  "\<not> sockopt_takes_effect (setTcpNoDelay on fd)" "sockopt_takes_effect (setReuseAddr on fd)"
  "sockopt_takes_effect (setReusePort on fd)" "sockopt_takes_effect (setKeepAlive on fd)"
  by (simp_all add: setTcpNoDelay_def setReuseAddr_def setReusePort_def setKeepAlive_def)

subsection \<open>Statistics of a connection\<close>

text \<open>The fields of \<^verbatim>\<open>struct tcp_info\<close> that are printed; \<^verbatim>\<open>tcpi_retransmits\<close> is one byte.\<close>

record tcp_info =
  tcpi_retransmits :: byte
  tcpi_rto :: u32
  tcpi_ato :: u32
  tcpi_snd_mss :: u32
  tcpi_rcv_mss :: u32
  tcpi_lost :: u32
  tcpi_retrans :: u32
  tcpi_rtt :: u32
  tcpi_rttvar :: u32
  tcpi_snd_ssthresh :: u32
  tcpi_snd_cwnd :: u32
  tcpi_total_retrans :: u32

definition tcp_info_text :: "tcp_info \<Rightarrow> string" where
  "tcp_info_text i =
     ''unrecovered='' @ dec_digits (unat (tcpi_retransmits i)) @ '' ''
     @ ''rto='' @ dec_digits (unat (tcpi_rto i)) @ '' ato='' @ dec_digits (unat (tcpi_ato i))
     @ '' snd_mss='' @ dec_digits (unat (tcpi_snd_mss i)) @ '' rcv_mss='' @ dec_digits (unat (tcpi_rcv_mss i)) @ '' ''
     @ ''lost='' @ dec_digits (unat (tcpi_lost i)) @ '' retrans='' @ dec_digits (unat (tcpi_retrans i))
     @ '' rtt='' @ dec_digits (unat (tcpi_rtt i)) @ '' rttvar='' @ dec_digits (unat (tcpi_rttvar i)) @ '' ''
     @ ''sshthresh='' @ dec_digits (unat (tcpi_snd_ssthresh i)) @ '' cwnd='' @ dec_digits (unat (tcpi_snd_cwnd i))
     @ '' total_retrans='' @ dec_digits (unat (tcpi_total_retrans i))"

text \<open>\<open>answer\<close>: what \<^verbatim>\<open>getsockopt(TCP_INFO)\<close> fills in; the result is the return value and the text in the buffer of
  \<open>len\<close> bytes.\<close>

definition getTcpInfoString :: "tcp_info option \<Rightarrow> nat \<Rightarrow> string \<Rightarrow> bool \<times> string" where
  "getTcpInfoString answer len old =
    (case answer of None \<Rightarrow> (False, old) | Some i \<Rightarrow> (True, if len = 0 then old else take (len - 1) (tcp_info_text i)))"

text \<open>\<^verbatim>\<open>TcpConnection::getTcpInfoString\<close>, with a buffer of 1024 bytes.\<close>

definition conn_getTcpInfoString :: "tcp_info option \<Rightarrow> string" where
  "conn_getTcpInfoString answer = snd (getTcpInfoString answer 1024 [])"

lemma u32_text_length: "length (dec_digits (unat (w :: u32))) \<le> 10"
proof -
  have "unat w < 2 ^ 32" using unsigned_less [of w, where 'a = nat] by simp
  also have "(2::nat) ^ 32 \<le> 10 ^ 10" by simp
  finally show ?thesis by (rule length_dec_digits) simp
qed

text \<open>The text is never cut off: it has at most 226 characters.\<close>

lemma tcp_info_complete: "conn_getTcpInfoString (Some i) = tcp_info_text i" "length (tcp_info_text i) \<le> 226"
proof -
  have b: "length (dec_digits (unat (tcpi_retransmits i))) \<le> 3"
    using octet_dec_digits [of "tcpi_retransmits i"] by (auto simp: octet_of_def split: if_splits)
  show "length (tcp_info_text i) \<le> 226"
    using b u32_text_length [of "tcpi_rto i"] u32_text_length [of "tcpi_ato i"] u32_text_length [of "tcpi_snd_mss i"]
      u32_text_length [of "tcpi_rcv_mss i"] u32_text_length [of "tcpi_lost i"] u32_text_length [of "tcpi_retrans i"]
      u32_text_length [of "tcpi_rtt i"] u32_text_length [of "tcpi_rttvar i"] u32_text_length [of "tcpi_snd_ssthresh i"]
      u32_text_length [of "tcpi_snd_cwnd i"] u32_text_length [of "tcpi_total_retrans i"]
    unfolding tcp_info_text_def length_append by simp
  then show "conn_getTcpInfoString (Some i) = tcp_info_text i"
    by (simp add: conn_getTcpInfoString_def getTcpInfoString_def)
qed

end
