(* ===== verification/Thread_Pool.thy ===== *)
theory Thread_Pool
  imports Mpmc_Threads Log_Stream "HOL-Library.Multiset"
begin

text \<open>
  \<^verbatim>\<open>src/src/Threads/ThreadPool.{h,cpp}\<close>: workers that take tasks from a \<^verbatim>\<open>mpmc_bounded_Queue\<close>, interleaved
  access by access with each other and with the threads that submit. The queue and its threads are the
  system of \<open>Mpmc_Threads\<close>. The first section adds to its invariant what an empty answer of \<^verbatim>\<open>try_pop\<close>
  means; with it every accepted task is run once, and \<^verbatim>\<open>stop\<close> returns after all of them have run, unless a
  \<^verbatim>\<open>submit\<close> overlaps it.
\<close>

subsection \<open>What an empty answer means\<close>

text \<open>Sequence numbers from both sides: positions taken out are ahead of their number, free nodes are behind
  theirs, and a claimed position that is not published belongs to a pusher.\<close>

definition exact_inv :: "'a system \<Rightarrow> bool" where
  "exact_inv s \<longleftrightarrow> (\<forall>p < head_at (queue s). Suc p \<le> seq_of (queue s) p)
     \<and> (\<forall>p \<ge> tail_at (queue s). seq_of (queue s) p \<le> p)
     \<and> (\<forall>p. head_at (queue s) \<le> p \<and> p < tail_at (queue s) \<and> seq_of (queue s) p = p \<longrightarrow>
          (\<exists>t. push_pos (pushers s t) = Some p))"

lemma exact_invD:
  assumes "exact_inv s"
  shows "p < head_at (queue s) \<Longrightarrow> Suc p \<le> seq_of (queue s) p"
    and "tail_at (queue s) \<le> p \<Longrightarrow> seq_of (queue s) p \<le> p"
    and "head_at (queue s) \<le> p \<Longrightarrow> p < tail_at (queue s) \<Longrightarrow> seq_of (queue s) p = p \<Longrightarrow>
      \<exists>t. push_pos (pushers s t) = Some p"
  using assms by (auto simp: exact_inv_def)

lemma round_apart:
  fixes p p' n :: nat
  assumes "p mod n = p' mod n" and "p < p'"
  shows "p + n \<le> p'"
proof -
  have "n dvd p' - p" using assms mod_eq_dvd_iff_nat [of p p' n] by auto
  then show ?thesis using assms(2) by (auto dest: dvd_imp_le)
qed

lemma exact_keep:
  assumes "exact_inv s" and "seq_of q' = seq_of (queue s)" and "head_pos q' = head_pos (queue s)"
    and "tail_pos q' = tail_pos (queue s)" and "push_pos pc' = push_pos (pushers s t)"
  shows "exact_inv (s\<lparr>queue := q', pushers := (pushers s)(t := pc'), hist := h\<rparr>)"
proof -
  have "push_pos (((pushers s)(t := pc')) t') = push_pos (pushers s t')" for t' using assms(5) by simp
  then show ?thesis using assms(1-4) by (simp add: exact_inv_def)
qed

lemma exact_push:
  assumes inv: "threads_inv s" and ex: "exact_inv s"
    and st: "push_step spur (queue s) (pushers s t) = (q', pc')"
    and len: "length (hist s @ claims spur (queue s) (pushers s t)) < 2 ^ 63"
  shows "exact_inv (s\<lparr>queue := q', pushers := (pushers s)(t := pc'), hist := h\<rparr>)"
proof -
  note D = threads_invD [OF inv]
  note I = ring_invD [OF D(1)]
  note E = exact_invD [OF ex]
  show ?thesis
  proof (cases "pushers s t")
    case (PushCas x pos)
    show ?thesis
    proof (cases "\<not> spur \<and> tail_pos (queue s) = pos")
      case True
      then have T: "tail_at (queue s\<lparr>tail_pos := pos + 1\<rparr>) = Suc (tail_at (queue s))"
        using I(3,4) by (simp add: unat_succ)
      have "q' = queue s\<lparr>tail_pos := pos + 1\<rparr>" "pc' = PushStore x pos" using st PushCas True by auto
      with E T True PushCas show ?thesis
        unfolding exact_inv_def by (auto simp: less_Suc_eq) (metis option.simps(3) push_pos.simps(5))+
    next
      case False
      with PushCas st show ?thesis by (intro exact_keep [OF ex]) (auto split: if_splits)
    qed
  next
    case (PushRelease pos)
    with D(2) [of t] have own: "push_owner (queue s) (unat pos)" by auto
    then have n: "head_at (queue s) \<le> unat pos" "unat pos < tail_at (queue s)"
        "seq_of (queue s) (unat pos) = unat pos" by (simp_all add: push_owner_def)
    have q': "q' = set_sequence (queue s) pos (pos + 1)" "pc' = PushDone True" using PushRelease st by auto
    have succ: "unat (pos + 1) = Suc (unat pos)" using n(2) I(3,4) by (simp add: unat_succ)
    have seq: "seq_of q' p = (if p mod length (ring (queue s)) = unat pos mod length (ring (queue s))
        then Suc (unat pos) else seq_of (queue s) p)" for p
      by (simp add: q' seq_of_set(3) [OF I(1)] succ)
    have F: "head_at q' = head_at (queue s)" "tail_at q' = tail_at (queue s)" by (simp_all add: q')
    show ?thesis
      unfolding exact_inv_def
    proof (simp add: F, intro conjI allI impI)
      fix p
      { assume "p < head_at (queue s)"
        with E(1) [of p] n(1) show "Suc p \<le> seq_of q' p" by (auto simp: seq) }
      { assume p: "tail_at (queue s) \<le> p"
        show "seq_of q' p \<le> p"
        proof (cases "p mod length (ring (queue s)) = unat pos mod length (ring (queue s))")
          case True
          then have "unat pos + length (ring (queue s)) \<le> p"
            using p n(2) by (intro round_apart) auto
          with True I(2) show ?thesis by (simp add: seq)
        next
          case False
          with E(2) [OF p] show ?thesis by (simp add: seq)
        qed }
      { assume p: "head_at (queue s) \<le> p \<and> p < tail_at (queue s) \<and> seq_of q' p = p"
        show "\<exists>t'. (t' = t \<longrightarrow> push_pos pc' = Some p) \<and> (t' \<noteq> t \<longrightarrow> push_pos (pushers s t') = Some p)"
        proof (cases "p mod length (ring (queue s)) = unat pos mod length (ring (queue s))")
          case True
          with p have "p = Suc (unat pos)" by (simp add: seq)
          with True next_slot [OF I(2), of "unat pos"] show ?thesis by simp
        next
          case False
          with p E(3) [of p] obtain t' where "push_pos (pushers s t') = Some p" by (auto simp: seq)
          moreover from this False PushRelease have "t' \<noteq> t" by auto
          ultimately show ?thesis by blast
        qed }
    qed
  qed (rule exact_keep [OF ex]; use st in \<open>auto simp: Let_def seq_of_set [OF I(1)] split: if_splits\<close>)+
qed

lemma exact_pop:
  assumes inv: "threads_inv s" and ex: "exact_inv s"
    and st: "pop_step spur (queue s) (poppers s t) = (q', pc')"
  shows "exact_inv (s\<lparr>queue := q', poppers := (poppers s)(t := pc')\<rparr>)"
proof -
  note D = threads_invD [OF inv]
  note I = ring_invD [OF D(1)]
  note E = exact_invD [OF ex]
  show ?thesis
  proof (cases "poppers s t")
    case (PopCas pos)
    show ?thesis
    proof (cases "\<not> spur \<and> head_pos (queue s) = pos")
      case True
      have seq: "seq_of (queue s) (head_at (queue s)) = Suc (head_at (queue s))"
        using D(3) [of t] PopCas True by auto
      have H: "head_at (queue s\<lparr>head_pos := pos + 1\<rparr>) = Suc (head_at (queue s))"
        using I(3,4) I(7) [OF seq] True by (simp add: unat_succ)
      have "q' = queue s\<lparr>head_pos := pos + 1\<rparr>" using st PopCas True by auto
      with E H seq show ?thesis unfolding exact_inv_def by (auto simp: less_Suc_eq)
    next
      case False
      with PopCas st ex show ?thesis by (auto simp: exact_inv_def split: if_splits)
    qed
  next
    case (PopRelease pos x)
    with D(3) [of t] have own: "pop_owner (queue s) (hist s) (unat pos)" by auto
    then have n: "unat pos < head_at (queue s)" "seq_of (queue s) (unat pos) = Suc (unat pos)"
        "tail_at (queue s) \<le> unat pos + length (ring (queue s))" by (simp_all add: pop_owner_def)
    have q': "q' = set_sequence (queue s) pos (pos + buffer_mask (queue s) + 1)" using PopRelease st by auto
    note succ = release_seq [OF D(1) own]
    have seq: "seq_of q' p = (if p mod length (ring (queue s)) = unat pos mod length (ring (queue s))
        then unat pos + length (ring (queue s)) else seq_of (queue s) p)" for p
      by (simp add: q' seq_of_set(3) [OF I(1)] succ)
    have F: "head_at q' = head_at (queue s)" "tail_at q' = tail_at (queue s)" by (simp_all add: q')
    have up: "seq_of (queue s) p \<le> seq_of q' p" for p
      using n(2) I(2) same_slot [of p "queue s" "unat pos"] by (auto simp: seq)
    have "Suc p \<le> seq_of q' p" if "p < head_at (queue s)" for p using E(1) [OF that] up [of p] by linarith
    moreover have "seq_of q' p \<le> p" if p: "tail_at (queue s) \<le> p" for p
    proof (cases "p mod length (ring (queue s)) = unat pos mod length (ring (queue s))")
      case True
      then have "unat pos + length (ring (queue s)) \<le> p"
        using p n(1) I(5) by (intro round_apart) auto
      with True show ?thesis by (simp add: seq)
    next
      case False
      with E(2) [OF p] show ?thesis by (simp add: seq)
    qed
    moreover have "seq_of (queue s) p = p" if "head_at (queue s) \<le> p" "p < tail_at (queue s)" "seq_of q' p = p" for p
      using I(8) [OF that(1,2)] up [of p] that(3) by auto
    ultimately show ?thesis using E(3) by (simp add: exact_inv_def F)
  qed (use st ex in \<open>auto simp: exact_inv_def Let_def split: if_splits\<close>)
qed

lemma exact_step:
  assumes "queue_step s s'" and "threads_inv s" and "exact_inv s" and "length (hist s') < 2 ^ 63"
  shows "exact_inv s'"
  using assms
proof (cases rule: queue_step.cases)
  case (push_access spur t q' pc')
  with assms show ?thesis using exact_push by auto
next
  case (push_call t r x)
  have "exact_inv (s\<lparr>queue := queue s, pushers := (pushers s)(t := PushStart x), hist := hist s\<rparr>)"
    by (rule exact_keep [OF assms(3)]) (simp_all add: push_call)
  with push_call show ?thesis by simp
next
  case (pop_access spur t q' pc')
  with assms show ?thesis using exact_pop by auto
next
  case (pop_call t r)
  with assms(3) show ?thesis by (simp add: exact_inv_def)
qed

lemma sint_diff:
  fixes a b :: u64
  assumes "unat a < 2 ^ 63" and "unat b < 2 ^ 63"
  shows "sint (a - b) = int (unat a) - int (unat b)"
proof -
  have lt: "unat a < 9223372036854775808" "unat b < 9223372036854775808" using assms by simp_all
  have gap: "- 9223372036854775808 \<le> int x - int y \<and> int x - int y < 9223372036854775808"
    if "x < 9223372036854775808" "y < 9223372036854775808" for x y :: nat
    using that by linarith
  have p63: "(2::int) ^ 63 = 9223372036854775808" by simp
  have "a - b = word_of_int (int (unat a) - int (unat b))" by simp
  then have "sint (a - b) = signed_take_bit 63 (int (unat a) - int (unat b))"
    by (simp only: signed_of_int) simp
  also have "\<dots> = int (unat a) - int (unat b)"
    by (rule signed_take_bit_int_eq_self) (use gap [OF lt] in \<open>simp_all only: p63\<close>)
  finally show ?thesis .
qed

text \<open>The sequence numbers stay below the tail and one round.\<close>

lemma seq_bound:
  assumes "threads_inv s" and "exact_inv s"
  shows "seq_of (queue s) p \<le> tail_at (queue s) + length (ring (queue s))"
proof -
  define n where "n = length (ring (queue s))"
  have "0 < n" using ring_invD(2) [OF threads_invD(1) [OF assms(1)]] unfolding n_def by linarith
  define p' where "p' = tail_at (queue s) + (p + n * tail_at (queue s) - tail_at (queue s)) mod n"
  have le: "tail_at (queue s) \<le> p + n * tail_at (queue s)" using \<open>0 < n\<close> by (simp add: trans_le_add2)
  have "p' mod n = (tail_at (queue s) + (p + n * tail_at (queue s) - tail_at (queue s))) mod n"
    by (simp add: p'_def mod_add_right_eq)
  also have "\<dots> = p mod n" using le by simp
  finally have "seq_of (queue s) p = seq_of (queue s) p'"
    by (intro same_slot) (simp add: n_def)
  also have "\<dots> \<le> p'" using exact_invD(2) [OF assms(2)] by (simp add: p'_def)
  also have "p' \<le> tail_at (queue s) + n" using \<open>0 < n\<close> by (simp add: p'_def less_imp_le)
  finally show ?thesis by (simp add: n_def)
qed

text \<open>What \<^verbatim>\<open>try_pop\<close> reads when no push is in progress: at the head, a published value or an empty queue;
  at an older position, never an empty queue.\<close>

definition pop_dif :: "'a mpmc_bounded_Queue \<Rightarrow> u64 \<Rightarrow> int" where
  "pop_dif q pos = sint (sequence (node_at q pos) - (pos + 1))"

lemma quiet_pop_dif:
  assumes inv: "threads_inv s" and ex: "exact_inv s" and quiet: "\<And>t. push_pos (pushers s t) = None"
    and len: "length (hist s) + length (ring (queue s)) < 2 ^ 63" and pos: "unat pos \<le> head_at (queue s)"
  shows "unat pos = head_at (queue s) \<Longrightarrow> head_at (queue s) < tail_at (queue s) \<Longrightarrow> pop_dif (queue s) pos = 0"
    and "unat pos = head_at (queue s) \<Longrightarrow> head_at (queue s) = tail_at (queue s) \<Longrightarrow> pop_dif (queue s) pos < 0"
    and "unat pos < head_at (queue s) \<Longrightarrow> 0 \<le> pop_dif (queue s) pos"
proof -
  note I = ring_invD [OF threads_invD(1) [OF inv]]
  note E = exact_invD [OF ex]
  have b: "unat (sequence (node_at (queue s) pos)) < 2 ^ 63"
    using seq_bound [OF inv ex, of "unat pos"] len I(3) by (simp add: node_at_pos [OF I(1)])
  have sp: "unat (pos + 1) = Suc (unat pos)" using pos I(3,4,5) by (intro unat_succ) simp
  have "Suc (unat pos) < 2 ^ 63" using pos I(2,3,5) len by linarith
  with b sp have d: "pop_dif (queue s) pos = int (seq_of (queue s) (unat pos)) - int (Suc (unat pos))"
    unfolding pop_dif_def by (subst sint_diff) (simp_all add: node_at_pos [OF I(1)])
  show "pop_dif (queue s) pos = 0" if "unat pos = head_at (queue s)" "head_at (queue s) < tail_at (queue s)"
    using I(8) [of "unat pos"] E(3) [of "unat pos"] quiet that by (auto simp: d)
  show "pop_dif (queue s) pos < 0" if "unat pos = head_at (queue s)" "head_at (queue s) = tail_at (queue s)"
    unfolding d using E(2) [of "unat pos"] that by linarith
  show "0 \<le> pop_dif (queue s) pos" if "unat pos < head_at (queue s)"
    unfolding d using E(1) [OF that] by linarith
qed

lemma exact_start:
  assumes "new_queue dflt sz = Inr q0"
  shows "exact_inv \<lparr>queue = q0, pushers = (\<lambda>_. PushDone False), poppers = (\<lambda>_. PopDone None), hist = []\<rparr>"
proof -
  have q0: "ring q0 = map (\<lambda>i. \<lparr>sequence = word_of_nat i, node_data = dflt\<rparr>) [0..<unat sz]"
    "head_pos q0 = 0" "tail_pos q0 = 0" and "0 < unat sz"
    using assms by (auto simp: new_queue_def assert_then_def Let_def word_le_nat_alt split: if_splits)
  then have "seq_of q0 p = unat (word_of_nat (p mod unat sz) :: u64)" for p by (simp add: seq_of_def)
  moreover have "unat (word_of_nat (p mod unat sz) :: u64) \<le> p" for p
    by (metis mod_less_eq_dividend order_trans unat_of_nat)
  ultimately show ?thesis using q0 by (simp add: exact_inv_def)
qed

subsection \<open>The pool\<close>

text \<open>A worker is before its test of \<^verbatim>\<open>running\<close>, inside \<^verbatim>\<open>try_pop\<close> (its place there is that of the popper of
  the same number), running a task or yielding; the flag tells the second loop of \<^verbatim>\<open>worker_loop\<close> from the
  first. \<open>executed\<close> is a ghost: the tasks in the order in which they were called.\<close>

datatype 'a worker_pc = WCheck | WPop bool | WYield | WRun bool 'a | WExit

datatype pool_stop_pc = NotStopped | Joining nat | StopOutOfRange | Stopped

record 'a thread_pool =
  running :: bool
  taskQueue :: "'a system"
  threadName :: string
  threadNum :: int
  threads :: "string list"
  workers :: "nat \<Rightarrow> 'a worker_pc"
  stopper :: pool_stop_pc
  executed :: "'a list"

definition ThreadPool :: "'a \<Rightarrow> u64 \<Rightarrow> string \<Rightarrow> int \<Rightarrow> 'a thread_pool outcome" where
  "ThreadPool dflt maxQueueSize nm num =
     and_then (new_queue dflt maxQueueSize) (\<lambda>q.
     Inr \<lparr>running = False, taskQueue = \<lparr>queue = q, pushers = (\<lambda>_. PushDone False),
            poppers = (\<lambda>_. PopDone None), hist = []\<rparr>,
          threadName = nm, threadNum = num, threads = [], workers = (\<lambda>_. WExit),
          stopper = NotStopped, executed = []\<rparr>)"

definition pool_setThreadNum :: "int \<Rightarrow> 'a thread_pool \<Rightarrow> 'a thread_pool" where
  "pool_setThreadNum n p = p\<lparr>threadNum := n\<rparr>"

definition thread_pool_start :: "'a thread_pool \<Rightarrow> 'a thread_pool outcome" where
  "thread_pool_start p = assert_then (threads p = [])
     (Inr (p\<lparr>running := True,
        threads := map (\<lambda>i. threadName p @ show_int i) [0..threadNum p - 1],
        workers := (\<lambda>t. if int t < threadNum p then WCheck else WExit)\<rparr>))"

text \<open>\<^verbatim>\<open>stop\<close>: the store, the joins in order, each of which waits for the exit of its worker.\<close>

definition pool_stop_step :: "'a thread_pool \<Rightarrow> 'a thread_pool" where
  "pool_stop_step p =
    (case stopper p of
       NotStopped \<Rightarrow> p\<lparr>running := False, stopper := Joining 0\<rparr>
     | Joining i \<Rightarrow>
         if int i < threadNum p then
           if i < length (threads p) then
             if workers p i = WExit then p\<lparr>stopper := Joining (Suc i)\<rparr> else p
           else p\<lparr>stopper := StopOutOfRange\<rparr>
         else p\<lparr>stopper := Stopped\<rparr>
     | StopOutOfRange \<Rightarrow> p
     | Stopped \<Rightarrow> p)"

definition enter_pop :: "nat \<Rightarrow> bool \<Rightarrow> 'a thread_pool \<Rightarrow> 'a thread_pool" where
  "enter_pop t drain p = p\<lparr>workers := (workers p)(t := WPop drain),
     taskQueue := (taskQueue p)\<lparr>poppers := (poppers (taskQueue p))(t := PopStart)\<rparr>\<rparr>"

definition worker_step :: "bool \<Rightarrow> nat \<Rightarrow> 'a thread_pool \<Rightarrow> 'a thread_pool" where
  "worker_step spur t p =
    (case workers p t of
       WCheck \<Rightarrow> enter_pop t (\<not> running p) p
     | WPop drain \<Rightarrow>
         (case poppers (taskQueue p) t of
            PopDone (Some task) \<Rightarrow> p\<lparr>workers := (workers p)(t := WRun drain task)\<rparr>
          | PopDone None \<Rightarrow> p\<lparr>workers := (workers p)(t := if drain then WExit else WYield)\<rparr>
          | pc \<Rightarrow>
              (case pop_step spur (queue (taskQueue p)) pc of (q', pc') \<Rightarrow>
                 p\<lparr>taskQueue := (taskQueue p)\<lparr>queue := q', poppers := (poppers (taskQueue p))(t := pc')\<rparr>\<rparr>))
     | WYield \<Rightarrow> p\<lparr>workers := (workers p)(t := WCheck)\<rparr>
     | WRun drain task \<Rightarrow>
         (let p = p\<lparr>executed := executed p @ [task]\<rparr>
          in if drain then enter_pop t True p else p\<lparr>workers := (workers p)(t := WCheck)\<rparr>)
     | WExit \<Rightarrow> p)"

text \<open>\<^verbatim>\<open>submit\<close> calls \<^verbatim>\<open>push\<close>, which calls \<^verbatim>\<open>try_push\<close> until it succeeds or gives up; each call is one
  \<open>submit_call\<close>. Tasks return.\<close>

inductive pool_step :: "'a thread_pool \<Rightarrow> 'a thread_pool \<Rightarrow> bool" where
  submit_call: "pushers (taskQueue p) t = PushDone r \<Longrightarrow>
     pool_step p (p\<lparr>taskQueue := (taskQueue p)\<lparr>pushers := (pushers (taskQueue p))(t := PushStart x)\<rparr>\<rparr>)"
| submit_access: "push_step spur (queue (taskQueue p)) (pushers (taskQueue p) t) = (q', pc') \<Longrightarrow>
     pool_step p (p\<lparr>taskQueue := (taskQueue p)\<lparr>queue := q', pushers := (pushers (taskQueue p))(t := pc'),
       hist := hist (taskQueue p) @ claims spur (queue (taskQueue p)) (pushers (taskQueue p) t)\<rparr>\<rparr>)"
| work: "t < length (threads p) \<Longrightarrow> pool_step p (worker_step spur t p)"
| stop: "pool_step p (pool_stop_step p)"

text \<open>Fewer than \<open>2 ^ 62\<close> tasks are accepted in all.\<close>

inductive pool_reachable :: "'a thread_pool \<Rightarrow> 'a thread_pool \<Rightarrow> bool" for p0 where
  start: "pool_reachable p0 p0"
| step: "pool_reachable p0 p \<Longrightarrow> pool_step p p' \<Longrightarrow> length (hist (taskQueue p')) < 2 ^ 62 \<Longrightarrow>
    pool_reachable p0 p'"

text \<open>A quiet run: steps of workers and of \<^verbatim>\<open>stop\<close>, no \<^verbatim>\<open>submit\<close>. The number counts the steps; spurious failures
  of the compare-and-swap are possible when the flag is set.\<close>

inductive quiet_run :: "bool \<Rightarrow> 'a thread_pool \<Rightarrow> nat \<Rightarrow> 'a thread_pool \<Rightarrow> bool" for weak where
  here: "quiet_run weak p 0 p"
| work: "quiet_run weak p n p' \<Longrightarrow> t < length (threads p') \<Longrightarrow> workers p' t \<noteq> WExit \<Longrightarrow> (spur \<Longrightarrow> weak) \<Longrightarrow>
    quiet_run weak p (Suc n) (worker_step spur t p')"
| stop: "quiet_run weak p n p' \<Longrightarrow> pool_stop_step p' \<noteq> p' \<Longrightarrow> quiet_run weak p (Suc n) (pool_stop_step p')"

subsection \<open>Every task is queued, in the hand of one worker, or was run once\<close>

fun pop_done :: "'a pop_pc \<Rightarrow> bool" where
  "pop_done (PopDone r) = True"
| "pop_done _ = False"

lemma pop_done_iff: "pop_done pc \<longleftrightarrow> (\<exists>r. pc = PopDone r)"
  by (cases pc) auto

fun draining :: "'a worker_pc \<Rightarrow> bool" where
  "draining (WPop d) = d"
| "draining (WRun d x) = d"
| "draining WExit = True"
| "draining _ = False"

text \<open>The task a worker has taken and not yet called; \<open>h\<close> are the accepted tasks.\<close>

fun hand :: "'a list \<Rightarrow> 'a worker_pc \<Rightarrow> 'a pop_pc \<Rightarrow> 'a multiset" where
  "hand h (WRun d x) pc = {#x#}"
| "hand h (WPop d) (PopFetch pos) = {#h ! unat pos#}"
| "hand h (WPop d) (PopRelease pos x) = {#x#}"
| "hand h (WPop d) (PopDone (Some x)) = {#x#}"
| "hand h w pc = {#}"

abbreviation taken :: "'a thread_pool \<Rightarrow> 'a multiset" where
  "taken p \<equiv> mset (take (head_at (queue (taskQueue p))) (hist (taskQueue p)))"

abbreviation in_hand :: "'a thread_pool \<Rightarrow> nat \<Rightarrow> 'a multiset" where
  "in_hand p t \<equiv> hand (hist (taskQueue p)) (workers p t) (poppers (taskQueue p) t)"

definition pool_inv :: "'a thread_pool \<Rightarrow> bool" where
  "pool_inv p \<longleftrightarrow> threads_inv (taskQueue p) \<and> exact_inv (taskQueue p)
     \<and> length (hist (taskQueue p)) < 2 ^ 62 \<and> length (ring (queue (taskQueue p))) \<le> 2 ^ 62
     \<and> (\<forall>t. t < length (threads p) \<and> (\<exists>d. workers p t = WPop d) \<or> pop_done (poppers (taskQueue p) t))
     \<and> mset (executed p) + (\<Sum>t < length (threads p). in_hand p t) = taken p
     \<and> (running p \<longrightarrow> (\<forall>t < length (threads p). \<not> draining (workers p t)))
     \<and> (running p \<longleftrightarrow> stopper p = NotStopped) \<and> nat (threadNum p) = length (threads p)"

lemma pool_invD:
  assumes "pool_inv p"
  shows "threads_inv (taskQueue p)" "exact_inv (taskQueue p)" "length (hist (taskQueue p)) < 2 ^ 62"
    "length (ring (queue (taskQueue p))) \<le> 2 ^ 62"
    "(\<And>d. workers p t \<noteq> WPop d) \<Longrightarrow> pop_done (poppers (taskQueue p) t)"
    "mset (executed p) + (\<Sum>t < length (threads p). in_hand p t) = taken p"
    "running p \<Longrightarrow> t < length (threads p) \<Longrightarrow> \<not> draining (workers p t)"
    "running p \<longleftrightarrow> stopper p = NotStopped" "nat (threadNum p) = length (threads p)"
  using assms by (auto simp: pool_inv_def)

lemma sum_upd:
  fixes f g :: "nat \<Rightarrow> 'b::comm_monoid_add"
  assumes "t < n" and "\<And>u. u \<noteq> t \<Longrightarrow> g u = f u"
  shows "sum g {..<n} + f t = sum f {..<n} + g t"
proof -
  have "sum g {..<n} = g t + sum g ({..<n} - {t})" "sum f {..<n} = f t + sum f ({..<n} - {t})"
    using assms(1) by (simp_all add: sum.remove)
  moreover have "sum g ({..<n} - {t}) = sum f ({..<n} - {t})"
    using assms(2) by (intro sum.cong) auto
  ultimately show ?thesis by (simp add: ac_simps)
qed

lemma move_cancel:
  fixes e :: "'b::cancel_comm_monoid_add"
  assumes "e' + h' + T = e + h + T'" and "e + S = T" and "S' + h = S + h'"
  shows "e' + S' = T'"
proof -
  have "e + h + (e' + S') = e + (e' + (S' + h))" by (simp add: ac_simps)
  also have "\<dots> = e' + h' + (e + S)" unfolding assms(3) by (simp add: ac_simps)
  also have "\<dots> = e + h + T'" using assms(1,2) by simp
  finally show ?thesis by simp
qed

lemma pool_inv_work:
  assumes inv: "pool_inv p" and t: "t < length (threads p)"
    and step: "queue_step (taskQueue p) (taskQueue p') \<or> taskQueue p' = taskQueue p"
    and same: "hist (taskQueue p') = hist (taskQueue p)" "threads p' = threads p" "running p' = running p"
      "stopper p' = stopper p" "threadNum p' = threadNum p"
      "length (ring (queue (taskQueue p'))) = length (ring (queue (taskQueue p)))"
    and others: "\<And>u. u \<noteq> t \<Longrightarrow> workers p' u = workers p u \<and> poppers (taskQueue p') u = poppers (taskQueue p) u"
    and mine: "(\<exists>d. workers p' t = WPop d) \<or> pop_done (poppers (taskQueue p') t)"
    and drain: "running p \<Longrightarrow> \<not> draining (workers p' t)"
    and moved: "mset (executed p') + in_hand p' t + taken p = mset (executed p) + in_hand p t + taken p'"
  shows "pool_inv p'"
proof -
  note D = pool_invD [OF inv]
  have s: "threads_inv (taskQueue p') \<and> exact_inv (taskQueue p')"
    using step D(1-3) queue_step_inv exact_step same(1) by fastforce
  have hands: "(\<Sum>u < length (threads p). in_hand p' u) + in_hand p t
      = (\<Sum>u < length (threads p). in_hand p u) + in_hand p' t"
    using t others by (intro sum_upd) (auto simp: same)
  have "mset (executed p') + (\<Sum>u < length (threads p). in_hand p' u) = taken p'"
    by (rule move_cancel [OF moved D(6) hands])
  moreover have "u < length (threads p) \<and> (\<exists>d. workers p' u = WPop d) \<or> pop_done (poppers (taskQueue p') u)" for u
    using inv others [of u] mine t by (cases "u = t") (auto simp: pool_inv_def)
  moreover have "running p \<longrightarrow> (\<forall>u < length (threads p). \<not> draining (workers p' u))"
    using D(7) drain others by metis
  ultimately show ?thesis
    using s D(3,4,8,9) by (simp add: pool_inv_def same)
qed

lemma length_ring_pop: "pop_step spur q pc = (q', pc') \<Longrightarrow> length (ring q') = length (ring q)"
  by (cases pc) (auto simp: Let_def set_sequence_def split: if_splits)

lemma pop_access_moved:
  assumes "threads_inv s" and "\<not> pop_done (poppers s t)"
    and "pop_step spur (queue s) (poppers s t) = (q', pc')"
  shows "hand (hist s) (WPop d) pc' + mset (take (head_at (queue s)) (hist s))
    = hand (hist s) (WPop d) (poppers s t) + mset (take (head_at q') (hist s))"
proof (cases "poppers s t")
  case (PopCas pos)
  note D = threads_invD [OF assms(1)]
  note I = ring_invD [OF D(1)]
  show ?thesis
  proof (cases "\<not> spur \<and> head_pos (queue s) = pos")
    case True
    have seq: "seq_of (queue s) (head_at (queue s)) = Suc (head_at (queue s))"
      using D(3) [of t] PopCas True by auto
    have lt: "head_at (queue s) < length (hist s)" using I(7) [OF seq] I(3) by simp
    then have "head_at q' = Suc (head_at (queue s))" and "pc' = PopFetch pos"
      using assms(3) PopCas True I(4) by (auto simp: unat_succ)
    with lt True PopCas show ?thesis by (simp add: take_Suc_conv_app_nth)
  next
    case False
    with PopCas assms(3) show ?thesis by (auto split: if_splits)
  qed
next
  case (PopFetch pos)
  note D = threads_invD [OF assms(1)]
  have "node_data (node_at (queue s) pos) = hist s ! unat pos"
    using D(3) [of t] PopFetch node_at_pos(2) [OF ring_invD(1) [OF D(1)]] by (simp add: pop_owner_def)
  with PopFetch assms(3) show ?thesis by auto
qed (use assms in \<open>auto simp: Let_def split: if_splits\<close>)

lemma worker_step_inv:
  assumes inv: "pool_inv p" and t: "t < length (threads p)"
  shows "pool_inv (worker_step spur t p)"
proof (cases "workers p t")
  case WCheck
  then obtain r where "poppers (taskQueue p) t = PopDone r"
    using pool_invD(5) [OF inv, of t] by (auto simp: pop_done_iff)
  with WCheck show ?thesis
    by (intro pool_inv_work [OF inv t])
      (auto simp: worker_step_def enter_pop_def intro: queue_step.pop_call split: option.splits)
next
  case (WPop d)
  show ?thesis
  proof (cases "pop_done (poppers (taskQueue p) t)")
    case True
    then obtain r where "poppers (taskQueue p) t = PopDone r" by (auto simp: pop_done_iff)
    with WPop pool_invD(7) [OF inv _ t] show ?thesis
      by (intro pool_inv_work [OF inv t]) (auto simp: worker_step_def split: option.splits)
  next
    case False
    obtain q' pc' where st: "pop_step spur (queue (taskQueue p)) (poppers (taskQueue p) t) = (q', pc')"
      by fastforce
    have w: "worker_step spur t p =
        p\<lparr>taskQueue := (taskQueue p)\<lparr>queue := q', poppers := (poppers (taskQueue p))(t := pc')\<rparr>\<rparr>"
      using False WPop st by (cases "poppers (taskQueue p) t") (auto simp: worker_step_def)
    show ?thesis
      using pop_access_moved [OF pool_invD(1) [OF inv] False st, of d] WPop length_ring_pop [OF st]
        pool_invD(7) [OF inv _ t]
      by (intro pool_inv_work [OF inv t]) (auto simp: w intro: queue_step.pop_access [OF st])
  qed
next
  case WYield
  with pool_invD(5) [OF inv, of t] show ?thesis
    by (intro pool_inv_work [OF inv t]) (auto simp: worker_step_def)
next
  case (WRun d x)
  then obtain r where "poppers (taskQueue p) t = PopDone r"
    using pool_invD(5) [OF inv, of t] by (auto simp: pop_done_iff)
  with WRun pool_invD(7) [OF inv _ t] show ?thesis
    by (intro pool_inv_work [OF inv t])
      (auto simp: worker_step_def enter_pop_def Let_def intro: queue_step.pop_call split: if_splits)
next
  case WExit
  then show ?thesis using inv by (simp add: worker_step_def)
qed

lemma pool_stop_inv: "pool_inv p \<Longrightarrow> pool_inv (pool_stop_step p)"
  by (auto simp: pool_stop_step_def pool_inv_def split: pool_stop_pc.split)

lemma hand_append:
  "pop_ok q h pc \<Longrightarrow> head_at q \<le> length h \<Longrightarrow> hand (h @ c) w pc = hand h w pc"
  by (cases "(h, w, pc)" rule: hand.cases) (auto simp: pop_owner_def nth_append)

lemma push_step_keeps: "push_step spur q pc = (q', pc') \<Longrightarrow> head_pos q' = head_pos q \<and> length (ring q') = length (ring q)"
  by (cases pc) (auto simp: Let_def set_sequence_def set_data_def split: if_splits)

lemma submit_access_inv:
  fixes p :: "'a thread_pool"
  defines "s \<equiv> taskQueue p"
  assumes inv: "pool_inv p" and st: "push_step spur (queue s) (pushers s t) = (q', pc')"
    and len: "length (hist s @ claims spur (queue s) (pushers s t)) < 2 ^ 62"
  shows "pool_inv (p\<lparr>taskQueue := s\<lparr>queue := q', pushers := (pushers s)(t := pc'),
    hist := hist s @ claims spur (queue s) (pushers s t)\<rparr>\<rparr>)"
proof -
  note D = pool_invD [OF inv, folded s_def]
  note T = threads_invD [OF D(1)]
  let ?s = "s\<lparr>queue := q', pushers := (pushers s)(t := pc'), hist := hist s @ claims spur (queue s) (pushers s t)\<rparr>"
  have "length (hist ?s) < 2 ^ 63" using len by simp
  with queue_step.push_access [OF st] D(1,2) have "threads_inv ?s" "exact_inv ?s"
    by (blast intro: queue_step_inv exact_step)+
  moreover have h: "head_at (queue s) \<le> length (hist s)" using ring_invD(3,5) [OF T(1)] by simp
  moreover have "hand (hist s @ claims spur (queue s) (pushers s t)) w (poppers s u)
      = hand (hist s) w (poppers s u)" for w u
    using hand_append [OF T(3) h] .
  ultimately show ?thesis
    using inv len push_step_keeps [OF st] by (simp add: pool_inv_def s_def)
qed

lemma pool_step_inv:
  assumes "pool_step p p'" and "pool_inv p" and "length (hist (taskQueue p')) < 2 ^ 62"
  shows "pool_inv p'"
  using assms
proof (cases rule: pool_step.cases)
  case (submit_call t r x)
  have "exact_inv ((taskQueue p)\<lparr>pushers := (pushers (taskQueue p))(t := PushStart x)\<rparr>)"
    "threads_inv ((taskQueue p)\<lparr>pushers := (pushers (taskQueue p))(t := PushStart x)\<rparr>)"
    using queue_step.push_call [OF submit_call(2)] pool_invD(1-3) [OF assms(2)]
    by (auto intro!: exact_step [of "taskQueue p"] queue_step_inv [of "taskQueue p"])
  with submit_call assms(2) show ?thesis by (simp add: pool_inv_def)
next
  case (submit_access spur t q' pc')
  with assms(2,3) show ?thesis using submit_access_inv by auto
next
  case (work t spur)
  with assms(2) show ?thesis by (simp add: worker_step_inv)
next
  case stop
  with assms(2) show ?thesis by (simp add: pool_stop_inv)
qed

lemma pool_start_inv:
  assumes "ThreadPool dflt sz nm num = Inr p" and "thread_pool_start p = Inr p0" and "sz \<le> 2 ^ 62"
  shows "pool_inv p0"
proof -
  obtain q where q: "new_queue dflt sz = Inr q" and p: "p = \<lparr>running = False, taskQueue = \<lparr>queue = q,
      pushers = (\<lambda>_. PushDone False), poppers = (\<lambda>_. PopDone None), hist = []\<rparr>, threadName = nm,
      threadNum = num, threads = [], workers = (\<lambda>_. WExit), stopper = NotStopped, executed = []\<rparr>"
    using assms(1) by (auto simp: ThreadPool_def outcome_elims)
  have sz: "2 \<le> sz" "sz AND (sz - 1) = 0" "length (ring q) = unat sz"
    using q by (auto simp: new_queue_def assert_then_def Let_def split: if_splits)
  have "unat sz \<le> 2 ^ 62" using assms(3) by (simp add: word_le_nat_alt)
  with assms(2) new_queue_inv [OF sz(1,2) q] exact_start [OF q] sz(3) show ?thesis
    by (auto simp: thread_pool_start_def p pool_inv_def assert_then_def zless_nat_eq_int_zless
        intro!: sum.neutral split: if_splits)
qed

lemma pool_reachable_inv: "pool_reachable p0 p \<Longrightarrow> pool_inv p0 \<Longrightarrow> pool_inv p"
  by (induction rule: pool_reachable.induct) (simp_all add: pool_step_inv)

subsection \<open>After stop\<close>

definition gone :: "'a thread_pool \<Rightarrow> nat \<Rightarrow> bool" where
  "gone p t \<longleftrightarrow> workers p t = WExit \<or> workers p t = WPop True \<and> poppers (taskQueue p) t = PopDone None"

fun joined :: "'a thread_pool \<Rightarrow> pool_stop_pc \<Rightarrow> bool" where
  "joined p (Joining i) \<longleftrightarrow> i \<le> length (threads p) \<and> (\<forall>j < i. workers p j = WExit)"
| "joined p Stopped \<longleftrightarrow> (\<forall>j < length (threads p). workers p j = WExit)"
| "joined p _ \<longleftrightarrow> False"

text \<open>The tasks \<open>h\<close> are all there will be; a worker that leaves has seen the queue empty.\<close>

definition sealed :: "'a list \<Rightarrow> 'a thread_pool \<Rightarrow> bool" where
  "sealed h p \<longleftrightarrow> pool_inv p \<and> \<not> running p \<and> hist (taskQueue p) = h
     \<and> (\<forall>t. push_pos (pushers (taskQueue p) t) = None)
     \<and> (\<forall>t < length (threads p). gone p t \<longrightarrow> head_at (queue (taskQueue p)) = length h)
     \<and> joined p (stopper p)"

lemma sealedD:
  assumes "sealed h p"
  shows "pool_inv p" "\<not> running p" "hist (taskQueue p) = h" "push_pos (pushers (taskQueue p) t) = None"
    "t < length (threads p) \<Longrightarrow> gone p t \<Longrightarrow> head_at (queue (taskQueue p)) = length h" "joined p (stopper p)"
  using assms by (auto simp: sealed_def)

lemma pop_head:
  assumes "threads_inv s" and "pop_step spur (queue s) (poppers s t) = (q', pc')"
  shows "head_at q' = head_at (queue s) \<or> head_at q' = Suc (head_at (queue s)) \<and>
    \<not> spur \<and> poppers s t = PopCas (head_pos (queue s)) \<and> pc' = PopFetch (head_pos (queue s))"
proof (cases "poppers s t")
  case (PopCas pos)
  note I = ring_invD [OF threads_invD(1) [OF assms(1)]]
  have "unat (head_pos (queue s) + 1) = Suc (head_at (queue s))" using I(3,4,5) by (intro unat_succ) simp
  with PopCas assms(2) show ?thesis by (auto split: if_splits)
qed (use assms in \<open>auto simp: Let_def split: if_splits\<close>)

lemma sealed_pop_dif:
  assumes "sealed h p" and "poppers (taskQueue p) t = PopRead pos"
  shows "unat pos \<le> head_at (queue (taskQueue p))"
    and "pop_dif (queue (taskQueue p)) pos < 0 \<Longrightarrow>
      pos = head_pos (queue (taskQueue p)) \<and> head_at (queue (taskQueue p)) = length h"
    and "pos = head_pos (queue (taskQueue p)) \<Longrightarrow> pop_dif (queue (taskQueue p)) pos \<le> 0"
proof -
  note S = sealedD [OF assms(1)]
  note D = pool_invD [OF S(1)]
  note I = ring_invD [OF threads_invD(1) [OF D(1)]]
  show pos: "unat pos \<le> head_at (queue (taskQueue p))" using threads_invD(3) [OF D(1), of t] assms(2) by simp
  have "length (hist (taskQueue p)) + length (ring (queue (taskQueue p))) < 2 ^ 63" using D(3,4) by simp
  note Q = quiet_pop_dif [OF D(1,2) S(4) this pos]
  show "pos = head_pos (queue (taskQueue p)) \<and> head_at (queue (taskQueue p)) = length h"
    if "pop_dif (queue (taskQueue p)) pos < 0"
  proof -
    have "unat pos = head_at (queue (taskQueue p))" using Q(3) that pos by linarith
    moreover from this Q(1) that I(5) have "head_at (queue (taskQueue p)) = tail_at (queue (taskQueue p))"
      by linarith
    ultimately show ?thesis using I(3) S(3) by (simp add: word_unat_eq_iff)
  qed
  show "pop_dif (queue (taskQueue p)) pos \<le> 0" if "pos = head_pos (queue (taskQueue p))"
    using Q(1,2) that I(5) by fastforce
qed

lemma worker_pop:
  assumes "workers p t = WPop d" and "\<not> pop_done (poppers (taskQueue p) t)"
    and "pop_step spur (queue (taskQueue p)) (poppers (taskQueue p) t) = (q', pc')"
  shows "worker_step spur t p =
    p\<lparr>taskQueue := (taskQueue p)\<lparr>queue := q', poppers := (poppers (taskQueue p))(t := pc')\<rparr>\<rparr>"
  using assms by (cases "poppers (taskQueue p) t") (auto simp: worker_step_def)

lemma worker_head:
  assumes "pool_inv p" and "t < length (threads p)"
  shows "head_at (queue (taskQueue p)) \<le> head_at (queue (taskQueue (worker_step spur t p)))"
proof (cases "\<exists>d. workers p t = WPop d \<and> \<not> pop_done (poppers (taskQueue p) t)")
  case True
  then obtain d where d: "workers p t = WPop d" "\<not> pop_done (poppers (taskQueue p) t)" by blast
  obtain q' pc' where st: "pop_step spur (queue (taskQueue p)) (poppers (taskQueue p) t) = (q', pc')"
    by fastforce
  show ?thesis using pop_head [OF pool_invD(1) [OF assms(1)] st] by (auto simp: worker_pop [OF d st])
next
  case False
  then have "queue (taskQueue (worker_step spur t p)) = queue (taskQueue p)"
    by (auto simp: worker_step_def enter_pop_def Let_def pop_done_iff split: worker_pc.split option.split)
  then show ?thesis by simp
qed

lemma worker_keeps:
  "hist (taskQueue (worker_step spur t p)) = hist (taskQueue p)"
  "pushers (taskQueue (worker_step spur t p)) = pushers (taskQueue p)"
  "running (worker_step spur t p) = running p" "stopper (worker_step spur t p) = stopper p"
  "threads (worker_step spur t p) = threads p" "threadNum (worker_step spur t p) = threadNum p"
  "u \<noteq> t \<Longrightarrow> workers (worker_step spur t p) u = workers p u"
  "u \<noteq> t \<Longrightarrow> poppers (taskQueue (worker_step spur t p)) u = poppers (taskQueue p) u"
  "workers p u = WExit \<Longrightarrow> workers (worker_step spur t p) u = WExit"
  by (auto simp: worker_step_def enter_pop_def Let_def
      split: worker_pc.split pop_pc.split option.split prod.split)

lemma gone_only_by_pop:
  assumes "gone (worker_step spur t p) t" and "\<not> gone p t"
  shows "workers p t = WPop True \<and> \<not> pop_done (poppers (taskQueue p) t)"
proof (cases "workers p t")
  case (WPop d)
  show ?thesis
  proof (cases "pop_done (poppers (taskQueue p) t)")
    case True
    with assms WPop show ?thesis
      by (cases d) (auto simp: gone_def worker_step_def pop_done_iff split: option.splits)
  next
    case False
    obtain q' pc' where "pop_step spur (queue (taskQueue p)) (poppers (taskQueue p) t) = (q', pc')"
      by fastforce
    with worker_pop [OF WPop False this] assms WPop False show ?thesis by (simp add: gone_def)
  qed
qed (use assms in \<open>simp_all add: gone_def worker_step_def enter_pop_def Let_def split: if_splits\<close>)

lemma pop_step_none:
  assumes "pop_step spur q pc = (q', PopDone None)" and "\<not> pop_done pc"
  shows "\<exists>pos. pc = PopRead pos \<and> pop_dif q pos < 0 \<and> q' = q"
  using assms by (cases pc) (simp_all add: Let_def pop_dif_def split: if_splits)

lemma worker_step_gone:
  assumes "sealed h p" and "t < length (threads p)" and "gone (worker_step spur t p) t"
  shows "head_at (queue (taskQueue (worker_step spur t p))) = length h"
proof (cases "gone p t")
  case True
  have inv: "pool_inv (worker_step spur t p)" using worker_step_inv sealedD(1) assms(1,2) by blast
  have "head_at (queue (taskQueue (worker_step spur t p))) \<le> length h"
    using ring_invD(3,5) [OF threads_invD(1) [OF pool_invD(1) [OF inv]]] sealedD(3) [OF assms(1)]
    by (simp add: worker_keeps)
  with sealedD(5) [OF assms(1,2) True] worker_head [OF sealedD(1) [OF assms(1)] assms(2), of spur]
  show ?thesis by simp
next
  case False
  obtain q' pc' where st: "pop_step spur (queue (taskQueue p)) (poppers (taskQueue p) t) = (q', pc')"
    by fastforce
  have w: "workers p t = WPop True" "\<not> pop_done (poppers (taskQueue p) t)"
    using gone_only_by_pop [OF assms(3) False] by simp_all
  have e: "pc' = PopDone None" "queue (taskQueue (worker_step spur t p)) = q'"
    using assms(3) w(1) unfolding worker_pop [OF w st] gone_def by simp_all
  obtain pos where "poppers (taskQueue p) t = PopRead pos" "pop_dif (queue (taskQueue p)) pos < 0"
      "q' = queue (taskQueue p)"
    using pop_step_none [OF st [unfolded e(1)] w(2)] by blast
  with sealed_pop_dif(2) [OF assms(1)] show ?thesis unfolding e(2) by blast
qed

lemma sealed_worker:
  assumes "sealed h p" and "t < length (threads p)"
  shows "sealed h (worker_step spur t p)"
proof -
  note S = sealedD [OF assms(1)]
  let ?p = "worker_step spur t p"
  have inv: "pool_inv ?p" using worker_step_inv S(1) assms(2) by blast
  have "head_at (queue (taskQueue ?p)) = length h" if u: "u < length (threads p)" "gone ?p u" for u
  proof (cases "u = t")
    case True
    with worker_step_gone [OF assms] u show ?thesis by simp
  next
    case False
    then have "gone p u" using u(2) by (simp add: gone_def worker_keeps)
    then have "head_at (queue (taskQueue p)) = length h" using S(5) u(1) by blast
    moreover have "head_at (queue (taskQueue ?p)) \<le> length h"
      using ring_invD(3,5) [OF threads_invD(1) [OF pool_invD(1) [OF inv]]] S(3) by (simp add: worker_keeps)
    ultimately show ?thesis using worker_head [OF S(1) assms(2), of spur] by simp
  qed
  moreover have "joined ?p (stopper ?p)"
    using S(6) by (cases "stopper p") (auto simp: worker_keeps)
  ultimately show ?thesis using S inv by (simp add: sealed_def worker_keeps)
qed

lemma sealed_stop:
  assumes "sealed h p"
  shows "sealed h (pool_stop_step p)"
proof -
  note S = sealedD [OF assms]
  have inv: "pool_inv (pool_stop_step p)" using pool_stop_inv S(1) .
  have "nat (threadNum p) = length (threads p)" using pool_invD(9) [OF S(1)] .
  then have "joined (pool_stop_step p) (stopper (pool_stop_step p))"
    using S(6) by (cases "stopper p") (auto simp: pool_stop_step_def less_Suc_eq)
  moreover have "taskQueue (pool_stop_step p) = taskQueue p" "workers (pool_stop_step p) = workers p"
      "threads (pool_stop_step p) = threads p" "\<not> running (pool_stop_step p)"
    using S(2) by (auto simp: pool_stop_step_def split: pool_stop_pc.split)
  ultimately show ?thesis using assms inv by (simp add: sealed_def gone_def)
qed

lemma quiet_run_sealed: "quiet_run weak p n p' \<Longrightarrow> sealed h p \<Longrightarrow> sealed h p'"
  by (induction rule: quiet_run.induct) (simp_all add: sealed_worker sealed_stop)

lemma stop_seals:
  assumes "pool_inv p" and "running p" and "\<And>t. \<exists>r. pushers (taskQueue p) t = PushDone r"
  shows "sealed (hist (taskQueue p)) (pool_stop_step p)"
proof -
  note D = pool_invD [OF assms(1)]
  have "stopper p = NotStopped" using D(8) assms(2) by simp
  moreover have "\<not> gone p t" if "t < length (threads p)" for t
    using D(7) [OF assms(2) that] by (auto simp: gone_def)
  moreover have "push_pos (pushers (taskQueue p) t) = None" for t
    using assms(3) [of t] by auto
  ultimately show ?thesis
    using pool_stop_inv [OF assms(1)] by (auto simp: sealed_def pool_stop_step_def gone_def)
qed

lemma sealed_stopped:
  assumes "sealed h p" and "stopper p = Stopped" and "threads p \<noteq> []"
  shows "mset (executed p) = mset h"
proof -
  note S = sealedD [OF assms(1)]
  have ex: "workers p t = WExit" if "t < length (threads p)" for t using S(6) assms(2) that by simp
  then have "(\<Sum>t < length (threads p). in_hand p t) = {#}" by (intro sum.neutral) simp
  moreover have "head_at (queue (taskQueue p)) = length h"
    using S(5) [of 0] ex [of 0] assms(3) by (simp add: gone_def)
  ultimately show ?thesis using pool_invD(6) [OF S(1)] S(3) by simp
qed

subsection \<open>stop returns\<close>

text \<open>How far a worker is from its exit, in steps without another head: a worker whose position is behind the head
  has to read again.\<close>

fun pop_weight :: "u64 \<Rightarrow> 'a pop_pc \<Rightarrow> nat" where
  "pop_weight hp PopStart = 3"
| "pop_weight hp (PopRead pos) = (if pos = hp then 2 else 5)"
| "pop_weight hp (PopCas pos) = (if pos = hp then 1 else 3)"
| "pop_weight hp (PopFetch pos) = 7"
| "pop_weight hp (PopRelease pos x) = 6"
| "pop_weight hp (PopDone (Some x)) = 5"
| "pop_weight hp (PopDone None) = 1"

fun worker_weight :: "u64 \<Rightarrow> 'a worker_pc \<Rightarrow> 'a pop_pc \<Rightarrow> nat" where
  "worker_weight hp WExit pc = 0"
| "worker_weight hp WCheck pc = 4"
| "worker_weight hp WYield pc = 5"
| "worker_weight hp (WRun d x) pc = (if d then 4 else 5)"
| "worker_weight hp (WPop d) pc = (if d then 0 else 5) + pop_weight hp pc"

abbreviation wt :: "'a thread_pool \<Rightarrow> nat \<Rightarrow> nat" where
  "wt p t \<equiv> worker_weight (head_pos (queue (taskQueue p))) (workers p t) (poppers (taskQueue p) t)"

fun stop_weight :: "nat \<Rightarrow> pool_stop_pc \<Rightarrow> nat" where
  "stop_weight n (Joining i) = Suc n - i"
| "stop_weight n _ = 0"

definition potential :: "'a thread_pool \<Rightarrow> nat" where
  "potential p = (3 * length (threads p) + 10) * (length (hist (taskQueue p)) - head_at (queue (taskQueue p)))
     + (\<Sum>t < length (threads p). wt p t) + stop_weight (length (threads p)) (stopper p)"

lemma pop_weight_bounds: "pop_weight hp pc \<le> 7" "pop_weight hp' pc \<le> pop_weight hp pc + 3"
  by (cases "(hp, pc)" rule: pop_weight.cases; simp)+

lemma worker_weight_bounds:
  "worker_weight hp w pc \<le> 12" "worker_weight hp' w pc \<le> worker_weight hp w pc + 3"
  using pop_weight_bounds(1) [of hp pc] pop_weight_bounds(2) [of hp' pc hp] by (cases w; simp)+

text \<open>A step that does not move the head brings its worker nearer to its exit.\<close>

lemma pop_weight_less:
  assumes "pop_step False q pc = (q', pc')" and "\<not> pop_done pc" and "head_pos q' = head_pos q"
    and "\<And>pos. pc = PopRead pos \<Longrightarrow>
      (pop_dif q pos < 0 \<longrightarrow> pos = head_pos q) \<and> (pos = head_pos q \<longrightarrow> pop_dif q pos \<le> 0)"
  shows "pop_weight (head_pos q) pc' < pop_weight (head_pos q) pc"
proof (cases pc)
  case (PopRead pos)
  have "pc' = snd (pop_step False q pc)" using assms(1) by simp
  also have "\<dots> = (if pop_dif q pos = 0 then PopCas pos else if pop_dif q pos < 0 then PopDone None else PopStart)"
    unfolding PopRead pop_step.simps Let_def pop_dif_def snd_conv ..
  finally have pc': "pc' = (if pop_dif q pos = 0 then PopCas pos else if pop_dif q pos < 0 then PopDone None else PopStart)" .
  consider "pop_dif q pos = 0" | "pop_dif q pos < 0" "pos = head_pos q" | "0 < pop_dif q pos" "pos \<noteq> head_pos q"
    using assms(4) [OF PopRead] by fastforce
  then show ?thesis by cases (simp_all add: PopRead pc')
next
  case (PopCas pos)
  show ?thesis
  proof (cases "head_pos q = pos")
    case True
    then have "q' = q\<lparr>head_pos := pos + 1\<rparr>" using assms(1) unfolding PopCas by simp
    then have "head_pos q' = pos + 1" by simp
    with assms(3) True show ?thesis by simp
  next
    case False
    then have "pc' = PopRead (head_pos q)" using assms(1) unfolding PopCas by auto
    with False show ?thesis unfolding PopCas by simp
  qed
next
  case PopStart
  then have "pc' = PopRead (head_pos q)" using assms(1) by auto
  then show ?thesis unfolding PopStart by simp
next
  case (PopFetch pos)
  then have "pc' = PopRelease pos (node_data (node_at q pos))" using assms(1) by auto
  then show ?thesis unfolding PopFetch by simp
next
  case (PopRelease pos x)
  then have "pc' = PopDone (Some x)" using assms(1) by simp
  then show ?thesis unfolding PopRelease by simp
next
  case (PopDone r)
  with assms(2) show ?thesis by simp
qed

lemma worker_weight_less:
  assumes "sealed h p" and "workers p t \<noteq> WExit"
    and "head_at (queue (taskQueue (worker_step False t p))) = head_at (queue (taskQueue p))"
  shows "wt (worker_step False t p) t < wt p t"
proof (cases "\<exists>d. workers p t = WPop d \<and> \<not> pop_done (poppers (taskQueue p) t)")
  case True
  then obtain d where d: "workers p t = WPop d" "\<not> pop_done (poppers (taskQueue p) t)" by blast
  obtain q' pc' where st: "pop_step False (queue (taskQueue p)) (poppers (taskQueue p) t) = (q', pc')"
    by fastforce
  note w = worker_pop [OF d st]
  have hq: "head_pos q' = head_pos (queue (taskQueue p))" using assms(3) by (simp add: w word_unat_eq_iff)
  have "pop_weight (head_pos (queue (taskQueue p))) pc' <
      pop_weight (head_pos (queue (taskQueue p))) (poppers (taskQueue p) t)"
    using sealed_pop_dif(2,3) [OF assms(1)] by (intro pop_weight_less [OF st d(2) hq]) blast
  with d show ?thesis by (simp add: w hq)
next
  case False
  show ?thesis
  proof (cases "workers p t")
    case (WPop d)
    with False obtain r where "poppers (taskQueue p) t = PopDone r" by (auto simp: pop_done_iff)
    with WPop show ?thesis by (cases r; cases d) (simp_all add: worker_step_def)
  qed (use assms(2) sealedD(2) [OF assms(1)] in \<open>simp_all add: worker_step_def enter_pop_def\<close>)
qed

lemma potential_worker:
  assumes s: "sealed h p" and t: "t < length (threads p)" and "workers p t \<noteq> WExit"
  shows "potential (worker_step False t p) < potential p"
proof -
  let ?p = "worker_step False t p" and ?n = "length (threads p)"
  let ?hd = "head_at (queue (taskQueue p))" and ?hd' = "head_at (queue (taskQueue (worker_step False t p)))"
  have le: "?hd' \<le> length (hist (taskQueue p))"
    using ring_invD(3,5) [OF threads_invD(1) [OF pool_invD(1) [OF worker_step_inv [OF sealedD(1) [OF s] t]]], of False]
    by (simp add: worker_keeps)
  show ?thesis
  proof (cases "?hd' = ?hd")
    case True
    then have hp: "head_pos (queue (taskQueue ?p)) = head_pos (queue (taskQueue p))" by (simp add: word_unat_eq_iff)
    have "(\<Sum>u < ?n. wt ?p u) + wt p t = (\<Sum>u < ?n. wt p u) + wt ?p t"
      using t by (intro sum_upd) (simp_all add: hp worker_keeps)
    with worker_weight_less [OF s assms(3) True] show ?thesis
      by (simp add: potential_def worker_keeps True)
  next
    case False
    with worker_head [OF sealedD(1) [OF s] t, of False] have "?hd < ?hd'" by simp
    then have "Suc (length (hist (taskQueue p)) - ?hd') \<le> length (hist (taskQueue p)) - ?hd" using le by linarith
    then have "(3 * ?n + 10) * Suc (length (hist (taskQueue p)) - ?hd') \<le> (3 * ?n + 10) * (length (hist (taskQueue p)) - ?hd)"
      by (rule mult_le_mono2)
    then have a: "(3 * ?n + 10) * (length (hist (taskQueue p)) - ?hd') + (3 * ?n + 10)
        \<le> (3 * ?n + 10) * (length (hist (taskQueue p)) - ?hd)" by simp
    have "wt ?p u \<le> wt p u + 3 + (if u = t then 9 else 0)" for u
      using worker_weight_bounds(1) [of "head_pos (queue (taskQueue ?p))" "workers ?p t" "poppers (taskQueue ?p) t"]
        worker_weight_bounds(2) [of "head_pos (queue (taskQueue ?p))" "workers p u" "poppers (taskQueue p) u"
          "head_pos (queue (taskQueue p))"]
      by (cases "u = t") (simp_all add: worker_keeps)
    then have "(\<Sum>u < ?n. wt ?p u) \<le> (\<Sum>u < ?n. wt p u + 3 + (if u = t then 9 else 0))" by (intro sum_mono) auto
    also have "\<dots> = (\<Sum>u < ?n. wt p u) + 3 * ?n + 9" using t by (simp add: sum.distrib)
    finally show ?thesis using a by (simp add: potential_def worker_keeps)
  qed
qed

lemma potential_stop:
  assumes "sealed h p" and "pool_stop_step p \<noteq> p"
  shows "potential (pool_stop_step p) < potential p"
  using sealedD(6) [OF assms(1)] pool_invD(9) [OF sealedD(1) [OF assms(1)]] assms(2)
  by (cases "stopper p") (auto simp: pool_stop_step_def potential_def split: if_splits)

lemma quiet_run_bounded:
  "quiet_run False p n p' \<Longrightarrow> sealed h p \<Longrightarrow> n + potential p' \<le> potential p"
proof (induction rule: quiet_run.induct)
  case (here p)
  then show ?case by simp
next
  case (work p n p' t spur)
  then have "sealed h p'" using quiet_run_sealed by blast
  moreover have "\<not> spur" using work.hyps(4) by blast
  ultimately show ?case using work potential_worker [of h p' t] by simp
next
  case (stop p n p')
  then have "sealed h p'" using quiet_run_sealed by blast
  with stop show ?case using potential_stop [of h p'] by simp
qed

lemma quiet_run_goes_on:
  assumes "sealed h p" and "stopper p \<noteq> Stopped"
  shows "(\<exists>t < length (threads p). workers p t \<noteq> WExit) \<or> pool_stop_step p \<noteq> p"
proof -
  obtain i where i: "stopper p = Joining i" using sealedD(6) [OF assms(1)] assms(2) by (cases "stopper p") auto
  have "pool_stop_step p \<noteq> p" if "\<forall>t < length (threads p). workers p t = WExit"
  proof
    assume "pool_stop_step p = p"
    then have "stopper (pool_stop_step p) = stopper p" by simp
    with that i pool_invD(9) [OF sealedD(1) [OF assms(1)]] show False
      by (auto simp: pool_stop_step_def split: if_splits)
  qed
  then show ?thesis by blast
qed

lemma quiet_run_trans: "quiet_run weak p' m p'' \<Longrightarrow> quiet_run weak p n p' \<Longrightarrow> quiet_run weak p (n + m) p''"
  by (induction rule: quiet_run.induct) (auto intro: quiet_run.intros)

lemma sealed_finishes: "sealed h p \<Longrightarrow> \<exists>k p'. quiet_run False p k p' \<and> stopper p' = Stopped"
proof (induction "potential p" arbitrary: p rule: less_induct)
  case less
  show ?case
  proof (cases "stopper p = Stopped")
    case True
    then show ?thesis using quiet_run.here by blast
  next
    case False
    have "\<exists>p'. quiet_run False p 1 p' \<and> sealed h p' \<and> potential p' < potential p"
      using quiet_run_goes_on [OF less.prems False]
    proof (elim disjE exE conjE)
      fix t assume t: "t < length (threads p)" "workers p t \<noteq> WExit"
      then have "quiet_run False p (Suc 0) (worker_step False t p)" using quiet_run.work quiet_run.here by blast
      with t show ?thesis using sealed_worker potential_worker less.prems by fastforce
    next
      assume t: "pool_stop_step p \<noteq> p"
      then have "quiet_run False p (Suc 0) (pool_stop_step p)" using quiet_run.stop quiet_run.here by blast
      with t show ?thesis using sealed_stop potential_stop less.prems by fastforce
    qed
    then show ?thesis using less.hyps quiet_run_trans by blast
  qed
qed

lemma pool_threads:
  "pool_step p p' \<Longrightarrow> threads p' = threads p"
  "quiet_run weak p n p' \<Longrightarrow> threads p' = threads p"
  "threads (pool_stop_step p) = threads p"
proof -
  show stop: "threads (pool_stop_step p) = threads p" for p :: "'a thread_pool"
    by (simp add: pool_stop_step_def split: pool_stop_pc.split)
  show "pool_step p p' \<Longrightarrow> threads p' = threads p"
    by (induction rule: pool_step.induct) (simp_all add: worker_keeps stop)
  show "quiet_run weak p n p' \<Longrightarrow> threads p' = threads p"
    by (induction rule: quiet_run.induct) (simp_all add: worker_keeps stop)
qed

lemma reachable_threads: "pool_reachable p0 p \<Longrightarrow> threads p = threads p0"
  by (induction rule: pool_reachable.induct) (simp_all add: pool_threads)

lemma potential_bound:
  "potential (pool_stop_step p) \<le>
    (3 * length (threads p) + 10) * length (hist (taskQueue p)) + 13 * length (threads p) + 1"
proof -
  let ?n = "length (threads p)" and ?m = "length (hist (taskQueue p))"
  have q: "taskQueue (pool_stop_step p) = taskQueue p"
    by (simp add: pool_stop_step_def split: pool_stop_pc.split)
  have "(\<Sum>t < ?n. wt (pool_stop_step p) t) \<le> (\<Sum>t < ?n. 12)" by (intro sum_mono worker_weight_bounds(1))
  moreover have "stop_weight ?n (stopper (pool_stop_step p)) \<le> Suc ?n"
    by (cases "stopper (pool_stop_step p)") auto
  moreover have "(3 * ?n + 10) * (?m - head_at (queue (taskQueue p))) \<le> (3 * ?n + 10) * ?m"
    by (intro mult_le_mono2) simp
  ultimately show ?thesis unfolding potential_def pool_threads q sum_constant card_lessThan of_nat_id by linarith
qed

subsection \<open>Schedules\<close>

datatype 'a pool_action = Submit nat 'a | SubmitAccess nat bool | Work nat bool | Stop

fun pool_act :: "'a thread_pool \<Rightarrow> 'a pool_action \<Rightarrow> 'a thread_pool" where
  "pool_act p (Submit t x) = p\<lparr>taskQueue := act (taskQueue p) (PushCall t x)\<rparr>"
| "pool_act p (SubmitAccess t spur) = p\<lparr>taskQueue := act (taskQueue p) (PushAccess t spur)\<rparr>"
| "pool_act p (Work t spur) = (if t < length (threads p) then worker_step spur t p else p)"
| "pool_act p Stop = pool_stop_step p"

lemma pool_act_step: "pool_step p (pool_act p a) \<or> pool_act p a = p"
proof (cases a)
  case (Submit t x)
  then show ?thesis by (cases "pushers (taskQueue p) t") (auto intro: pool_step.submit_call)
next
  case (SubmitAccess t spur)
  then show ?thesis
    by (cases "push_step spur (queue (taskQueue p)) (pushers (taskQueue p) t)") (auto intro: pool_step.submit_access)
qed (auto intro: pool_step.work pool_step.stop)

lemma pool_schedule_reachable:
  assumes "\<forall>n \<le> length as. length (hist (taskQueue (foldl pool_act p0 (take n as)))) < 2 ^ 62"
  shows "pool_reachable p0 (foldl pool_act p0 as)"
  using assms
proof (induction as rule: rev_induct)
  case Nil
  show ?case by (simp add: pool_reachable.start)
next
  case (snoc a as)
  then have "pool_reachable p0 (foldl pool_act p0 as)"
    by (metis (no_types, lifting) append_Nil2 diff_is_0_eq le_SucI length_append_singleton take0 take_append)
  moreover have "length (hist (taskQueue (foldl pool_act p0 (as @ [a])))) < 2 ^ 62"
    using snoc.prems by (metis order_refl take_all)
  ultimately show ?case using pool_act_step [of "foldl pool_act p0 as" a] pool_reachable.step by fastforce
qed

lemma reachable_accounts:
  assumes "ThreadPool dflt sz nm num = Inr p" and "thread_pool_start p = Inr p0" and "sz \<le> 2 ^ 62"
    and "pool_reachable p0 p1"
  shows "pool_inv p1" and "length (threads p1) = nat num"
proof -
  show "pool_inv p1" using pool_reachable_inv [OF assms(4)] pool_start_inv [OF assms(1-3)] .
  have "threadNum p = num" using assms(1) by (auto simp: ThreadPool_def outcome_elims)
  then show "length (threads p1) = nat num"
    using reachable_threads [OF assms(4)] assms(2) by (auto simp: thread_pool_start_def assert_then_def split: if_splits)
qed

subsection \<open>Properties\<close>

text \<open>C4: Every accepted task is called at most once and none is invented, in every interleaving of any number of
  submitting threads with the workers: the tasks called so far together with those that workers have taken and
  not yet called are exactly the tasks at the positions before the head of the queue, in number too. While the
  pool runs no worker has left its loop.\<close>

theorem tasks_run_once:
  assumes "ThreadPool dflt sz nm num = Inr p" and "thread_pool_start p = Inr p0" and "sz \<le> 2 ^ 62"
    and "pool_reachable p0 p1"
  shows "mset (executed p1) + (\<Sum>t < nat num. hand (hist (taskQueue p1)) (workers p1 t) (poppers (taskQueue p1) t))
      = mset (take (head_at (queue (taskQueue p1))) (hist (taskQueue p1)))
    \<and> mset (executed p1) \<subseteq># mset (hist (taskQueue p1))
    \<and> (running p1 \<longrightarrow> (\<forall>t < nat num. workers p1 t \<noteq> WExit))"
proof -
  note R = reachable_accounts [OF assms]
  note D = pool_invD [OF R(1), unfolded R(2)]
  have "mset (executed p1) \<subseteq># taken p1" using D(6) by (metis mset_subset_eq_add_left)
  also have "\<dots> \<subseteq># mset (hist (taskQueue p1))" by (metis append_take_drop_id mset_append mset_subset_eq_add_left)
  finally show ?thesis using D(6,7) by fastforce
qed

definition demo_pool :: "nat thread_pool" where
  "demo_pool = \<lparr>running = True, taskQueue = \<lparr>queue = \<lparr>ring = [\<lparr>sequence = 0, node_data = 0\<rparr>, \<lparr>sequence = 1, node_data = 0\<rparr>],
     buffer_size = 2, buffer_mask = 1, head_pos = 0, tail_pos = 0\<rparr>, pushers = (\<lambda>_. PushDone False),
     poppers = (\<lambda>_. PopDone None), hist = []\<rparr>, threadName = ''w'', threadNum = 2, threads = [''w0'', ''w1''],
     workers = (\<lambda>t. if int t < 2 then WCheck else WExit), stopper = NotStopped, executed = []\<rparr>"

lemma demo_pool_start: "\<exists>p. ThreadPool (0::nat) 2 ''w'' 2 = Inr p \<and> thread_pool_start p = Inr demo_pool"
proof -
  have n: "map (\<lambda>i. CHR ''w'' # show_int i) [0..1] = [''w0'', ''w1'']" by code_simp
  show ?thesis by (simp add: ThreadPool_def new_queue_def upt_rec thread_pool_start_def demo_pool_def n)
qed

text \<open>Two tasks, each put in with five accesses.\<close>

definition demo_submits :: "nat pool_action list" where
  "demo_submits = [Submit 0 7] @ replicate 5 (SubmitAccess 0 False) @ [Submit 0 8] @ replicate 5 (SubmitAccess 0 False)"

lemma demo_reachable: "pool_reachable demo_pool (foldl pool_act demo_pool demo_submits)"
proof (rule pool_schedule_reachable)
  have "list_all (\<lambda>n. length (hist (taskQueue (foldl pool_act demo_pool (take n demo_submits)))) < 3) [0..<13]"
    by code_simp
  moreover have "length demo_submits = 12" by code_simp
  ultimately have "length (hist (taskQueue (foldl pool_act demo_pool (take n demo_submits)))) < 3"
    if "n \<le> length demo_submits" for n using that unfolding list_all_iff by force
  then show "\<forall>n \<le> length demo_submits. length (hist (taskQueue (foldl pool_act demo_pool (take n demo_submits)))) < 2 ^ 62"
    by fastforce
qed

theorem tasks_run_once_witness:
  "\<exists>p1. pool_reachable demo_pool p1 \<and> running p1 \<and> hist (taskQueue p1) = [7, 8] \<and>
    mset (executed p1) \<subseteq># {#7, 8#} \<and> workers p1 1 \<noteq> WExit"
proof -
  define p1 where "p1 = foldl pool_act demo_pool demo_submits"
  obtain p where p: "ThreadPool (0::nat) 2 ''w'' 2 = Inr p" "thread_pool_start p = Inr demo_pool"
    using demo_pool_start by blast
  have h: "hist (taskQueue p1) = [7, 8] \<and> running p1" unfolding p1_def by code_simp
  have "pool_reachable demo_pool p1" unfolding p1_def by (rule demo_reachable)
  with tasks_run_once [OF p _ this] h show ?thesis by (intro exI [of _ p1]) simp
qed

text \<open>C2: \<^verbatim>\<open>stop\<close> of a pool with at least one thread, called when no \<^verbatim>\<open>submit\<close> is in progress and none follows:
  whatever the workers were doing, it can always return; without spurious failures of the compare-and-swap it
  returns after a bounded number of steps under every scheduling; and when it has returned every task accepted
  so far has been called exactly once.\<close>

theorem stop_drains_the_queue:
  assumes "ThreadPool dflt sz nm num = Inr p" and "thread_pool_start p = Inr p0" and "sz \<le> 2 ^ 62" and "0 < num"
    and "pool_reachable p0 p1" and "running p1" and "\<forall>t. \<exists>r. pushers (taskQueue p1) t = PushDone r"
  shows "(\<forall>weak k p2. quiet_run weak (pool_stop_step p1) k p2 \<longrightarrow>
        (\<exists>j p3. quiet_run False p2 j p3 \<and> stopper p3 = Stopped))
    \<and> (\<forall>k p2. quiet_run False (pool_stop_step p1) k p2 \<longrightarrow>
        k \<le> (3 * nat num + 10) * length (hist (taskQueue p1)) + 13 * nat num + 1)
    \<and> (\<forall>weak k p2. quiet_run weak (pool_stop_step p1) k p2 \<and> stopper p2 = Stopped \<longrightarrow>
        mset (executed p2) = mset (hist (taskQueue p1)))"
proof -
  note R = reachable_accounts [OF assms(1-3,5)]
  have seal: "sealed (hist (taskQueue p1)) (pool_stop_step p1)"
    using stop_seals [OF R(1) assms(6)] assms(7) by blast
  have "k \<le> (3 * nat num + 10) * length (hist (taskQueue p1)) + 13 * nat num + 1"
    if "quiet_run False (pool_stop_step p1) k p2" for k p2
    using quiet_run_bounded [OF that seal] potential_bound [of p1] unfolding R(2) by linarith
  moreover have "mset (executed p2) = mset (hist (taskQueue p1))"
    if "quiet_run weak (pool_stop_step p1) k p2" "stopper p2 = Stopped" for weak k p2
    using sealed_stopped [OF quiet_run_sealed [OF that(1) seal] that(2)] pool_threads(2) [OF that(1)]
      pool_threads(3) [of p1] R(2) assms(4) by fastforce
  ultimately show ?thesis using sealed_finishes quiet_run_sealed [OF _ seal] by blast
qed

lemma submitters_only:
  "(\<And>x. Submit t x \<notin> set as) \<Longrightarrow> (\<And>b. SubmitAccess t b \<notin> set as) \<Longrightarrow>
    pushers (taskQueue (foldl pool_act p as)) t = pushers (taskQueue p) t"
proof (induction as arbitrary: p)
  case (Cons a as)
  have "pushers (taskQueue (pool_act p a)) t = pushers (taskQueue p) t"
    using Cons.prems by (cases a) (auto simp: worker_keeps pool_stop_step_def split: push_pc.split prod.split pool_stop_pc.split)
  then show ?case using Cons by simp
qed simp

theorem stop_drains_the_queue_witness:
  "\<exists>p1 k p2. hist (taskQueue p1) = [7, 8] \<and> quiet_run False (pool_stop_step p1) k p2 \<and> k \<le> 59
    \<and> stopper p2 = Stopped \<and> mset (executed p2) = {#7, 8::nat#}"
proof -
  define p1 where "p1 = foldl pool_act demo_pool demo_submits"
  obtain p where p: "ThreadPool (0::nat) 2 ''w'' 2 = Inr p" "thread_pool_start p = Inr demo_pool"
    using demo_pool_start by blast
  have h: "hist (taskQueue p1) = [7, 8]" "running p1" "pushers (taskQueue p1) 0 = PushDone True"
    unfolding p1_def by code_simp+
  have r: "pool_reachable demo_pool p1" unfolding p1_def by (rule demo_reachable)
  have "pushers (taskQueue p1) t = PushDone False" if "t \<noteq> 0" for t
    unfolding p1_def using that by (subst submitters_only) (auto simp: demo_submits_def demo_pool_def)
  with h(3) have "\<forall>t. \<exists>r. pushers (taskQueue p1) t = PushDone r" by metis
  then have S: "\<And>weak k p2. quiet_run weak (pool_stop_step p1) k p2 \<Longrightarrow>
        \<exists>j p3. quiet_run False p2 j p3 \<and> stopper p3 = Stopped"
      "\<And>k p2. quiet_run False (pool_stop_step p1) k p2 \<Longrightarrow> k \<le> 59"
      "\<And>weak k p2. quiet_run weak (pool_stop_step p1) k p2 \<Longrightarrow> stopper p2 = Stopped \<Longrightarrow> mset (executed p2) = {#7, 8#}"
    using stop_drains_the_queue [OF p _ _ r h(2)] by (auto simp: h(1))
  obtain j p3 where "quiet_run False (pool_stop_step p1) j p3" "stopper p3 = Stopped"
    using S(1) [OF quiet_run.here] by blast
  with S(2,3) h(1) show ?thesis by (intro exI [of _ p1] exI [of _ j] exI [of _ p3]) auto
qed

text \<open>A pool without threads accepts tasks and \<^verbatim>\<open>stop\<close> returns without running them; more threads set after
  \<^verbatim>\<open>start\<close> make \<^verbatim>\<open>stop\<close> read past the end of the vector.\<close>

lemma pool_without_threads:
  assumes "threadNum p \<le> 0" and "stopper p = NotStopped"
  shows "pool_stop_step (pool_stop_step p) = p\<lparr>running := False, stopper := Stopped\<rparr>"
  using assms by (simp add: pool_stop_step_def)

lemma more_threads_out_of_range:
  assumes "int (length (threads p)) < n" and "stopper p = Joining (length (threads p))"
  shows "stopper (pool_stop_step (pool_setThreadNum n p)) = StopOutOfRange"
  using assms by (simp add: pool_stop_step_def pool_setThreadNum_def)

end
