(* ===== verification/Thread_Start.thy ===== *)
theory Thread_Start
  imports Net_Prelude Log_Stream
begin

text \<open>
  Threads under \<^verbatim>\<open>src/src/Threads\<close>: \<^verbatim>\<open>MutexLock\<close> and \<^verbatim>\<open>Condition\<close> as a monitor, \<^verbatim>\<open>CountDownLatch\<close> and
  \<^verbatim>\<open>Thread\<close>, and the hand-over of a loop between two threads in \<^verbatim>\<open>src/src/EventloopThread.cpp\<close>. A thread is
  known by its number, as \<^verbatim>\<open>CurrentThread::tid()\<close> gives it. A step is one access to the monitor or one
  statement under the lock; \<open>None\<close> is a step that has to wait. The locale \<open>monitor_client\<close> states what
  a user of a monitor does with it, and gives mutual exclusion; the latch and the hand-over interpret it.
\<close>

subsection \<open>The number of a thread\<close>

text \<open>The thread-local variables of \<^verbatim>\<open>CurrentThread\<close>; \<open>g\<close> is what \<^verbatim>\<open>gettid\<close> answers.\<close>

record current_thread =
  cachedTid :: int
  tidString :: string
  tidLength :: int

definition CurrentThread :: current_thread where
  "CurrentThread = \<lparr>cachedTid = 0, tidString = [], tidLength = 6\<rparr>"

text \<open>\<^verbatim>\<open>%5d\<close>.\<close>

definition padded5 :: "int \<Rightarrow> string" where
  "padded5 v = replicate (5 - length (show_int v)) (CHR '' '') @ show_int v"

definition cache_Tid :: "int \<Rightarrow> current_thread \<Rightarrow> current_thread" where
  "cache_Tid g c = (if cachedTid c = 0
     then c\<lparr>cachedTid := g, tidString := take 31 (padded5 g), tidLength := int (length (padded5 g))\<rparr> else c)"

definition tid :: "int \<Rightarrow> current_thread \<Rightarrow> int \<times> current_thread" where
  "tid g c = (let c = (if cachedTid c = 0 then cache_Tid g c else c) in (cachedTid c, c))"

definition tidToString :: "int \<Rightarrow> current_thread \<Rightarrow> string \<times> current_thread" where
  "tidToString g c = (let c = cache_Tid g c in (tidString c, c))"

definition isSelfThread :: "int \<Rightarrow> current_thread \<Rightarrow> bool \<times> current_thread" where
  "isSelfThread g c = (let (t, c) = tid g c in (t = g, c))"

text \<open>The first call asks the kernel, later ones do not; the text has the length that the log statement assumes.\<close>

lemma tid_cached:
  assumes "0 < g" and "g < 2 ^ 31"
  shows "fst (tid g CurrentThread) = g" and "fst (tid g' (snd (tid g CurrentThread))) = g"
    and "tidToString g CurrentThread = (padded5 g, snd (tid g CurrentThread))"
    and "tidLength (snd (tid g CurrentThread)) = int (length (padded5 g))" and "5 \<le> length (padded5 g)"
proof -
  have "nat g < 10 ^ 10" using assms by (simp add: nat_less_iff)
  then have "length (dec_digits (nat g)) \<le> 10" by (rule length_dec_digits) simp
  then have l: "length (padded5 g) \<le> 10" using assms by (simp add: padded5_def show_int_def)
  show "fst (tid g CurrentThread) = g" "fst (tid g' (snd (tid g CurrentThread))) = g"
    "tidToString g CurrentThread = (padded5 g, snd (tid g CurrentThread))"
    "tidLength (snd (tid g CurrentThread)) = int (length (padded5 g))"
    using assms(1) l by (simp_all add: tid_def tidToString_def cache_Tid_def CurrentThread_def Let_def)
  show "5 \<le> length (padded5 g)" by (simp add: padded5_def)
qed

text \<open>In a child after \<^verbatim>\<open>fork\<close> the number of the parent is still cached.\<close>

lemma stale_after_fork:
  "0 < g \<Longrightarrow> g' \<noteq> g \<Longrightarrow> \<not> fst (isSelfThread g' (snd (tid g CurrentThread)))"
  by (simp add: isSelfThread_def tid_def cache_Tid_def CurrentThread_def Let_def)

subsection \<open>Mutex and condition variable\<close>

text \<open>\<open>holder\<close> is the field of \<^verbatim>\<open>MutexLock\<close>, \<open>owner\<close> the state of the pthread mutex, \<open>sleepers\<close> the threads
  inside \<^verbatim>\<open>pthread_cond_wait\<close> that have not been woken.\<close>

record monitor =
  holder :: int
  owner :: "int option"
  sleepers :: "int list"

definition new_monitor :: monitor where
  "new_monitor = \<lparr>holder = 0, owner = None, sleepers = []\<rparr>"

definition mutex_lock :: "int \<Rightarrow> monitor \<Rightarrow> monitor option" where
  "mutex_lock t m = (if owner m = None then Some (m\<lparr>owner := Some t, holder := t\<rparr>) else None)"

definition mutex_unlock :: "monitor \<Rightarrow> monitor" where
  "mutex_unlock m = m\<lparr>holder := 0, owner := None\<rparr>"

definition isLockedByThisThread :: "int \<Rightarrow> monitor \<Rightarrow> bool" where
  "isLockedByThisThread t m \<longleftrightarrow> holder m = t"

text \<open>\<^verbatim>\<open>Condition::wait\<close> up to the point where the thread sleeps, and from its wake-up on.\<close>

definition cond_sleep :: "int \<Rightarrow> monitor \<Rightarrow> monitor" where
  "cond_sleep t m = m\<lparr>holder := 0, owner := None, sleepers := t # sleepers m\<rparr>"

definition cond_wake :: "int \<Rightarrow> monitor \<Rightarrow> monitor option" where
  "cond_wake t m = (if t \<in> set (sleepers m) then None else mutex_lock t m)"

definition notifyAll :: "monitor \<Rightarrow> monitor" where
  "notifyAll m = m\<lparr>sleepers := []\<rparr>"

text \<open>A wake-up without a notification.\<close>

definition spurious_wakeup :: "int \<Rightarrow> monitor \<Rightarrow> monitor" where
  "spurious_wakeup t m = m\<lparr>sleepers := removeAll t (sleepers m)\<rparr>"

lemmas monitor_defs = new_monitor_def mutex_lock_def mutex_unlock_def cond_sleep_def cond_wake_def notifyAll_def
  spurious_wakeup_def

subsection \<open>Using a monitor\<close>

text \<open>The moves of thread \<open>t\<close>: \<open>c\<close> tells whether it is between lock and unlock, \<open>a\<close> whether it sleeps.\<close>

inductive monitor_move :: "int \<Rightarrow> monitor \<Rightarrow> bool \<Rightarrow> bool \<Rightarrow> monitor \<Rightarrow> bool \<Rightarrow> bool \<Rightarrow> bool" for t where
  lock: "mutex_lock t m = Some m' \<Longrightarrow> monitor_move t m False False m' True False"
| unlock: "monitor_move t m True False (mutex_unlock m) False False"
| sleep: "monitor_move t m True False (cond_sleep t m) False True"
| wake: "cond_wake t m = Some m' \<Longrightarrow> monitor_move t m False True m' True False"
| notify: "monitor_move t m True False (notifyAll m) True False"
| inside: "monitor_move t m True False m True False"
| outside: "monitor_move t m False False m False False"

definition mon_ok :: "('p \<Rightarrow> bool) \<Rightarrow> ('p \<Rightarrow> bool) \<Rightarrow> monitor \<Rightarrow> (int \<Rightarrow> 'p) \<Rightarrow> bool" where
  "mon_ok critical asleep m pcs \<longleftrightarrow> (\<forall>t. critical (pcs t) \<longleftrightarrow> owner m = Some t)
     \<and> holder m = (case owner m of Some t \<Rightarrow> t | None \<Rightarrow> 0)
     \<and> (\<forall>t \<in> set (sleepers m). asleep (pcs t))"

lemma move_keeps:
  assumes "monitor_move t m (critical (pcs t)) (asleep (pcs t)) m' (critical pc') (asleep pc')"
    and "mon_ok critical asleep m pcs"
  shows "mon_ok critical asleep m' (pcs(t := pc'))"
  using assms
  by (cases rule: monitor_move.cases) (auto simp: mon_ok_def monitor_defs split: if_splits option.splits)

locale monitor_client =
  fixes step :: "int \<Rightarrow> 's \<Rightarrow> 'p \<Rightarrow> ('s \<times> 'p) option"
    and mon :: "'s \<Rightarrow> monitor"
    and critical :: "'p \<Rightarrow> bool"
    and asleep :: "'p \<Rightarrow> bool"
  assumes moves: "step t s pc = Some (s', pc') \<Longrightarrow>
      monitor_move t (mon s) (critical pc) (asleep pc) (mon s') (critical pc') (asleep pc')"
    and not_both: "asleep pc \<Longrightarrow> \<not> critical pc"
    and inside_runs: "critical pc \<Longrightarrow> \<exists>s' pc'. step t s pc = Some (s', pc')"
begin

lemma step_keeps:
  assumes "mon_ok critical asleep (mon s) pcs" and "step t s (pcs t) = Some (s', pc')"
  shows "mon_ok critical asleep (mon s') (pcs(t := pc'))"
  using move_keeps [OF moves [OF assms(2)] assms(1)] .

lemma exclusive: "mon_ok critical asleep (mon s) pcs \<Longrightarrow> critical (pcs t) \<Longrightarrow> critical (pcs u) \<Longrightarrow> t = u"
  by (auto simp: mon_ok_def)

text \<open>Whenever the mutex is taken, the thread that has it can go on.\<close>

lemma owner_runs:
  "mon_ok critical asleep (mon s) pcs \<Longrightarrow> owner (mon s) = Some t \<Longrightarrow> \<exists>s' pc'. step t s (pcs t) = Some (s', pc')"
  using inside_runs by (auto simp: mon_ok_def)

end

subsection \<open>CountDownLatch\<close>

record countdown_latch =
  latch_mon :: monitor
  count :: int

definition CountDownLatch :: "int \<Rightarrow> countdown_latch" where
  "CountDownLatch n = \<lparr>latch_mon = new_monitor, count = n\<rparr>"

datatype latch_pc = Idle | WaitLock | WaitTest | WaitSleep | WaitUnlock | WaitDone
  | DownLock | DownDec | DownNotify | DownUnlock | DownDone

definition in_latch :: "countdown_latch \<Rightarrow> latch_pc \<Rightarrow> monitor option \<Rightarrow> (countdown_latch \<times> latch_pc) option" where
  "in_latch L pc m = map_option (\<lambda>m'. (L\<lparr>latch_mon := m'\<rparr>, pc)) m"

fun latch_step :: "int \<Rightarrow> countdown_latch \<Rightarrow> latch_pc \<Rightarrow> (countdown_latch \<times> latch_pc) option" where
  "latch_step t L Idle = None"
| "latch_step t L WaitLock = in_latch L WaitTest (mutex_lock t (latch_mon L))"
| "latch_step t L WaitTest =
     (if count L > 0 then in_latch L WaitSleep (Some (cond_sleep t (latch_mon L))) else Some (L, WaitUnlock))"
| "latch_step t L WaitSleep = in_latch L WaitTest (cond_wake t (latch_mon L))"
| "latch_step t L WaitUnlock = in_latch L WaitDone (Some (mutex_unlock (latch_mon L)))"
| "latch_step t L WaitDone = None"
| "latch_step t L DownLock = in_latch L DownDec (mutex_lock t (latch_mon L))"
| "latch_step t L DownDec =
     (let c = count L - 1 in Some (L\<lparr>count := c\<rparr>, if c = 0 then DownNotify else DownUnlock))"
| "latch_step t L DownNotify = in_latch L DownUnlock (Some (notifyAll (latch_mon L)))"
| "latch_step t L DownUnlock = in_latch L DownDone (Some (mutex_unlock (latch_mon L)))"
| "latch_step t L DownDone = None"

fun in_monitor :: "latch_pc \<Rightarrow> bool" where
  "in_monitor pc \<longleftrightarrow> pc \<in> {WaitTest, WaitUnlock, DownDec, DownNotify, DownUnlock}"

interpretation latch: monitor_client latch_step latch_mon in_monitor "\<lambda>pc. pc = WaitSleep"
proof (unfold_locales, goal_cases)
  case (1 t s pc s' pc')
  then show ?case
    by (cases pc) (auto simp: in_latch_def Let_def intro: monitor_move.intros split: if_splits)
next
  case (2 pc)
  then show ?case by simp
next
  case (3 pc t s)
  then show ?case by (cases pc) (auto simp: in_latch_def Let_def)
qed

text \<open>Any number of threads that wait and count down; \<open>downs\<close> is a ghost, the number of decrements.\<close>

record latch_system =
  the_latch :: countdown_latch
  pcs :: "int \<Rightarrow> latch_pc"
  downs :: nat

definition latch_act :: "int \<Rightarrow> latch_system \<Rightarrow> countdown_latch \<Rightarrow> latch_pc \<Rightarrow> latch_system" where
  "latch_act t s L pc = s\<lparr>the_latch := L, pcs := (pcs s)(t := pc),
     downs := (if pcs s t = DownDec then Suc (downs s) else downs s)\<rparr>"

inductive latch_run :: "int \<Rightarrow> latch_system \<Rightarrow> bool" for n where
  start: "latch_run n \<lparr>the_latch = CountDownLatch n, pcs = (\<lambda>_. Idle), downs = 0\<rparr>"
| call: "latch_run n s \<Longrightarrow> pcs s t \<in> {Idle, WaitDone, DownDone} \<Longrightarrow> pc \<in> {WaitLock, DownLock} \<Longrightarrow>
    latch_run n (s\<lparr>pcs := (pcs s)(t := pc)\<rparr>)"
| step: "latch_run n s \<Longrightarrow> latch_step t (the_latch s) (pcs s t) = Some (L, pc) \<Longrightarrow> latch_run n (latch_act t s L pc)"
| spurious: "latch_run n s \<Longrightarrow>
    latch_run n (s\<lparr>the_latch := (the_latch s)\<lparr>latch_mon := spurious_wakeup t (latch_mon (the_latch s))\<rparr>\<rparr>)"

definition latch_inv :: "int \<Rightarrow> latch_system \<Rightarrow> bool" where
  "latch_inv n s \<longleftrightarrow> mon_ok in_monitor (\<lambda>pc. pc = WaitSleep) (latch_mon (the_latch s)) (pcs s)
     \<and> count (the_latch s) = n - int (downs s)
     \<and> (sleepers (latch_mon (the_latch s)) \<noteq> [] \<longrightarrow> count (the_latch s) > 0 \<or> (\<exists>u. pcs s u = DownNotify))
     \<and> (\<forall>t. pcs s t = WaitUnlock \<longrightarrow> count (the_latch s) \<le> 0)"

lemma latch_step_effect:
  assumes "latch_step t L pc = Some (L', pc')"
  shows "count L' = (if pc = DownDec then count L - 1 else count L)"
    and "sleepers (latch_mon L') = (if pc = WaitTest \<and> count L > 0 then t # sleepers (latch_mon L)
      else if pc = DownNotify then [] else sleepers (latch_mon L))"
    and "pc' = WaitUnlock \<longleftrightarrow> pc = WaitTest \<and> count L \<le> 0"
    and "pc' = DownNotify \<longleftrightarrow> pc = DownDec \<and> count L = 1"
  using assms by (cases pc; auto simp: in_latch_def monitor_defs Let_def split: if_splits)+

lemma latch_step_inv:
  assumes "latch_inv n s" and "latch_step t (the_latch s) (pcs s t) = Some (L, pc)"
  shows "latch_inv n (latch_act t s L pc)"
proof -
  have ok: "mon_ok in_monitor (\<lambda>pc. pc = WaitSleep) (latch_mon (the_latch s)) (pcs s)"
    and c: "count (the_latch s) = n - int (downs s)"
    and sl: "sleepers (latch_mon (the_latch s)) \<noteq> [] \<Longrightarrow> count (the_latch s) > 0 \<or> (\<exists>u. pcs s u = DownNotify)"
    and un: "\<And>t. pcs s t = WaitUnlock \<Longrightarrow> count (the_latch s) \<le> 0"
    using assms(1) by (auto simp: latch_inv_def)
  note E = latch_step_effect [OF assms(2)]
  have ok': "mon_ok in_monitor (\<lambda>pc. pc = WaitSleep) (latch_mon L) ((pcs s)(t := pc))"
    by (rule latch.step_keeps [OF ok assms(2)])
  have one: "pcs s u = DownNotify \<Longrightarrow> pcs s t = DownDec \<Longrightarrow> False" for u
    using latch.exclusive [OF ok, of t u] by auto
  have "count L > 0 \<or> (\<exists>u. ((pcs s)(t := pc)) u = DownNotify)" if "sleepers (latch_mon L) \<noteq> []"
  proof (cases "pcs s t = DownDec")
    case True
    then have "sleepers (latch_mon (the_latch s)) \<noteq> []" using that E(2) by simp
    with sl one True have "0 < count (the_latch s)" by blast
    then show ?thesis using E(1,4) True by (cases "count (the_latch s) = 1") auto
  next
    case False
    then have c: "count L = count (the_latch s)" using E(1) by simp
    show ?thesis
    proof (cases "0 < count (the_latch s)")
      case False
      then have "sleepers (latch_mon (the_latch s)) \<noteq> []" "pcs s t \<noteq> DownNotify"
        using that E(2) by (auto split: if_splits)
      with sl False obtain u where "pcs s u = DownNotify" "u \<noteq> t" by blast
      then have "((pcs s)(t := pc)) u = DownNotify" by simp
      then show ?thesis by blast
    qed (simp add: c)
  qed
  moreover have "count L \<le> 0" if "((pcs s)(t := pc)) u = WaitUnlock" for u
  proof (cases "u = t")
    case True
    then show ?thesis using that E(1,3) by simp
  next
    case False
    then show ?thesis using that un [of u] E(1) by auto
  qed
  moreover have "count L = n - int (if pcs s t = DownDec then Suc (downs s) else downs s)" using E(1) c by simp
  ultimately show ?thesis using ok' unfolding latch_inv_def latch_act_def by simp
qed

lemma latch_outside:
  assumes "latch_inv n s" and "pcs s t \<in> {Idle, WaitDone, DownDone}"
    and "pc \<in> {Idle, WaitLock, WaitDone, DownLock, DownDone}"
  shows "latch_inv n (s\<lparr>pcs := (pcs s)(t := pc)\<rparr>)"
proof -
  have "mon_ok in_monitor (\<lambda>pc. pc = WaitSleep) (latch_mon (the_latch s)) ((pcs s)(t := pc))"
    using assms by (intro move_keeps) (auto simp: latch_inv_def intro: monitor_move.outside)
  moreover have "(\<exists>u. ((pcs s)(t := pc)) u = DownNotify) \<longleftrightarrow> (\<exists>u. pcs s u = DownNotify)"
    using assms(2,3) by (metis fun_upd_apply insertE latch_pc.distinct singletonD)
  ultimately show ?thesis using assms by (auto simp: latch_inv_def)
qed

lemma latch_spurious:
  "latch_inv n s \<Longrightarrow>
    latch_inv n (s\<lparr>the_latch := (the_latch s)\<lparr>latch_mon := spurious_wakeup t (latch_mon (the_latch s))\<rparr>\<rparr>)"
  by (fastforce simp: latch_inv_def mon_ok_def monitor_defs)

lemma latch_run_inv: "latch_run n s \<Longrightarrow> latch_inv n s"
proof (induction rule: latch_run.induct)
  case start
  show ?case by (simp add: latch_inv_def CountDownLatch_def mon_ok_def monitor_defs)
next
  case (call s t pc)
  then show ?case by (intro latch_outside) auto
qed (simp_all add: latch_step_inv latch_spurious)

text \<open>When the count is down, or for a thread that counts down, somebody can always go on.\<close>

fun finished :: "latch_pc \<Rightarrow> bool" where
  "finished pc \<longleftrightarrow> pc \<in> {Idle, WaitDone, DownDone}"

fun counting :: "latch_pc \<Rightarrow> bool" where
  "counting pc \<longleftrightarrow> pc \<in> {DownLock, DownDec, DownNotify, DownUnlock}"

lemma latch_progress:
  assumes "latch_inv n s" and "counting (pcs s t) \<or> \<not> finished (pcs s t) \<and> count (the_latch s) \<le> 0"
  shows "(\<exists>L pc. latch_step t (the_latch s) (pcs s t) = Some (L, pc)) \<or>
    (\<exists>u L pc. u \<noteq> t \<and> in_monitor (pcs s u) \<and> latch_step u (the_latch s) (pcs s u) = Some (L, pc))"
proof (cases "owner (latch_mon (the_latch s))")
  case (Some u)
  have ok: "mon_ok in_monitor (\<lambda>pc. pc = WaitSleep) (latch_mon (the_latch s)) (pcs s)"
    using assms(1) by (simp add: latch_inv_def)
  then have "in_monitor (pcs s u)" using Some by (simp add: mon_ok_def del: in_monitor.simps)
  with latch.owner_runs [OF ok Some] show ?thesis by (cases "u = t") (blast, metis)
next
  case None
  then have no: "\<not> in_monitor (pcs s u)" for u
    using assms(1) by (simp add: latch_inv_def mon_ok_def del: in_monitor.simps)
  then have "pcs s u \<noteq> DownNotify" for u by (metis in_monitor.simps insertI1 insert_commute)
  then have "sleepers (latch_mon (the_latch s)) = [] \<or> 0 < count (the_latch s)"
    using assms(1) by (auto simp: latch_inv_def)
  then show ?thesis
    using assms(2) None no [of t] by (cases "pcs s t") (auto simp: in_latch_def mutex_lock_def cond_wake_def)
qed

subsection \<open>Thread\<close>

text \<open>\<^verbatim>\<open>Thread\<close> with the latch it owns, and the thread-local name of the new thread. \<open>num\<close> is the value of the
  member \<^verbatim>\<open>ThreadNum\<close>, which no constructor sets.\<close>

record thread_object =
  started :: bool
  th_joined :: bool
  pid :: int
  th_name :: string
  th_latch :: countdown_latch
  Tname :: string

definition setDefaultName :: "32 word \<Rightarrow> string \<Rightarrow> string" where
  "setDefaultName num nm = (if nm = [] then take 31 (''Thread'' @ show_int (sint (num + 1))) else nm)"

definition Thread :: "32 word \<Rightarrow> string \<Rightarrow> thread_object" where
  "Thread num nm = \<lparr>started = False, th_joined = False, pid = 0, th_name = setDefaultName num nm,
     th_latch = CountDownLatch 1, Tname = ''unknown''\<rparr>"

datatype starter_pc = StartCall | StartWaits latch_pc | StartCheck | StartDone | AssertFails
datatype child_pc = NotCreated | ChildPid | ChildDown latch_pc | ChildName | ChildFunc | ChildEnd | ChildAbort
datatype func_result = Returns | ThrowsStd | ThrowsOther

record thread_run =
  thread :: thread_object
  starter :: starter_pc
  child :: child_pc

text \<open>\<^verbatim>\<open>Thread::start\<close> in the thread \<open>me\<close>; \<open>created\<close> tells whether \<^verbatim>\<open>pthread_create\<close> succeeded.\<close>

definition start_step :: "bool \<Rightarrow> int \<Rightarrow> thread_run \<Rightarrow> thread_run option" where
  "start_step created me r =
    (case starter r of
       StartCall \<Rightarrow>
         if started (thread r) then Some (r\<lparr>starter := AssertFails\<rparr>)
         else if created then
           Some (r\<lparr>thread := (thread r)\<lparr>started := True\<rparr>, child := ChildPid, starter := StartWaits WaitLock\<rparr>)
         else Some (r\<lparr>thread := (thread r)\<lparr>started := False\<rparr>, starter := StartDone\<rparr>)
     | StartWaits WaitDone \<Rightarrow> Some (r\<lparr>starter := StartCheck\<rparr>)
     | StartWaits pc \<Rightarrow>
         map_option (\<lambda>(L, pc'). r\<lparr>thread := (thread r)\<lparr>th_latch := L\<rparr>, starter := StartWaits pc'\<rparr>)
           (latch_step me (th_latch (thread r)) pc)
     | StartCheck \<Rightarrow> Some (r\<lparr>starter := if pid (thread r) > 0 then StartDone else AssertFails\<rparr>)
     | StartDone \<Rightarrow> None
     | AssertFails \<Rightarrow> None)"

text \<open>\<^verbatim>\<open>ThreadData::runInThread\<close> in the new thread \<open>you\<close>. \<open>fatal\<close> tells whether the log statement for a caught
  exception aborts.\<close>

definition child_step :: "func_result \<Rightarrow> bool \<Rightarrow> int \<Rightarrow> thread_run \<Rightarrow> thread_run option" where
  "child_step res fatal you r =
    (case child r of
       NotCreated \<Rightarrow> None
     | ChildPid \<Rightarrow> Some (r\<lparr>thread := (thread r)\<lparr>pid := you\<rparr>, child := ChildDown DownLock\<rparr>)
     | ChildDown DownDone \<Rightarrow> Some (r\<lparr>child := ChildName\<rparr>)
     | ChildDown pc \<Rightarrow>
         map_option (\<lambda>(L, pc'). r\<lparr>thread := (thread r)\<lparr>th_latch := L\<rparr>, child := ChildDown pc'\<rparr>)
           (latch_step you (th_latch (thread r)) pc)
     | ChildName \<Rightarrow> Some (r\<lparr>thread := (thread r)\<lparr>Tname := if th_name (thread r) = [] then ''kwThread''
         else th_name (thread r)\<rparr>, child := ChildFunc\<rparr>)
     | ChildFunc \<Rightarrow>
         (case res of
            Returns \<Rightarrow> Some (r\<lparr>thread := (thread r)\<lparr>Tname := ''finished''\<rparr>, child := ChildEnd\<rparr>)
          | ThrowsStd \<Rightarrow> Some (r\<lparr>thread := (thread r)\<lparr>Tname := ''crashed''\<rparr>,
              child := if fatal then ChildAbort else ChildEnd\<rparr>)
          | ThrowsOther \<Rightarrow> Some (r\<lparr>thread := (thread r)\<lparr>Tname := ''crashed''\<rparr>, child := ChildAbort\<rparr>))
     | ChildEnd \<Rightarrow> None
     | ChildAbort \<Rightarrow> None)"

text \<open>\<^verbatim>\<open>Thread::join\<close>: the assertions, and whether the call of \<^verbatim>\<open>pthread_join\<close> can return.\<close>

definition thread_join :: "thread_run \<Rightarrow> (thread_run \<times> bool) outcome" where
  "thread_join r = assert_then (started (thread r)) (assert_then (\<not> th_joined (thread r))
     (Inr (r\<lparr>thread := (thread r)\<lparr>th_joined := True\<rparr>\<rparr>, child r = ChildEnd)))"

inductive start_run :: "int \<Rightarrow> int \<Rightarrow> thread_run \<Rightarrow> thread_run \<Rightarrow> bool" for me you r0 where
  fresh: "start_run me you r0 r0"
| starter: "start_run me you r0 r \<Longrightarrow> start_step created me r = Some r' \<Longrightarrow> start_run me you r0 r'"
| child: "start_run me you r0 r \<Longrightarrow> child_step res fatal you r = Some r' \<Longrightarrow> start_run me you r0 r'"
| spurious: "start_run me you r0 r \<Longrightarrow> start_run me you r0
    (r\<lparr>thread := (thread r)\<lparr>th_latch := (th_latch (thread r))\<lparr>latch_mon := spurious_wakeup t (latch_mon (th_latch (thread r)))\<rparr>\<rparr>\<rparr>)"

subsection \<open>start returns when the new thread has its number\<close>

fun spc :: "starter_pc \<Rightarrow> latch_pc" where
  "spc (StartWaits pc) = pc"
| "spc _ = Idle"

fun cpc :: "child_pc \<Rightarrow> latch_pc" where
  "cpc (ChildDown pc) = pc"
| "cpc _ = Idle"

fun counted :: "child_pc \<Rightarrow> bool" where
  "counted (ChildDown pc) \<longleftrightarrow> pc \<notin> {DownLock, DownDec}"
| "counted c \<longleftrightarrow> c \<notin> {NotCreated, ChildPid}"

text \<open>The latch with its two users.\<close>

definition view :: "int \<Rightarrow> int \<Rightarrow> thread_run \<Rightarrow> latch_system" where
  "view me you r = \<lparr>the_latch = th_latch (thread r),
     pcs = (\<lambda>_. Idle)(you := cpc (child r), me := spc (starter r)),
     downs = (if counted (child r) then 1 else 0)\<rparr>"

fun starter_ok :: "thread_run \<Rightarrow> starter_pc \<Rightarrow> bool" where
  "starter_ok r StartCall \<longleftrightarrow> child r = NotCreated \<and> \<not> started (thread r)"
| "starter_ok r (StartWaits pc) \<longleftrightarrow> started (thread r) \<and> child r \<noteq> NotCreated
     \<and> pc \<in> {WaitLock, WaitTest, WaitSleep, WaitUnlock, WaitDone} \<and> (pc = WaitDone \<longrightarrow> counted (child r))"
| "starter_ok r StartCheck \<longleftrightarrow> started (thread r) \<and> counted (child r)"
| "starter_ok r StartDone \<longleftrightarrow> (if started (thread r) then counted (child r) else child r = NotCreated)"
| "starter_ok r AssertFails \<longleftrightarrow> False"

definition thread_inv :: "int \<Rightarrow> int \<Rightarrow> thread_run \<Rightarrow> bool" where
  "thread_inv me you r \<longleftrightarrow> latch_inv 1 (view me you r) \<and> starter_ok r (starter r)
     \<and> (child r \<notin> {NotCreated, ChildPid} \<longrightarrow> pid (thread r) = you)
     \<and> (\<forall>pc. child r = ChildDown pc \<longrightarrow> pc \<in> {DownLock, DownDec, DownNotify, DownUnlock, DownDone})"

lemma thread_count: "thread_inv me you r \<Longrightarrow> count (th_latch (thread r)) \<le> 0 \<longleftrightarrow> counted (child r)"
  by (auto simp: thread_inv_def latch_inv_def view_def)

lemma latch_next:
  assumes "latch_step t L pc = Some (L', pc')"
  shows "pc \<in> {WaitLock, WaitTest, WaitSleep, WaitUnlock} \<Longrightarrow>
      pc' \<in> {WaitTest, WaitSleep, WaitUnlock, WaitDone} \<and> (pc' = WaitDone \<longrightarrow> pc = WaitUnlock)"
    and "pc \<in> {DownLock, DownDec, DownNotify, DownUnlock} \<Longrightarrow>
      pc' \<in> {DownDec, DownNotify, DownUnlock, DownDone} \<and> (pc' = DownDec \<longleftrightarrow> pc = DownLock)"
  using assms by (auto simp: in_latch_def Let_def split: if_splits)

lemma view_unlock: "latch_inv 1 s \<Longrightarrow> pcs s t = WaitUnlock \<Longrightarrow> count (the_latch s) \<le> 0"
  by (auto simp: latch_inv_def)

lemma start_step_inv:
  assumes inv: "thread_inv me you r" and "me \<noteq> you" and "0 < you" and st: "start_step created me r = Some r'"
  shows "thread_inv me you r'"
proof (cases "starter r")
  case StartCall
  then have c: "child r = NotCreated" "\<not> started (thread r)" using inv by (auto simp: thread_inv_def)
  have v: "latch_inv 1 (view me you r)" "pcs (view me you r) me = Idle"
    using inv StartCall by (auto simp: thread_inv_def view_def)
  have "latch_inv 1 ((view me you r)\<lparr>pcs := (pcs (view me you r))(me := WaitLock)\<rparr>)"
    using v by (intro latch_outside) auto
  moreover have "(pcs (view me you r))(me := WaitLock) = (\<lambda>_. Idle)(you := Idle, me := WaitLock)"
    using c by (simp add: view_def)
  ultimately show ?thesis
    using st StartCall c v by (auto simp: start_step_def thread_inv_def view_def split: if_splits)
next
  case (StartWaits pc)
  show ?thesis
  proof (cases "pc = WaitDone")
    case True
    have "latch_inv 1 ((view me you r)\<lparr>pcs := (pcs (view me you r))(me := Idle)\<rparr>)"
      using inv StartWaits True by (intro latch_outside) (auto simp: thread_inv_def view_def)
    with st StartWaits True inv show ?thesis by (auto simp: start_step_def thread_inv_def view_def)
  next
    case False
    then obtain L pc' where L: "latch_step me (th_latch (thread r)) pc = Some (L, pc')"
        "r' = r\<lparr>thread := (thread r)\<lparr>th_latch := L\<rparr>, starter := StartWaits pc'\<rparr>"
      using st StartWaits by (auto simp: start_step_def split: latch_pc.splits)
    have p: "pc \<in> {WaitLock, WaitTest, WaitSleep, WaitUnlock}" using inv StartWaits False by (auto simp: thread_inv_def)
    have "latch_inv 1 (latch_act me (view me you r) L pc')"
      using inv L(1) StartWaits by (intro latch_step_inv) (auto simp: thread_inv_def view_def)
    moreover have "latch_act me (view me you r) L pc' = view me you r'"
      using p StartWaits by (auto simp: latch_act_def view_def L(2))
    moreover have "pc' = WaitDone \<Longrightarrow> counted (child r)"
      using latch_next(1) [OF L(1) p] thread_count [OF inv] view_unlock [of "view me you r" me] inv StartWaits
      by (auto simp: thread_inv_def view_def)
    ultimately show ?thesis
      using inv StartWaits latch_next(1) [OF L(1) p] by (auto simp: thread_inv_def L(2))
  qed
next
  case StartCheck
  then have "pid (thread r) = you" using inv by (cases "child r") (auto simp: thread_inv_def)
  with st StartCheck inv \<open>0 < you\<close> show ?thesis by (auto simp: start_step_def thread_inv_def view_def)
qed (use st in \<open>simp_all add: start_step_def\<close>)

lemma child_step_inv:
  assumes inv: "thread_inv me you r" and "me \<noteq> you" and st: "child_step res fatal you r = Some r'"
  shows "thread_inv me you r'"
proof -
  have outside: "latch_inv 1 ((view me you r)\<lparr>pcs := (pcs (view me you r))(you := pc)\<rparr>)"
    if "cpc (child r) \<in> {Idle, WaitDone, DownDone}" "pc \<in> {Idle, DownLock}" for pc
    using inv that \<open>me \<noteq> you\<close> by (intro latch_outside) (auto simp: thread_inv_def view_def)
  have twist: "(\<lambda>_. Idle)(you := a, me := b, you := c) = (\<lambda>_. Idle)(you := c, me := b)" for a b c
    using \<open>me \<noteq> you\<close> by (simp add: fun_upd_twist)
  show ?thesis
  proof (cases "child r")
    case ChildPid
    with st inv outside [of DownLock] show ?thesis
      by (cases "starter r") (auto simp: child_step_def thread_inv_def view_def twist split: if_splits)
  next
    case (ChildDown pc)
    show ?thesis
    proof (cases "pc = DownDone")
      case True
      with st ChildDown inv outside [of Idle] show ?thesis
        by (cases "starter r") (auto simp: child_step_def thread_inv_def view_def twist split: if_splits)
    next
      case False
      then obtain L pc' where L: "latch_step you (th_latch (thread r)) pc = Some (L, pc')"
          "r' = r\<lparr>thread := (thread r)\<lparr>th_latch := L\<rparr>, child := ChildDown pc'\<rparr>"
        using st ChildDown by (auto simp: child_step_def split: latch_pc.splits)
      have p: "pc \<in> {DownLock, DownDec, DownNotify, DownUnlock}" using inv ChildDown False by (auto simp: thread_inv_def)
      note N = latch_next(2) [OF L(1) p]
      have "latch_inv 1 (latch_act you (view me you r) L pc')"
        using inv L(1) ChildDown \<open>me \<noteq> you\<close> by (intro latch_step_inv) (auto simp: thread_inv_def view_def)
      moreover have "latch_act you (view me you r) L pc' = view me you r'"
        using p N ChildDown \<open>me \<noteq> you\<close> by (auto simp: latch_act_def view_def L(2) twist)
      moreover have "counted (child r) \<Longrightarrow> counted (ChildDown pc')" using ChildDown p N by auto
      ultimately show ?thesis
        using inv ChildDown N by (cases "starter r") (auto simp: thread_inv_def L(2) split: if_splits)
    qed
  next
    case ChildName
    with st inv show ?thesis
      by (cases "starter r") (auto simp: child_step_def thread_inv_def view_def split: if_splits)
  next
    case ChildFunc
    with st inv show ?thesis
      by (cases "starter r") (auto simp: child_step_def thread_inv_def view_def split: func_result.splits if_splits)
  qed (use st in \<open>simp_all add: child_step_def\<close>)
qed

definition new_run :: "32 word \<Rightarrow> string \<Rightarrow> thread_run" where
  "new_run num nm = \<lparr>thread = Thread num nm, starter = StartCall, child = NotCreated\<rparr>"

lemma start_run_inv:
  assumes "start_run me you (new_run num nm) r" and "me \<noteq> you" and "0 < you"
  shows "thread_inv me you r"
  using assms(1)
proof (induction rule: start_run.induct)
  case fresh
  show ?case
    by (auto simp: thread_inv_def new_run_def Thread_def view_def latch_inv_def CountDownLatch_def mon_ok_def monitor_defs)
next
  case (starter r created r')
  then show ?case using start_step_inv assms(2,3) by blast
next
  case (child r res fatal r')
  then show ?case using child_step_inv assms(2) by blast
next
  case (spurious r t)
  then have "latch_inv 1 (view me you r)" by (simp add: thread_inv_def)
  note L = latch_spurious [OF this, of t]
  show ?case using spurious.IH L by (cases "starter r") (auto simp: thread_inv_def view_def split: if_splits)
qed

text \<open>How many steps \<^verbatim>\<open>start\<close> is from its return, when the new thread goes first.\<close>

fun child_weight :: "child_pc \<Rightarrow> nat" where
  "child_weight ChildPid = 5"
| "child_weight (ChildDown DownLock) = 4"
| "child_weight (ChildDown DownDec) = 3"
| "child_weight (ChildDown DownNotify) = 2"
| "child_weight (ChildDown DownUnlock) = 1"
| "child_weight _ = 0"

fun starter_weight :: "bool \<Rightarrow> starter_pc \<Rightarrow> nat" where
  "starter_weight c StartCall = 100"
| "starter_weight c (StartWaits WaitLock) = 8"
| "starter_weight c (StartWaits WaitTest) = 7"
| "starter_weight c (StartWaits WaitSleep) = (if c then 8 else 6)"
| "starter_weight c (StartWaits WaitUnlock) = 5"
| "starter_weight c (StartWaits _) = 4"
| "starter_weight c StartCheck = 3"
| "starter_weight c _ = 0"

definition start_weight :: "thread_run \<Rightarrow> nat" where
  "start_weight r = 10 * child_weight (child r) + starter_weight (counted (child r)) (starter r)"

lemma starter_advances:
  assumes inv: "thread_inv me you r" and st: "start_step True me r = Some r'"
    and go: "counted (child r) \<or> in_monitor (spc (starter r)) \<or> starter r = StartCall"
  shows "start_weight r' < start_weight r"
proof (cases "starter r")
  case (StartWaits pc)
  have "pc \<in> {WaitLock, WaitTest, WaitSleep, WaitUnlock, WaitDone}" using inv StartWaits by (simp add: thread_inv_def)
  then show ?thesis
    using st StartWaits go thread_count [OF inv]
    by (auto simp: start_step_def start_weight_def in_latch_def split: if_splits)
qed (use inv st in \<open>auto simp: start_step_def start_weight_def thread_inv_def split: if_splits\<close>)

lemma child_advances:
  assumes inv: "thread_inv me you r" and st: "child_step Returns False you r = Some r'" and "0 < child_weight (child r)"
  shows "start_weight r' < start_weight r"
proof (cases "child r")
  case ChildPid
  with st show ?thesis by (auto simp: child_step_def start_weight_def)
next
  case (ChildDown pc)
  have sw: "starter_weight a p \<le> starter_weight b p + 2" for a b p
    by (cases "(a, p)" rule: starter_weight.cases) auto
  have "pc \<in> {DownLock, DownDec, DownNotify, DownUnlock}"
    using inv ChildDown assms(3) by (auto simp: thread_inv_def)
  then have "child_weight (child r') < child_weight (child r) \<and> starter r' = starter r"
    using st ChildDown by (auto simp: child_step_def in_latch_def Let_def split: if_splits)
  with sw [of "counted (child r')" "starter r" "counted (child r)"] show ?thesis
    by (simp add: start_weight_def)
qed (use assms(3) in simp_all)

lemma start_step_waits:
  "starter r = StartWaits pc \<Longrightarrow> pc \<noteq> WaitDone \<Longrightarrow> start_step created me r =
    map_option (\<lambda>(L, pc'). r\<lparr>thread := (thread r)\<lparr>th_latch := L\<rparr>, starter := StartWaits pc'\<rparr>)
      (latch_step me (th_latch (thread r)) pc)"
  by (cases pc) (simp_all add: start_step_def)

lemma child_step_down:
  "child r = ChildDown pc \<Longrightarrow> pc \<noteq> DownDone \<Longrightarrow> child_step res fatal you r =
    map_option (\<lambda>(L, pc'). r\<lparr>thread := (thread r)\<lparr>th_latch := L\<rparr>, child := ChildDown pc'\<rparr>)
      (latch_step you (th_latch (thread r)) pc)"
  by (cases pc) (simp_all add: child_step_def)

text \<open>While the new thread has to wait for the mutex, the starting thread has it and can go on.\<close>

lemma child_blocked:
  assumes inv: "thread_inv me you r" and ids: "me \<noteq> you" and w: "0 < child_weight (child r)"
    and no: "child_step Returns False you r = None"
  shows "in_monitor (spc (starter r)) \<and> (\<exists>r'. start_step True me r = Some r')"
proof -
  have v: "latch_inv 1 (view me you r)" using inv by (simp add: thread_inv_def)
  have "child r \<noteq> ChildPid" using no by (auto simp: child_step_def)
  then obtain pc where c: "child r = ChildDown pc" using w by (cases "child r") auto
  then have pc: "pc \<in> {DownLock, DownDec, DownNotify, DownUnlock}" using inv w by (auto simp: thread_inv_def)
  then have none: "latch_step you (th_latch (thread r)) pc = None" using no c by (subst (asm) child_step_down) auto
  have "counting (pcs (view me you r) you)" using c pc ids by (simp add: view_def)
  with latch_progress [OF v, of you] none c ids obtain u L pc' where u: "u \<noteq> you" "in_monitor (pcs (view me you r) u)"
      "latch_step u (the_latch (view me you r)) (pcs (view me you r) u) = Some (L, pc')"
    by (auto simp: view_def simp del: in_monitor.simps)
  then have "u = me" by (auto simp: view_def split: if_splits)
  with u have m: "in_monitor (spc (starter r))" "latch_step me (th_latch (thread r)) (spc (starter r)) = Some (L, pc')"
    by (simp_all add: view_def del: in_monitor.simps)
  then obtain q where "starter r = StartWaits q" "q \<noteq> WaitDone" by (cases "starter r") auto
  with m show ?thesis by (simp add: start_step_waits del: in_monitor.simps)
qed

lemma starter_unblocked:
  assumes inv: "thread_inv me you r" and w: "child_weight (child r) = 0" and s: "starter r = StartWaits pc"
  shows "counted (child r) \<and> (\<exists>r'. start_step True me r = Some r')"
proof -
  have v: "latch_inv 1 (view me you r)" using inv by (simp add: thread_inv_def)
  have c: "counted (child r)" using inv w s by (cases "child r") (auto simp: thread_inv_def)
  have "\<exists>r'. start_step True me r = Some r'" if "pc \<noteq> WaitDone"
  proof -
    have "\<not> finished (pcs (view me you r) me)" using inv s that by (auto simp: view_def thread_inv_def)
    moreover have "count (the_latch (view me you r)) \<le> 0" using thread_count [OF inv] c by (simp add: view_def)
    moreover have "\<not> in_monitor (pcs (view me you r) u)" if "u \<noteq> me" for u
      using that w inv by (cases "child r") (auto simp: view_def thread_inv_def)
    ultimately obtain L pc' where "latch_step me (the_latch (view me you r)) (pcs (view me you r) me) = Some (L, pc')"
      using latch_progress [OF v, of me] by blast
    with s that show ?thesis by (simp add: start_step_waits view_def)
  qed
  with c s show ?thesis by (cases "pc = WaitDone") (simp_all add: start_step_def)
qed

lemma start_advances:
  assumes inv: "thread_inv me you r" and ids: "me \<noteq> you" and "starter r \<noteq> StartDone"
  shows "\<exists>r'. (start_step True me r = Some r' \<or> child_step Returns False you r = Some r') \<and> start_weight r' < start_weight r"
proof -
  consider (call) "starter r = StartCall" | (child) "0 < child_weight (child r)" "starter r \<noteq> StartCall"
    | (waits) pc where "starter r = StartWaits pc" "child_weight (child r) = 0" | (check) "starter r = StartCheck"
    using inv assms(3) by (cases "starter r") (auto simp: thread_inv_def)
  then show ?thesis
  proof cases
    case call
    then have "\<exists>r'. start_step True me r = Some r'" by (auto simp: start_step_def)
    then show ?thesis using starter_advances [OF inv] call by blast
  next
    case check
    then have "\<exists>r'. start_step True me r = Some r'" "counted (child r)"
      using inv by (auto simp: start_step_def thread_inv_def)
    then show ?thesis using starter_advances [OF inv] by blast
  next
    case child
    show ?thesis
    proof (cases "child_step Returns False you r")
      case None
      from child_blocked [OF inv ids child(1) this] show ?thesis using starter_advances [OF inv] by blast
    next
      case (Some r')
      then show ?thesis using child_advances [OF inv _ child(1)] by blast
    qed
  next
    case waits
    from starter_unblocked [OF inv waits(2,1)] show ?thesis using starter_advances [OF inv] by blast
  qed
qed

lemma start_run_trans: "start_run me you r1 r2 \<Longrightarrow> start_run me you r0 r1 \<Longrightarrow> start_run me you r0 r2"
proof (induction rule: start_run.induct)
  case (starter r created r')
  then show ?case using start_run.starter by blast
next
  case (child r res fatal r')
  then show ?case using start_run.child by blast
qed (auto intro: start_run.spurious)

lemma child_step_keeps:
  assumes "child_step res fatal you r = Some r'"
  shows "starter r' = starter r \<and> started (thread r') = started (thread r)"
proof (cases "child r")
  case (ChildDown pc)
  with assms show ?thesis
    by (cases "pc = DownDone") (force simp: child_step_def, auto simp: child_step_down)
qed (use assms in \<open>auto simp: child_step_def split: func_result.splits\<close>)

lemma start_step_started:
  assumes "thread_inv me you r" and "start_step True me r = Some r'"
  shows "started (thread r')"
proof (cases "starter r")
  case (StartWaits pc)
  with assms show ?thesis
    by (cases "pc = WaitDone") (force simp: start_step_def thread_inv_def, auto simp: start_step_waits thread_inv_def)
qed (use assms in \<open>auto simp: start_step_def thread_inv_def\<close>)

lemma start_finishes:
  assumes "thread_inv me you r" and "me \<noteq> you" and "0 < you" and "starter r = StartDone \<longrightarrow> started (thread r)"
  shows "\<exists>r'. start_run me you r r' \<and> starter r' = StartDone \<and> started (thread r')"
  using assms
proof (induction "start_weight r" arbitrary: r rule: less_induct)
  case less
  show ?case
  proof (cases "starter r = StartDone")
    case True
    then show ?thesis using less.prems start_run.fresh by blast
  next
    case False
    obtain r' where r': "start_step True me r = Some r' \<or> child_step Returns False you r = Some r'"
        "start_weight r' < start_weight r"
      using start_advances [OF less.prems(1,2) False] by blast
    have run: "start_run me you r r'" using r'(1) start_run.intros by metis
    have inv: "thread_inv me you r'" using r'(1) start_step_inv child_step_inv less.prems by metis
    have "starter r' = StartDone \<longrightarrow> started (thread r')"
      using r'(1) start_step_started [OF less.prems(1)] child_step_keeps False by metis
    from less.hyps [OF r'(2) inv less.prems(2,3) this] show ?thesis using start_run_trans run by blast
  qed
qed

subsection \<open>A loop handed from one thread to another\<close>

text \<open>\<^verbatim>\<open>EventloopThread\<close>: the thread that calls \<^verbatim>\<open>startLoop\<close> and later the destructor, and the thread of
  \<^verbatim>\<open>threadFunc\<close>. \<open>lt_loop\<close> tells whether the member \<^verbatim>\<open>loop\<close> is set, \<open>lt_quit\<close> whether \<^verbatim>\<open>quit_\<close> was called on
  the loop, \<open>lt_ended\<close> whether the thread has ended and the loop on its stack is gone, \<open>dead_loop\<close> whether
  \<^verbatim>\<open>quit_\<close> was called through \<^verbatim>\<open>loop\<close> after it was cleared.\<close>

record loop_thread =
  lt_mon :: monitor
  lt_loop :: bool
  lt_quit :: bool
  lt_ended :: bool
  dead_loop :: bool

datatype lt_pc = NoThread
  | StartLock | StartTest | StartSleep | StartUnlock | StartReturned | DtorQuit | DtorJoin | DtorDone
  | FuncInit | FuncLock | FuncSet | FuncNotify | FuncUnlock | FuncLoop | FuncRelock | FuncClear | FuncUnlock2 | FuncEnd

definition in_lt :: "loop_thread \<Rightarrow> lt_pc \<Rightarrow> monitor option \<Rightarrow> (loop_thread \<times> lt_pc) option" where
  "in_lt s pc m = map_option (\<lambda>m'. (s\<lparr>lt_mon := m'\<rparr>, pc)) m"

fun startLoop_step :: "int \<Rightarrow> loop_thread \<Rightarrow> lt_pc \<Rightarrow> (loop_thread \<times> lt_pc) option" where
  "startLoop_step t s StartLock = in_lt s StartTest (mutex_lock t (lt_mon s))"
| "startLoop_step t s StartTest =
     (if \<not> lt_loop s then in_lt s StartSleep (Some (cond_sleep t (lt_mon s))) else Some (s, StartUnlock))"
| "startLoop_step t s StartSleep = in_lt s StartTest (cond_wake t (lt_mon s))"
| "startLoop_step t s StartUnlock = in_lt s StartReturned (Some (mutex_unlock (lt_mon s)))"
| "startLoop_step t s _ = None"

text \<open>The destructor reads \<^verbatim>\<open>loop\<close> without the lock.\<close>

fun EventloopThread_dtor :: "int \<Rightarrow> loop_thread \<Rightarrow> lt_pc \<Rightarrow> (loop_thread \<times> lt_pc) option" where
  "EventloopThread_dtor t s StartReturned = Some (s, if lt_loop s then DtorQuit else DtorDone)"
| "EventloopThread_dtor t s DtorQuit = Some (s\<lparr>lt_quit := True, dead_loop := \<not> lt_loop s \<or> dead_loop s\<rparr>, DtorJoin)"
| "EventloopThread_dtor t s DtorJoin = (if lt_ended s then Some (s, DtorDone) else None)"
| "EventloopThread_dtor t s _ = None"

fun threadFunc_step :: "int \<Rightarrow> loop_thread \<Rightarrow> lt_pc \<Rightarrow> (loop_thread \<times> lt_pc) option" where
  "threadFunc_step t s FuncInit = Some (s, FuncLock)"
| "threadFunc_step t s FuncLock = in_lt s FuncSet (mutex_lock t (lt_mon s))"
| "threadFunc_step t s FuncSet = Some (s\<lparr>lt_loop := True\<rparr>, FuncNotify)"
| "threadFunc_step t s FuncNotify = in_lt s FuncUnlock (Some (notifyAll (lt_mon s)))"
| "threadFunc_step t s FuncUnlock = in_lt s FuncLoop (Some (mutex_unlock (lt_mon s)))"
| "threadFunc_step t s FuncLoop = (if lt_quit s then Some (s, FuncRelock) else None)"
| "threadFunc_step t s FuncRelock = in_lt s FuncClear (mutex_lock t (lt_mon s))"
| "threadFunc_step t s FuncClear = Some (s\<lparr>lt_loop := False\<rparr>, FuncUnlock2)"
| "threadFunc_step t s FuncUnlock2 = in_lt (s\<lparr>lt_ended := True\<rparr>) FuncEnd (Some (mutex_unlock (lt_mon s)))"
| "threadFunc_step t s _ = None"

definition lt_step :: "int \<Rightarrow> loop_thread \<Rightarrow> lt_pc \<Rightarrow> (loop_thread \<times> lt_pc) option" where
  "lt_step t s pc = (case startLoop_step t s pc of Some x \<Rightarrow> Some x
     | None \<Rightarrow> (case EventloopThread_dtor t s pc of Some x \<Rightarrow> Some x | None \<Rightarrow> threadFunc_step t s pc))"

definition lt_critical :: "lt_pc \<Rightarrow> bool" where
  "lt_critical pc \<longleftrightarrow> pc \<in> {StartTest, StartUnlock, FuncSet, FuncNotify, FuncUnlock, FuncClear, FuncUnlock2}"

interpretation handover: monitor_client lt_step lt_mon lt_critical "\<lambda>pc. pc = StartSleep"
proof (unfold_locales, goal_cases)
  case (1 t s pc s' pc')
  then show ?case
    by (cases pc) (auto simp: lt_step_def in_lt_def lt_critical_def intro: monitor_move.intros split: if_splits option.splits)
next
  case (2 pc)
  then show ?case by (simp add: lt_critical_def)
next
  case (3 pc t s)
  then show ?case by (cases pc) (auto simp: lt_step_def in_lt_def lt_critical_def split: if_splits option.splits)
qed

text \<open>\<^verbatim>\<open>startLoop\<close> goes on after \<^verbatim>\<open>Thread::start\<close>, when the new thread is running. \<open>others\<close> tells whether anybody
  but the destructor quits the loop.\<close>

record lt_system =
  shared :: loop_thread
  lt_pcs :: "int \<Rightarrow> lt_pc"

definition EventloopThread :: "int \<Rightarrow> int \<Rightarrow> lt_system" where
  "EventloopThread me you = \<lparr>shared = \<lparr>lt_mon = new_monitor, lt_loop = False, lt_quit = False, lt_ended = False,
     dead_loop = False\<rparr>, lt_pcs = (\<lambda>_. NoThread)(me := StartLock, you := FuncInit)\<rparr>"

definition lt_act :: "int \<Rightarrow> lt_system \<Rightarrow> loop_thread \<times> lt_pc \<Rightarrow> lt_system" where
  "lt_act t S x = S\<lparr>shared := fst x, lt_pcs := (lt_pcs S)(t := snd x)\<rparr>"

inductive lt_run :: "bool \<Rightarrow> lt_system \<Rightarrow> lt_system \<Rightarrow> bool" for others S0 where
  fresh: "lt_run others S0 S0"
| step: "lt_run others S0 S \<Longrightarrow> lt_step t (shared S) (lt_pcs S t) = Some x \<Longrightarrow> lt_run others S0 (lt_act t S x)"
| spurious: "lt_run others S0 S \<Longrightarrow>
    lt_run others S0 (S\<lparr>shared := (shared S)\<lparr>lt_mon := spurious_wakeup t (lt_mon (shared S))\<rparr>\<rparr>)"
| quit: "lt_run others S0 S \<Longrightarrow> others \<Longrightarrow> lt_run others S0 (S\<lparr>shared := (shared S)\<lparr>lt_quit := True\<rparr>\<rparr>)"

text \<open>With \<open>a\<close> the place of the owner and \<open>b\<close> that of the thread, when only the destructor quits.\<close>

primrec owner_pc :: "lt_pc \<Rightarrow> bool" where
  "owner_pc NoThread = False" | "owner_pc StartLock = True" | "owner_pc StartTest = True"
| "owner_pc StartSleep = True" | "owner_pc StartUnlock = True" | "owner_pc StartReturned = True"
| "owner_pc DtorQuit = True" | "owner_pc DtorJoin = True" | "owner_pc DtorDone = True"
| "owner_pc FuncInit = False" | "owner_pc FuncLock = False" | "owner_pc FuncSet = False"
| "owner_pc FuncNotify = False" | "owner_pc FuncUnlock = False" | "owner_pc FuncLoop = False"
| "owner_pc FuncRelock = False" | "owner_pc FuncClear = False" | "owner_pc FuncUnlock2 = False"
| "owner_pc FuncEnd = False"

fun published :: "lt_pc \<Rightarrow> bool" where
  "published FuncNotify = True" | "published FuncUnlock = True" | "published FuncLoop = True"
| "published FuncRelock = True" | "published FuncClear = True" | "published _ = False"

fun leaving :: "lt_pc \<Rightarrow> bool" where
  "leaving FuncRelock = True" | "leaving FuncClear = True" | "leaving FuncUnlock2 = True"
| "leaving FuncEnd = True" | "leaving _ = False"

fun has_loop :: "lt_pc \<Rightarrow> bool" where
  "has_loop StartUnlock = True" | "has_loop StartReturned = True" | "has_loop DtorQuit = True"
| "has_loop _ = False"

fun quitting :: "lt_pc \<Rightarrow> bool" where
  "quitting DtorJoin = True" | "quitting DtorDone = True" | "quitting _ = False"

definition lt_facts :: "loop_thread \<Rightarrow> lt_pc \<Rightarrow> lt_pc \<Rightarrow> bool" where
  "lt_facts s a b \<longleftrightarrow> owner_pc a \<and> b \<noteq> NoThread \<and> \<not> owner_pc b
     \<and> (lt_loop s \<longleftrightarrow> published b)
     \<and> (sleepers (lt_mon s) \<noteq> [] \<longrightarrow> \<not> lt_loop s \<or> b = FuncNotify)
     \<and> (lt_quit s \<longleftrightarrow> quitting a) \<and> (leaving b \<longrightarrow> lt_quit s) \<and> (lt_ended s \<longleftrightarrow> b = FuncEnd)
     \<and> (has_loop a \<longrightarrow> lt_loop s) \<and> (a = DtorDone \<longrightarrow> lt_ended s) \<and> \<not> dead_loop s"

lemma lt_facts_owner:
  assumes "lt_facts s a b" and "lt_step t s a = Some (s', a')"
  shows "lt_facts s' a' b"
proof (cases a)
  case DtorQuit
  with assms have "lt_loop s" by (auto simp: lt_facts_def)
  with assms DtorQuit show ?thesis by (auto simp: lt_step_def lt_facts_def)
qed (use assms in \<open>auto simp: lt_step_def in_lt_def lt_facts_def monitor_defs split: if_splits\<close>)

lemma lt_facts_thread:
  assumes "lt_facts s a b" and "lt_step t s b = Some (s', b')"
  shows "lt_facts s' a b'"
proof -
  have "quitting a \<Longrightarrow> \<not> has_loop a" "a = DtorDone \<Longrightarrow> quitting a" by (cases a; simp)+
  with assms show ?thesis
    by (cases b) (simp_all add: lt_step_def in_lt_def lt_facts_def monitor_defs split: if_splits, auto)
qed

definition lt_inv :: "int \<Rightarrow> int \<Rightarrow> lt_system \<Rightarrow> bool" where
  "lt_inv me you S \<longleftrightarrow> mon_ok lt_critical (\<lambda>pc. pc = StartSleep) (lt_mon (shared S)) (lt_pcs S)
     \<and> (\<forall>t. t \<noteq> me \<and> t \<noteq> you \<longrightarrow> lt_pcs S t = NoThread)
     \<and> lt_facts (shared S) (lt_pcs S me) (lt_pcs S you)"

lemma lt_step_inv:
  assumes inv: "lt_inv me you S" and ids: "me \<noteq> you" and st: "lt_step t (shared S) (lt_pcs S t) = Some x"
  shows "lt_inv me you (lt_act t S x)"
proof -
  obtain s' pc' where x: "x = (s', pc')" by fastforce
  have F: "lt_facts (shared S) (lt_pcs S me) (lt_pcs S you)" using inv by (simp add: lt_inv_def)
  have "mon_ok lt_critical (\<lambda>pc. pc = StartSleep) (lt_mon s') ((lt_pcs S)(t := pc'))"
    using inv st x by (intro handover.step_keeps) (auto simp: lt_inv_def)
  moreover have "t = me \<or> t = you"
    using inv st by (auto simp: lt_inv_def lt_step_def)
  moreover have "lt_facts s' (((lt_pcs S)(t := pc')) me) (((lt_pcs S)(t := pc')) you)" if "t = me \<or> t = you"
    using that
  proof
    assume t: "t = me"
    then have "lt_facts s' pc' (lt_pcs S you)" using lt_facts_owner [OF F] st x by simp
    then show ?thesis using t ids by simp
  next
    assume t: "t = you"
    then have "lt_facts s' (lt_pcs S me) pc'" using lt_facts_thread [OF F] st x by simp
    then show ?thesis using t ids by simp
  qed
  ultimately show ?thesis using inv by (auto simp: lt_inv_def lt_act_def x)
qed

lemma lt_run_inv:
  assumes "lt_run False (EventloopThread me you) S" and "me \<noteq> you"
  shows "lt_inv me you S"
  using assms(1)
proof (induction rule: lt_run.induct)
  case fresh
  show ?case using assms(2)
    by (auto simp: lt_inv_def EventloopThread_def mon_ok_def lt_facts_def new_monitor_def lt_critical_def)
next
  case (step S t x)
  then show ?case using lt_step_inv assms(2) by blast
next
  case (spurious S t)
  then have "sleepers (spurious_wakeup t (lt_mon (shared S))) \<noteq> [] \<Longrightarrow> sleepers (lt_mon (shared S)) \<noteq> []"
    by (auto simp: spurious_wakeup_def)
  then have "lt_facts ((shared S)\<lparr>lt_mon := spurious_wakeup t (lt_mon (shared S))\<rparr>) (lt_pcs S me) (lt_pcs S you)"
    using spurious.IH by (simp add: lt_inv_def lt_facts_def) blast
  moreover have "mon_ok lt_critical (\<lambda>pc. pc = StartSleep) (spurious_wakeup t (lt_mon (shared S))) (lt_pcs S)"
    using spurious.IH by (simp add: lt_inv_def mon_ok_def spurious_wakeup_def)
  ultimately show ?case using spurious.IH by (simp add: lt_inv_def)
qed simp

fun owner_weight :: "bool \<Rightarrow> lt_pc \<Rightarrow> nat" where
  "owner_weight l StartLock = 8"
| "owner_weight l StartTest = 7"
| "owner_weight l StartSleep = (if l then 8 else 6)"
| "owner_weight l StartUnlock = 5"
| "owner_weight l StartReturned = 4"
| "owner_weight l DtorQuit = 3"
| "owner_weight l DtorJoin = 2"
| "owner_weight l _ = 0"

fun thread_weight :: "lt_pc \<Rightarrow> nat" where
  "thread_weight FuncInit = 9"
| "thread_weight FuncLock = 8"
| "thread_weight FuncSet = 7"
| "thread_weight FuncNotify = 6"
| "thread_weight FuncUnlock = 5"
| "thread_weight FuncLoop = 4"
| "thread_weight FuncRelock = 3"
| "thread_weight FuncClear = 2"
| "thread_weight FuncUnlock2 = 1"
| "thread_weight _ = 0"

definition lt_weight :: "int \<Rightarrow> int \<Rightarrow> lt_system \<Rightarrow> nat" where
  "lt_weight me you S = 10 * thread_weight (lt_pcs S you) + owner_weight (lt_loop (shared S)) (lt_pcs S me)"

lemma thread_step_weight:
  "lt_step t s b = Some (s', b') \<Longrightarrow> \<not> owner_pc b \<Longrightarrow> thread_weight b' < thread_weight b"
  by (cases b) (auto simp: lt_step_def in_lt_def split: if_splits)

lemma owner_step_weight:
  assumes "lt_facts s a b" and "lt_step t s a = Some (s', a')" and "lt_loop s \<or> lt_critical a \<or> quitting a"
  shows "owner_weight (lt_loop s') a' < owner_weight (lt_loop s) a"
  using assms by (cases a) (auto simp: lt_step_def in_lt_def lt_facts_def lt_critical_def split: if_splits option.splits)

lemma owner_weight_loop: "owner_weight l a \<le> owner_weight l' a + 2"
  by (cases a) auto

text \<open>The owner can go on when the thread cannot.\<close>

lemma lt_owner_runs:
  assumes inv: "lt_inv me you S" and ids: "me \<noteq> you" and "lt_pcs S me \<noteq> DtorDone"
    and no: "lt_step you (shared S) (lt_pcs S you) = None"
  shows "(lt_loop (shared S) \<or> lt_critical (lt_pcs S me) \<or> quitting (lt_pcs S me))
    \<and> (\<exists>x. lt_step me (shared S) (lt_pcs S me) = Some x)"
proof -
  have ok: "mon_ok lt_critical (\<lambda>pc. pc = StartSleep) (lt_mon (shared S)) (lt_pcs S)"
    and F: "lt_facts (shared S) (lt_pcs S me) (lt_pcs S you)" using inv by (simp_all add: lt_inv_def)
  have nc: "\<not> lt_critical (lt_pcs S you)" using handover.inside_runs [of "lt_pcs S you" you "shared S"] no by auto
  have me: "u = me" if "owner (lt_mon (shared S)) = Some u" for u
  proof (rule ccontr)
    assume "u \<noteq> me"
    moreover have c: "lt_critical (lt_pcs S u)" using ok that by (simp add: mon_ok_def)
    ultimately show False using inv nc by (cases "u = you") (auto simp: lt_inv_def lt_critical_def)
  qed
  show ?thesis
  proof (cases "owner (lt_mon (shared S))")
    case (Some u)
    then have "lt_critical (lt_pcs S me)" using ok me by (simp add: mon_ok_def)
    then show ?thesis using handover.inside_runs [of "lt_pcs S me" me "shared S"] by auto
  next
    case None
    then have "lt_pcs S you = FuncLoop \<and> \<not> lt_quit (shared S) \<or> lt_pcs S you = FuncEnd"
      using no nc F by (cases "lt_pcs S you")
        (auto simp: lt_step_def in_lt_def lt_critical_def lt_facts_def mutex_lock_def split: if_splits)
    then show ?thesis
    proof (elim disjE conjE)
      assume b: "lt_pcs S you = FuncLoop" "\<not> lt_quit (shared S)"
      then have l: "lt_loop (shared S)" "sleepers (lt_mon (shared S)) = []" "\<not> quitting (lt_pcs S me)"
        using F by (auto simp: lt_facts_def)
      have "owner_pc (lt_pcs S me)" using F by (simp add: lt_facts_def)
      then show ?thesis using l None
        by (cases "lt_pcs S me") (auto simp: lt_step_def in_lt_def mutex_lock_def cond_wake_def)
    next
      assume "lt_pcs S you = FuncEnd"
      then have "quitting (lt_pcs S me)" "lt_ended (shared S)" using F by (auto simp: lt_facts_def)
      then show ?thesis using assms(3) by (cases "lt_pcs S me") (auto simp: lt_step_def)
    qed
  qed
qed

lemma lt_advances:
  assumes inv: "lt_inv me you S" and ids: "me \<noteq> you" and "lt_pcs S me \<noteq> DtorDone"
  shows "\<exists>t x. lt_step t (shared S) (lt_pcs S t) = Some x \<and> lt_weight me you (lt_act t S x) < lt_weight me you S"
proof (cases "lt_step you (shared S) (lt_pcs S you)")
  case None
  from lt_owner_runs [OF inv ids assms(3) None] obtain s' a' where
    "lt_loop (shared S) \<or> lt_critical (lt_pcs S me) \<or> quitting (lt_pcs S me)"
    "lt_step me (shared S) (lt_pcs S me) = Some (s', a')" by fastforce
  moreover from this have "owner_weight (lt_loop s') a' < owner_weight (lt_loop (shared S)) (lt_pcs S me)"
    using owner_step_weight [of "shared S" "lt_pcs S me" "lt_pcs S you"] inv unfolding lt_inv_def by blast
  ultimately show ?thesis using ids by (intro exI [of _ me] exI [of _ "(s', a')"]) (simp add: lt_weight_def lt_act_def)
next
  case (Some x)
  obtain s' b' where x: "x = (s', b')" by fastforce
  have "thread_weight b' < thread_weight (lt_pcs S you)"
    using thread_step_weight Some x inv by (auto simp: lt_inv_def lt_facts_def)
  with owner_weight_loop [of "lt_loop s'" "lt_pcs S me" "lt_loop (shared S)"] Some ids x show ?thesis
    by (intro exI [of _ you] exI [of _ x]) (simp add: lt_weight_def lt_act_def)
qed

lemma lt_run_trans: "lt_run o1 S1 S2 \<Longrightarrow> lt_run o1 S0 S1 \<Longrightarrow> lt_run o1 S0 S2"
  by (induction rule: lt_run.induct) (auto intro: lt_run.intros)

lemma lt_finishes:
  "lt_inv me you S \<Longrightarrow> me \<noteq> you \<Longrightarrow> \<exists>S'. lt_run False S S' \<and> lt_pcs S' me = DtorDone"
proof (induction "lt_weight me you S" arbitrary: S rule: less_induct)
  case less
  show ?case
  proof (cases "lt_pcs S me = DtorDone")
    case True
    then show ?thesis using lt_run.fresh by blast
  next
    case False
    obtain t x where x: "lt_step t (shared S) (lt_pcs S t) = Some x" "lt_weight me you (lt_act t S x) < lt_weight me you S"
      using lt_advances [OF less.prems False] by blast
    have run: "lt_run False S (lt_act t S x)" using lt_run.step [OF lt_run.fresh x(1)] .
    have inv: "lt_inv me you (lt_act t S x)" using lt_step_inv [OF less.prems x(1)] .
    from less.hyps [OF x(2) inv less.prems(2)] run show ?thesis using lt_run_trans by blast
  qed
qed

subsection \<open>Properties\<close>

text \<open>C17: \<^verbatim>\<open>Thread::start\<close>, interleaved in any way with the new thread and with spurious wake-ups: no assertion fails;
  when it has returned and the thread was created, the new thread has stored its number and counted the latch
  down, so the count is not positive; and unless the creation failed it can always still return.\<close>

theorem thread_start_returns:
  assumes "start_run me you (new_run num nm) r" and "me \<noteq> you" and "0 < you"
  shows "starter r \<noteq> AssertFails
    \<and> (starter r = StartDone \<and> started (thread r) \<longrightarrow> pid (thread r) = you \<and> count (th_latch (thread r)) \<le> 0)
    \<and> ((starter r = StartDone \<longrightarrow> started (thread r)) \<longrightarrow>
        (\<exists>r'. start_run me you r r' \<and> starter r' = StartDone \<and> started (thread r')))"
proof -
  have inv: "thread_inv me you r" by (rule start_run_inv [OF assms])
  have "starter r \<noteq> AssertFails" using inv by (auto simp: thread_inv_def)
  moreover have "pid (thread r) = you \<and> count (th_latch (thread r)) \<le> 0" if "starter r = StartDone" "started (thread r)"
    using inv that thread_count [OF inv] by (cases "child r") (auto simp: thread_inv_def)
  ultimately show ?thesis using start_finishes [OF inv assms(2,3)] by blast
qed

theorem thread_start_returns_witness:
  "\<exists>r. start_run 1 2 (new_run 0 ''io'') r \<and> starter r = StartDone \<and> pid (thread r) = 2"
proof -
  obtain r where r: "start_run 1 2 (new_run 0 ''io'') r" "starter r = StartDone" "started (thread r)"
    using thread_start_returns [OF start_run.fresh, of 1 2 0 "''io''"] by (auto simp: new_run_def)
  with thread_start_returns [OF r(1)] show ?thesis by auto
qed



text \<open>Schedules, for the races when somebody else quits the loop.\<close>

datatype lt_action = LtStep int | LtQuit

fun lt_exec :: "lt_system \<Rightarrow> lt_action list \<Rightarrow> lt_system" where
  "lt_exec S [] = S"
| "lt_exec S (LtStep t # as) =
     lt_exec (case lt_step t (shared S) (lt_pcs S t) of Some x \<Rightarrow> lt_act t S x | None \<Rightarrow> S) as"
| "lt_exec S (LtQuit # as) = lt_exec (S\<lparr>shared := (shared S)\<lparr>lt_quit := True\<rparr>\<rparr>) as"

lemma lt_exec_run: "lt_run True S0 S \<Longrightarrow> lt_run True S0 (lt_exec S as)"
proof (induction S as rule: lt_exec.induct)
  case (2 S t as)
  show ?case
  proof (cases "lt_step t (shared S) (lt_pcs S t)")
    case (Some x)
    from lt_run.step [OF 2(2) Some] have "lt_run True S0 (lt_act t S x)" .
    with 2(1) Some show ?thesis by simp
  qed (use 2 in simp)
qed (simp_all add: lt_run.quit)

text \<open>A loop that is quit early is gone when \<^verbatim>\<open>startLoop\<close> looks again: it waits for ever.\<close>

lemma early_quit_blocks_startLoop:
  "\<exists>S. lt_run True (EventloopThread 1 2) S \<and> lt_pcs S 1 = StartSleep \<and> lt_pcs S 2 = FuncEnd
     \<and> \<not> lt_loop (shared S) \<and> lt_step 1 (shared S) (lt_pcs S 1) = None"
proof -
  define S where "S = lt_exec (EventloopThread 1 2) ([LtStep 1, LtStep 1, LtQuit] @ replicate 9 (LtStep 2) @ [LtStep 1, LtStep 1])"
  have "lt_pcs S 1 = StartSleep \<and> lt_pcs S 2 = FuncEnd \<and> \<not> lt_loop (shared S) \<and> 1 \<in> set (sleepers (lt_mon (shared S)))"
    unfolding S_def by code_simp
  moreover from this have "lt_step 1 (shared S) (lt_pcs S 1) = None"
    by (simp add: lt_step_def in_lt_def cond_wake_def)
  ultimately show ?thesis using lt_exec_run [OF lt_run.fresh] S_def by blast
qed

text \<open>The destructor reads \<^verbatim>\<open>loop\<close> without the lock: it calls \<^verbatim>\<open>quit_\<close> on a loop that is gone, or does not wait for
  a thread that still uses the object.\<close>

lemma dtor_uses_dead_loop:
  "\<exists>S. lt_run True (EventloopThread 1 2) S \<and> dead_loop (shared S)"
proof -
  define S where "S = lt_exec (EventloopThread 1 2) (replicate 5 (LtStep 2) @ replicate 4 (LtStep 1) @ [LtQuit] @ replicate 4 (LtStep 2) @ [LtStep 1])"
  have "dead_loop (shared S)" unfolding S_def by code_simp
  then show ?thesis using lt_exec_run [OF lt_run.fresh] S_def by blast
qed

lemma dtor_leaves_thread:
  "\<exists>S. lt_run True (EventloopThread 1 2) S \<and> lt_pcs S 1 = DtorDone \<and> owner (lt_mon (shared S)) = Some 2"
proof -
  define S where "S = lt_exec (EventloopThread 1 2) (replicate 5 (LtStep 2) @ replicate 3 (LtStep 1) @ [LtQuit] @ replicate 3 (LtStep 2) @ [LtStep 1])"
  have "lt_pcs S 1 = DtorDone \<and> owner (lt_mon (shared S)) = Some 2" unfolding S_def by code_simp
  then show ?thesis using lt_exec_run [OF lt_run.fresh] S_def by blast
qed

end
