(* ===== verification/Signal_Handler.thy ===== *)
theory Signal_Handler
  imports Event_Loop
begin

text \<open>
  \<^verbatim>\<open>src/src/SignalHandler.{h,cpp}\<close>: signals read from a \<^verbatim>\<open>signalfd\<close> by a channel of the loop and handed to the
  handler that was set for their number. The memory of the object before its constructor, and of the
  \<^verbatim>\<open>signalfd_siginfo\<close> on the stack before it is read, are arguments.
\<close>

subsection \<open>The handler table\<close>

definition SIGHUP :: nat where "SIGHUP = 1"
definition SIGINT :: nat where "SIGINT = 2"
definition SIGQUIT :: nat where "SIGQUIT = 3"
definition SIGABRT :: nat where "SIGABRT = 6"
definition SIGTERM :: nat where "SIGTERM = 15"
definition SIGCHLD :: nat where "SIGCHLD = 17"

lemmas signal_numbers = SIGHUP_def SIGINT_def SIGQUIT_def SIGABRT_def SIGTERM_def SIGCHLD_def

record 'f signal_handler =
  sig_mask :: "nat list"
  handle_sig_int :: "'f option"
  handle_sig_hup :: "'f option"
  handle_sig_term :: "'f option"
  handle_sig_quit :: "'f option"
  handle_sig_abort :: "'f option"
  handle_sig_child :: "'f option"
  signal_channel :: "ptr option"
  sig_cared :: "bool list"

text \<open>The constructor leaves \<^verbatim>\<open>sig_cared\<close> as the memory was.\<close>

definition SignalHandler :: "bool list \<Rightarrow> 'f signal_handler" where
  "SignalHandler junk = \<lparr>sig_mask = [], handle_sig_int = None, handle_sig_hup = None, handle_sig_term = None,
     handle_sig_quit = None, handle_sig_abort = None, handle_sig_child = None, signal_channel = None,
     sig_cared = junk\<rparr>"

definition set_handle_int :: "'f \<Rightarrow> 'f signal_handler \<Rightarrow> 'f signal_handler" where
  "set_handle_int f h = h\<lparr>handle_sig_int := Some f, sig_cared := (sig_cared h)[SIGINT := True]\<rparr>"

definition set_handle_hup :: "'f \<Rightarrow> 'f signal_handler \<Rightarrow> 'f signal_handler" where
  "set_handle_hup f h = h\<lparr>handle_sig_hup := Some f, sig_cared := (sig_cared h)[SIGHUP := True]\<rparr>"

definition set_handle_term :: "'f \<Rightarrow> 'f signal_handler \<Rightarrow> 'f signal_handler" where
  "set_handle_term f h = h\<lparr>handle_sig_term := Some f, sig_cared := (sig_cared h)[SIGTERM := True]\<rparr>"

definition set_handle_quit :: "'f \<Rightarrow> 'f signal_handler \<Rightarrow> 'f signal_handler" where
  "set_handle_quit f h = h\<lparr>handle_sig_quit := Some f, sig_cared := (sig_cared h)[SIGQUIT := True]\<rparr>"

definition set_handle_abort :: "'f \<Rightarrow> 'f signal_handler \<Rightarrow> 'f signal_handler" where
  "set_handle_abort f h = h\<lparr>handle_sig_abort := Some f, sig_cared := (sig_cared h)[SIGABRT := True]\<rparr>"

definition set_handle_child :: "'f \<Rightarrow> 'f signal_handler \<Rightarrow> 'f signal_handler" where
  "set_handle_child f h = h\<lparr>handle_sig_child := Some f, sig_cared := (sig_cared h)[SIGCHLD := True]\<rparr>"

definition zero_memory :: "bool list" where
  "zero_memory = replicate 65 False"

lemma zero_memory_facts: "length zero_memory = 65" "n < 65 \<Longrightarrow> \<not> zero_memory ! n"
  unfolding zero_memory_def by (simp_all only: length_replicate nth_replicate not_False_eq_True)

text \<open>A call through an empty \<^verbatim>\<open>std::function\<close> throws.\<close>

definition call_handler :: "'f option \<Rightarrow> 'f option outcome" where
  "call_handler f = (case f of Some g \<Rightarrow> Inr (Some g) | None \<Rightarrow> Inl UncaughtException)"

text \<open>\<open>answer\<close> is the number a complete read gives, \<open>junk\<close> what the structure held before.\<close>

definition default_handler :: "nat \<Rightarrow> nat option \<Rightarrow> 'f signal_handler \<Rightarrow> 'f option outcome" where
  "default_handler junk answer h =
    (let ssi_signo = (case answer of Some n \<Rightarrow> n | None \<Rightarrow> junk) in
     if ssi_signo = SIGINT then call_handler (handle_sig_int h)
     else if ssi_signo = SIGQUIT then call_handler (handle_sig_quit h)
     else if ssi_signo = SIGHUP then call_handler (handle_sig_hup h)
     else if ssi_signo = SIGTERM then call_handler (handle_sig_term h)
     else if ssi_signo = SIGCHLD then call_handler (handle_sig_child h)
     else if ssi_signo = SIGABRT then call_handler (handle_sig_abort h)
     else Inr None)"

definition signal_range :: "nat list" where
  "signal_range = [0..<65]"

lemma set_signal_range [simp]: "set signal_range = {i. i < 65}"
  unfolding signal_range_def set_upt by auto

text \<open>\<^verbatim>\<open>sigaddset\<close> refuses number 0. \<open>fd\<close> is the descriptor \<^verbatim>\<open>signalfd\<close> gives, \<open>cb\<close> the callback that calls
  \<^verbatim>\<open>default_handler\<close>.\<close>

definition SignalHandler_init ::
  "int \<Rightarrow> 'cb \<Rightarrow> 'f signal_handler \<Rightarrow> ('cb, 'z) poller_scheme \<Rightarrow> ('f signal_handler \<times> ('cb, 'z) poller_scheme) outcome" where
  "SignalHandler_init fd cb h p =
    (let h = h\<lparr>sig_mask := filter (\<lambda>i. i \<noteq> 0 \<and> sig_cared h ! i) signal_range\<rparr> in
     and_then (add_channel_to fd (Some cb) p) (\<lambda>(p, c). Inr (h\<lparr>signal_channel := Some c\<rparr>, p)))"

definition SignalHandler_dtor :: "'f signal_handler \<Rightarrow> ('cb, 'z) poller_scheme \<Rightarrow> ('cb, 'z) poller_scheme outcome" where
  "SignalHandler_dtor h p =
    (case signal_channel h of
       None \<Rightarrow> Inl UndefinedBehaviour
     | Some c \<Rightarrow> and_then (DisableAll c p) (channel_remove c))"

subsection \<open>Settings in any order\<close>

datatype 'f sig_setting = SetInt 'f | SetHup 'f | SetTerm 'f | SetQuit 'f | SetAbort 'f | SetChild 'f

fun apply_setting :: "'f signal_handler \<Rightarrow> 'f sig_setting \<Rightarrow> 'f signal_handler" where
  "apply_setting h (SetInt f) = set_handle_int f h"
| "apply_setting h (SetHup f) = set_handle_hup f h"
| "apply_setting h (SetTerm f) = set_handle_term f h"
| "apply_setting h (SetQuit f) = set_handle_quit f h"
| "apply_setting h (SetAbort f) = set_handle_abort f h"
| "apply_setting h (SetChild f) = set_handle_child f h"

fun setting :: "'f sig_setting \<Rightarrow> nat \<times> 'f" where
  "setting (SetInt f) = (SIGINT, f)"
| "setting (SetHup f) = (SIGHUP, f)"
| "setting (SetTerm f) = (SIGTERM, f)"
| "setting (SetQuit f) = (SIGQUIT, f)"
| "setting (SetAbort f) = (SIGABRT, f)"
| "setting (SetChild f) = (SIGCHLD, f)"

definition handled :: "nat set" where
  "handled = {SIGINT, SIGHUP, SIGTERM, SIGQUIT, SIGABRT, SIGCHLD}"

text \<open>The specification: a map from signal numbers to the handlers last set.\<close>

definition table :: "'f sig_setting list \<Rightarrow> nat \<Rightarrow> 'f option" where
  "table ss = map_of (rev (map setting ss))"

lemma table_snoc: "table (ss @ [x]) = (table ss)(fst (setting x) \<mapsto> snd (setting x))"
  by (cases "setting x") (simp add: table_def)

definition handler_table :: "'f signal_handler \<Rightarrow> nat \<Rightarrow> 'f option" where
  "handler_table h n = (if n = SIGINT then handle_sig_int h else if n = SIGHUP then handle_sig_hup h
     else if n = SIGTERM then handle_sig_term h else if n = SIGQUIT then handle_sig_quit h
     else if n = SIGABRT then handle_sig_abort h else if n = SIGCHLD then handle_sig_child h else None)"

lemma apply_setting_table:
  "handler_table (apply_setting h x) = (handler_table h)(fst (setting x) \<mapsto> snd (setting x))"
  "sig_cared (apply_setting h x) = (sig_cared h)[fst (setting x) := True]"
  by (cases x; simp add: fun_eq_iff handler_table_def signal_numbers set_handle_int_def set_handle_hup_def
      set_handle_term_def set_handle_quit_def set_handle_abort_def set_handle_child_def)+

lemma setting_range: "fst (setting x) \<in> handled" "fst (setting x) < 65" "fst (setting x) \<noteq> 0"
  by (cases x; simp add: handled_def signal_numbers)+

lemma settings_table:
  assumes "length junk = 65"
  shows "handler_table (foldl apply_setting (SignalHandler junk) ss) = table ss"
    and "length (sig_cared (foldl apply_setting (SignalHandler junk) ss)) = 65"
    and "n < 65 \<Longrightarrow> sig_cared (foldl apply_setting (SignalHandler junk) ss) ! n \<longleftrightarrow> n \<in> dom (table ss) \<or> junk ! n"
proof (induction ss rule: rev_induct)
  case Nil
  { case 1 show ?case by (simp add: table_def fun_eq_iff handler_table_def SignalHandler_def) }
  { case 2 show ?case using assms by (simp add: SignalHandler_def) }
  { case 3 show ?case by (simp add: table_def SignalHandler_def) }
next
  case (snoc x ss)
  { case 1 show ?case using snoc(1) by (simp add: apply_setting_table table_snoc) }
  { case 2 show ?case using snoc(2) by (simp add: apply_setting_table) }
  { case 3 then show ?case
      using snoc(2,3) setting_range(2) [of x]
      by (cases "n = fst (setting x)") (auto simp: apply_setting_table table_snoc dom_def) }
qed

lemma table_dom: "dom (table ss) \<subseteq> handled" "0 \<notin> dom (table ss)" "n \<in> dom (table ss) \<Longrightarrow> n < 65"
  using setting_range by (induction ss rule: rev_induct) (auto simp: table_snoc table_def split: if_splits)

text \<open>Dispatch by the switch is a look-up in the table.\<close>

lemma default_handler_table:
  "default_handler junk (Some n) h = (if n \<in> handled then call_handler (handler_table h n) else Inr None)"
  by (simp add: default_handler_def handled_def handler_table_def signal_numbers)

lemma SignalHandler_init_ok:
  assumes "wf_poller p" and "m_channels p fd = None"
  obtains h' p' where "SignalHandler_init fd cb h p = Inr (h', p')" and "wf_poller p'"
    and "h' = h\<lparr>sig_mask := filter (\<lambda>i. i \<noteq> 0 \<and> sig_cared h ! i) signal_range, signal_channel := Some (next_ptr p)\<rparr>"
    and "heap p' (next_ptr p) = Some ((Channel fd False)\<lparr>ch_idx := ch_added, listen_events := READ_EVENT, in_callback := Some cb\<rparr>)"
  using add_channel_to_ok [OF assms, of "Some cb"] by (auto simp: SignalHandler_init_def)

lemma init_mask:
  assumes "length junk = 65"
  shows "{i. i < 65 \<and> i \<noteq> 0 \<and> sig_cared (foldl apply_setting (SignalHandler junk) ss) ! i}
    = dom (table ss) \<union> {i. i < 65 \<and> i \<noteq> 0 \<and> junk ! i}"
  using settings_table(3) [OF assms] table_dom(2) [of ss] table_dom(3) [of _ ss] by (auto intro: gr0I)

lemma handler_table_update [simp]:
  "handler_table (h\<lparr>sig_mask := m, signal_channel := c\<rparr>) = handler_table h"
  by (simp add: handler_table_def fun_eq_iff)

subsection \<open>Properties\<close>

text \<open>C36: After any settings in any order on an object whose memory was zero, \<^verbatim>\<open>init\<close> blocks and reads exactly the
  signals that a handler was set for, through a channel of the loop that is registered for reading, and each
  of these signals, when it arrives, calls the handler set last for it.\<close>

theorem signals_reach_their_handlers:
  assumes "wf_poller p" and "m_channels p fd = None"
  shows "\<exists>h' p' c ch. SignalHandler_init fd cb (foldl apply_setting (SignalHandler zero_memory) ss) p = Inr (h', p')
    \<and> wf_poller p' \<and> set (sig_mask h') = dom (table ss)
    \<and> signal_channel h' = Some c \<and> heap p' c = Some ch \<and> ch_fd ch = fd \<and> isReading ch \<and> in_callback ch = Some cb
    \<and> (\<forall>n junk. n \<in> set (sig_mask h') \<longrightarrow> default_handler junk (Some n) h' = Inr (table ss n))"
proof -
  define h where "h = foldl apply_setting (SignalHandler zero_memory) ss"
  have len: "length zero_memory = 65" by (rule zero_memory_facts)
  have T: "handler_table h = table ss" unfolding h_def by (rule settings_table(1) [OF len])
  have "{i. i < 65 \<and> i \<noteq> 0 \<and> zero_memory ! i} = {}" using zero_memory_facts(2) by blast
  with init_mask [OF len, of ss] have C: "{i. i < 65 \<and> i \<noteq> 0 \<and> sig_cared h ! i} = dom (table ss)"
    unfolding h_def by (simp only: Un_empty_right)
  obtain h' p' where I: "SignalHandler_init fd cb h p = Inr (h', p')" "wf_poller p'"
    "h' = h\<lparr>sig_mask := filter (\<lambda>i. i \<noteq> 0 \<and> sig_cared h ! i) signal_range, signal_channel := Some (next_ptr p)\<rparr>"
    "heap p' (next_ptr p) = Some ((Channel fd False)\<lparr>ch_idx := ch_added, listen_events := READ_EVENT, in_callback := Some cb\<rparr>)"
    by (rule SignalHandler_init_ok [OF assms])
  have m: "set (sig_mask h') = dom (table ss)" unfolding C [symmetric] by (auto simp: I(3))
  have "default_handler junk (Some n) h' = Inr (table ss n)" if n: "n \<in> set (sig_mask h')" for n junk
  proof -
    have d: "n \<in> dom (table ss)" using n by (simp only: m)
    then obtain f where f: "table ss n = Some f" by (rule domD [THEN exE])
    have "n \<in> handled" by (rule subsetD [OF table_dom(1) d])
    moreover have "handler_table h' n = Some f" unfolding I(3) handler_table_update T f ..
    ultimately show ?thesis by (simp only: default_handler_table f call_handler_def option.case if_True)
  qed
  moreover have "isReading ((Channel fd False)\<lparr>ch_idx := ch_added, listen_events := READ_EVENT, in_callback := Some cb\<rparr>)"
    by (simp add: isReading_def has_flag_def flag_simps)
  moreover have "signal_channel h' = Some (next_ptr p)" by (simp add: I(3))
  moreover have "ch_fd ((Channel fd False)\<lparr>ch_idx := ch_added, listen_events := READ_EVENT, in_callback := Some cb\<rparr>) = fd"
    by (simp add: Channel_def)
  ultimately show ?thesis
    using I(1,2,4) m unfolding h_def [symmetric]
    by (intro exI [of _ h'] exI [of _ p'] exI [of _ "next_ptr p"]
        exI [of _ "(Channel fd False)\<lparr>ch_idx := ch_added, listen_events := READ_EVENT, in_callback := Some cb\<rparr>"]) simp
qed

theorem signals_reach_their_handlers_witness:
  "\<exists>h' p'. SignalHandler_init 7 ''on_signal''
      (foldl apply_setting (SignalHandler zero_memory) [SetTerm ''stop'', SetInt ''a'', SetInt ''b'']) (Epoller 1)
      = Inr (h', p') \<and> default_handler 0 (Some 2) h' = Inr (Some ''b'')"
proof -
  have "m_channels (Epoller 1 :: string poller) 7 = None" by (simp add: Epoller_def)
  from signals_reach_their_handlers [OF Epoller_wf this, of "''on_signal''" "[SetTerm ''stop'', SetInt ''a'', SetInt ''b'']"]
  show ?thesis by (fastforce simp: table_def signal_numbers)
qed

text \<open>What the memory held decides about other signals: they are blocked, and then dropped or, for one of the six,
  end the program through an empty function.\<close>

lemma uncared_signal_blocked:
  assumes "length junk = 65" and "n < 65" and "n \<noteq> 0" and "junk ! n" and "table ss n = None"
    and "wf_poller p" and "m_channels p fd = None"
  shows "\<exists>h' p'. SignalHandler_init fd cb (foldl apply_setting (SignalHandler junk) ss) p = Inr (h', p')
    \<and> n \<in> set (sig_mask h')
    \<and> default_handler j (Some n) h' = (if n \<in> handled then Inl UncaughtException else Inr None)"
proof -
  let ?h = "foldl apply_setting (SignalHandler junk) ss"
  obtain h' p' where I: "SignalHandler_init fd cb ?h p = Inr (h', p')" "wf_poller p'"
    "h' = ?h\<lparr>sig_mask := filter (\<lambda>i. i \<noteq> 0 \<and> sig_cared ?h ! i) signal_range, signal_channel := Some (next_ptr p)\<rparr>"
    by (rule SignalHandler_init_ok [OF assms(6,7)])
  have "sig_cared ?h ! n" using settings_table(3) [OF assms(1,2)] assms(4) by blast
  moreover have "handler_table h' n = None" using settings_table(1) [OF assms(1), of ss] assms(5) by (simp add: I(3))
  ultimately show ?thesis
    using I assms(2,3) by (auto simp: default_handler_table call_handler_def)
qed

text \<open>A read that is not complete is logged and then handled as if it were.\<close>

lemma short_read_handled: "default_handler junk None h = default_handler other (Some junk) h"
  by (simp add: default_handler_def)

end
