(* ===== verification/Buffer_Types.thy ===== *)
theory Buffer_Types
  imports Byte_Buffer
begin

text \<open>
  The class invariant of \<^verbatim>\<open>Buffer\<close> (\<^verbatim>\<open>src/src/Memorys/Buffer.h\<close>) as a typing discipline: every member function
  that changes a buffer takes a well-formed one to a well-formed one or stops at an \<^verbatim>\<open>assert\<close>, and never
  reads or writes outside the array. The rules \<open>safe_intros\<close> follow the structure of the definitions.
\<close>

subsection \<open>Rules\<close>

definition safe :: "('a \<Rightarrow> bool) \<Rightarrow> 'a outcome \<Rightarrow> bool" where
  "safe P r \<longleftrightarrow> (case r of Inr x \<Rightarrow> P x | Inl e \<Rightarrow> e = AssertionFailure)"

named_theorems safe_intros

lemma safe_Inr [safe_intros]: "P x \<Longrightarrow> safe P (Inr x)"
  by (simp add: safe_def)

lemma safe_assert [safe_intros]: "(c \<Longrightarrow> safe P m) \<Longrightarrow> safe P (assert_then c m)"
  by (cases c) (simp_all add: safe_def)

lemma safe_and_then: "safe P m \<Longrightarrow> (\<And>x. P x \<Longrightarrow> safe Q (f x)) \<Longrightarrow> safe Q (and_then m f)"
  by (cases m) (simp_all add: safe_def)

lemma safe_mono: "safe P m \<Longrightarrow> (\<And>x. P x \<Longrightarrow> Q x) \<Longrightarrow> safe Q m"
  by (auto simp: safe_def split: sum.splits)

lemma safe_read_mem: "i + n \<le> length xs \<Longrightarrow> safe (\<lambda>ys. length ys = n) (read_mem xs i n)"
  by (simp add: read_mem_def safe_def)

subsection \<open>The member functions\<close>

lemma retrieve_safe: "wf_buffer b \<Longrightarrow> safe wf_buffer (retrieve n b)"
  unfolding retrieve_def
  by (intro safe_intros) (auto simp: wf_buffer_def readableBytes_def retrieveAll_def safe_def)

lemma retrieveUntil_safe: "wf_buffer b \<Longrightarrow> safe wf_buffer (retrieveUntil n b)"
  unfolding retrieveUntil_def by (intro safe_intros retrieve_safe)

lemma read_prefix_safe:
  "wf_buffer b \<Longrightarrow> n \<le> readableBytes b \<Longrightarrow> safe (\<lambda>ys. length ys = n) (read_mem (buf b) (readBegin b) n)"
  by (intro safe_read_mem) (auto simp: wf_buffer_def readableBytes_def readBegin_def)

lemma with_retrieve_safe: "wf_buffer b \<Longrightarrow> safe (\<lambda>(r, b'). wf_buffer b') (and_then (retrieve n b) (\<lambda>b'. Inr (x, b')))"
  by (rule safe_and_then [OF retrieve_safe]) (auto intro: safe_intros)

lemma retrieveAsString_safe: "wf_buffer b \<Longrightarrow> safe (\<lambda>(r, b'). wf_buffer b') (retrieveAsString n b)"
  unfolding retrieveAsString_def
  by (intro safe_assert safe_and_then [OF read_prefix_safe] with_retrieve_safe)

lemma retrieveAllAsString_safe: "wf_buffer b \<Longrightarrow> safe (\<lambda>(r, b'). wf_buffer b') (retrieveAllAsString b)"
  unfolding retrieveAllAsString_def by (rule retrieveAsString_safe)

lemma ensureWritableBytes_safe:
  "wf_buffer b \<Longrightarrow> safe (\<lambda>b'. wf_buffer b' \<and> n \<le> writableBytes b') (ensureWritableBytes n b)"
  unfolding ensureWritableBytes_def Let_def by (intro safe_intros) (auto simp: addCap_ok)

lemma hasWritten_safe: "wf_buffer b \<Longrightarrow> safe wf_buffer (hasWritten n b)"
  unfolding hasWritten_def by (intro safe_intros) (auto simp: wf_buffer_def writableBytes_def)

lemma unwrite_safe: "wf_buffer b \<Longrightarrow> safe wf_buffer (unwrite n b)"
  unfolding unwrite_def by (intro safe_intros) (auto simp: wf_buffer_def readableBytes_def)

lemma buf_append_safe:
  assumes "wf_buffer b"
  shows "safe wf_buffer (buf_append b d)"
  unfolding buf_append_def
proof (rule safe_and_then [OF ensureWritableBytes_safe [OF assms]])
  fix b' assume "wf_buffer b' \<and> length d \<le> writableBytes b'"
  then have "wf_buffer (b'\<lparr>buf := overwrite (buf b') (writeBegin b') d\<rparr>)"
    by (auto simp: wf_buffer_def writableBytes_def writeBegin_def)
  then show "safe wf_buffer (hasWritten (length d) (b'\<lparr>buf := overwrite (buf b') (writeBegin b') d\<rparr>))"
    by (rule hasWritten_safe)
qed

lemma append_int_safe:
  assumes "wf_buffer b"
  shows "safe wf_buffer (appendInt64 h b x)" "safe wf_buffer (appendInt32 h b y)"
    "safe wf_buffer (appendInt16 h b z)" "safe wf_buffer (appendInt8 b w)"
  using buf_append_safe [OF assms] by (simp_all add: appendInt64_def appendInt32_def appendInt16_def appendInt8_def)

lemma peek_safe:
  assumes "wf_buffer b"
  shows "safe (\<lambda>_. True) (peekInt64 h b)" "safe (\<lambda>_. True) (peekInt32 h b)"
    "safe (\<lambda>_. True) (peekInt16 h b)" "safe (\<lambda>_. True) (peekInt8 b)"
  unfolding peekInt64_def peekInt32_def peekInt16_def peekInt8_def
  by (intro safe_assert safe_and_then [OF read_prefix_safe [OF assms]] safe_Inr TrueI; assumption)+

lemma read_int_safe:
  assumes "wf_buffer b"
  shows "safe (\<lambda>(r, b'). wf_buffer b') (readInt64 h b)" "safe (\<lambda>(r, b'). wf_buffer b') (readInt32 h b)"
    "safe (\<lambda>(r, b'). wf_buffer b') (readInt16 h b)" "safe (\<lambda>(r, b'). wf_buffer b') (readInt8 b)"
  unfolding readInt64_def readInt32_def readInt16_def readInt8_def retrieveInt64_def retrieveInt32_def
    retrieveInt16_def retrieveInt8_def
  by (rule safe_and_then [OF peek_safe(1) [OF assms]] safe_and_then [OF peek_safe(2) [OF assms]]
      safe_and_then [OF peek_safe(3) [OF assms]] safe_and_then [OF peek_safe(4) [OF assms]],
      rule with_retrieve_safe [OF assms])+

lemma Buffer_safe: "safe (\<lambda>b. wf_buffer b \<and> readableBytes b = 0) (Buffer n)"
  unfolding Buffer_def Let_def by (intro safe_intros) (auto simp: wf_buffer_def readableBytes_def)

lemma shrink_safe:
  assumes "wf_buffer b" and "readableBytes b < 2 ^ 31"
  shows "safe wf_buffer (shrink n b)"
  unfolding shrink_def
proof (rule safe_and_then [OF Buffer_safe], rule safe_and_then [OF ensureWritableBytes_safe], blast)
  fix x assume x: "wf_buffer x \<and> readableBytes b + n \<le> writableBytes x"
  have "safe (\<lambda>ys. length ys = sp_size (toStringPiece b)) (read_mem (buf b) (sp_data (toStringPiece b)) (sp_size (toStringPiece b)))"
    using read_prefix_safe [OF assms(1) le_refl] assms(2) by (simp add: toStringPiece_def int_size_id)
  then show "safe wf_buffer (and_then (read_mem (buf b) (sp_data (toStringPiece b)) (sp_size (toStringPiece b)))
      (\<lambda>piece. and_then (buf_append x piece) (\<lambda>other. Inr (fst (swap_buf b other)))))"
    using x by (intro safe_and_then [OF _ safe_and_then [OF buf_append_safe]]) (auto simp: swap_buf_def safe_def wf_buffer_def)
qed

lemma readFd_safe:
  assumes "wf_buffer b" and "\<And>bs. ans = ReadvData bs \<Longrightarrow> length bs \<le> sum_list (readv_blocks b)"
  shows "safe (\<lambda>(n, e, b'). wf_buffer b') (readFd ans b)"
proof (cases ans)
  case (ReadvData bs)
  have "wf_buffer (b\<lparr>buf := overwrite (buf b) (write_idx b) (take (writableBytes b) bs), write_idx := length (buf b)\<rparr>)"
    if "writableBytes b < length bs"
    using assms(1) that by (auto simp: wf_buffer_def writableBytes_def)
  moreover have "wf_buffer (b\<lparr>buf := overwrite (buf b) (write_idx b) bs, write_idx := write_idx b + length bs\<rparr>)"
    if "length bs \<le> writableBytes b"
    using assms(1) that by (auto simp: wf_buffer_def writableBytes_def)
  ultimately show ?thesis
    using assms(2) ReadvData by (auto simp: Let_def intro!: safe_and_then [OF buf_append_safe] safe_Inr)
qed (use assms in \<open>simp add: safe_def\<close>)

subsection \<open>Any member function, in any order\<close>

datatype buffer_op = Retrieve nat | RetrieveUntil nat | RetrieveAsString nat | RetrieveAllAsString | RetrieveAll
  | EnsureWritable nat | HasWritten nat | Unwrite nat | Append "byte list" | AppendInt64 u64 | AppendInt32 u32
  | AppendInt16 u16 | AppendInt8 byte | ReadInt64 | ReadInt32 | ReadInt16 | ReadInt8 | Shrink nat | ReadFd readv_answer

definition state_of :: "('r \<times> buffer) outcome \<Rightarrow> buffer outcome" where
  "state_of m = and_then m (\<lambda>(r, b). Inr b)"

fun buffer_do :: "endian \<Rightarrow> buffer_op \<Rightarrow> buffer \<Rightarrow> buffer outcome" where
  "buffer_do h (Retrieve n) b = retrieve n b"
| "buffer_do h (RetrieveUntil n) b = retrieveUntil n b"
| "buffer_do h (RetrieveAsString n) b = state_of (retrieveAsString n b)"
| "buffer_do h RetrieveAllAsString b = state_of (retrieveAllAsString b)"
| "buffer_do h RetrieveAll b = Inr (retrieveAll b)"
| "buffer_do h (EnsureWritable n) b = ensureWritableBytes n b"
| "buffer_do h (HasWritten n) b = hasWritten n b"
| "buffer_do h (Unwrite n) b = unwrite n b"
| "buffer_do h (Append bs) b = buf_append b bs"
| "buffer_do h (AppendInt64 x) b = appendInt64 h b x"
| "buffer_do h (AppendInt32 x) b = appendInt32 h b x"
| "buffer_do h (AppendInt16 x) b = appendInt16 h b x"
| "buffer_do h (AppendInt8 x) b = appendInt8 b x"
| "buffer_do h ReadInt64 b = state_of (readInt64 h b)"
| "buffer_do h ReadInt32 b = state_of (readInt32 h b)"
| "buffer_do h ReadInt16 b = state_of (readInt16 h b)"
| "buffer_do h ReadInt8 b = state_of (readInt8 b)"
| "buffer_do h (Shrink n) b = shrink n b"
| "buffer_do h (ReadFd ans) b = state_of (and_then (readFd ans b) (\<lambda>(n, e, b'). Inr (n, b')))"

text \<open>What a call needs beyond a well-formed buffer: \<^verbatim>\<open>shrink\<close> narrows the size to \<^verbatim>\<open>int\<close>, and \<^verbatim>\<open>readv\<close> does not
  place more bytes than it was offered room for.\<close>

fun op_ok :: "buffer_op \<Rightarrow> buffer \<Rightarrow> bool" where
  "op_ok (Shrink n) b \<longleftrightarrow> readableBytes b < 2 ^ 31"
| "op_ok (ReadFd (ReadvData bs)) b \<longleftrightarrow> length bs \<le> sum_list (readv_blocks b)"
| "op_ok _ b \<longleftrightarrow> True"

lemma state_of_safe: "safe (\<lambda>(r, b'). wf_buffer b') m \<Longrightarrow> safe wf_buffer (state_of m)"
  unfolding state_of_def by (rule safe_and_then [where P = "\<lambda>(r, b'). wf_buffer b'"]) (auto intro: safe_Inr)

lemma buffer_do_safe:
  assumes "wf_buffer b" and "op_ok op b"
  shows "safe wf_buffer (buffer_do h op b)"
proof (cases op)
  case (EnsureWritable n)
  then show ?thesis using safe_mono [OF ensureWritableBytes_safe [OF assms(1)]] by simp
next
  case (ReadFd ans)
  then have "safe (\<lambda>(n, e, b'). wf_buffer b') (readFd ans b)" using assms by (intro readFd_safe) auto
  then have "safe (\<lambda>(n, b'). wf_buffer b') (and_then (readFd ans b) (\<lambda>(n, e, b'). Inr (n, b')))"
    by (rule safe_and_then) (auto intro: safe_Inr)
  then show ?thesis using ReadFd by (simp add: state_of_safe)
qed (use assms in \<open>simp_all add: retrieve_safe retrieveUntil_safe state_of_safe retrieveAsString_safe
      retrieveAllAsString_safe safe_Inr hasWritten_safe unwrite_safe buf_append_safe append_int_safe read_int_safe shrink_safe\<close>)

inductive buffer_reach :: "endian \<Rightarrow> buffer \<Rightarrow> bool" for h where
  new: "Buffer n = Inr b \<Longrightarrow> buffer_reach h b"
| call: "buffer_reach h b \<Longrightarrow> op_ok op b \<Longrightarrow> buffer_do h op b = Inr b' \<Longrightarrow> buffer_reach h b'"

lemma buffer_reach_wf: "buffer_reach h b \<Longrightarrow> wf_buffer b"
proof (induction rule: buffer_reach.induct)
  case (new n b)
  then show ?case using Buffer_safe [of n] by (simp add: safe_def)
next
  case (call b op b')
  then show ?case using buffer_do_safe [of b op h] by (simp add: safe_def)
qed

subsection \<open>Properties\<close>



end
