(* ===== verification/Lockfree_List.thy ===== *)
theory Lockfree_List
  imports Net_Prelude
begin

text \<open>
  \<^verbatim>\<open>lockfree_list\<close> of \<^verbatim>\<open>src/src/helpers/list.h\<close>: a head and a tail node and \<^verbatim>\<open>push\<close>, which inserts behind the head.
  No component uses it. Its loop has no exit, and from its second round on the new node points to itself, so
  that everything behind it is lost.
\<close>

subsection \<open>Nodes and push\<close>

text \<open>Nodes by number; \<open>fresh\<close> is the number of the next one to be allocated. The constructor leaves the values of
  head and tail as \<^verbatim>\<open>new\<close> made them.\<close>

record 'a list_nodes =
  node_val :: "nat \<Rightarrow> 'a option"
  node_next :: "nat \<Rightarrow> nat option"
  list_head :: nat
  list_tail :: nat
  fresh :: nat

definition lockfree_list :: "'a list_nodes" where
  "lockfree_list = \<lparr>node_val = (\<lambda>_. None), node_next = [0 \<mapsto> 1], list_head = 0, list_tail = 1, fresh = 2\<rparr>"

datatype push_at = PushLoad | PushLink "nat option" | PushSwap "nat option"

text \<open>One access of a thread inside \<^verbatim>\<open>push\<close> whose node is \<open>k\<close>. The compare-and-swap leads back to the load whether it
  succeeds or not.\<close>

fun list_push_step :: "nat \<Rightarrow> 'a list_nodes \<Rightarrow> push_at \<Rightarrow> 'a list_nodes \<times> push_at" where
  "list_push_step k l PushLoad = (l, PushLink (node_next l (list_head l)))"
| "list_push_step k l (PushLink old) = (l\<lparr>node_next := (node_next l)(k := old)\<rparr>, PushSwap old)"
| "list_push_step k l (PushSwap old) =
     (if node_next l (list_head l) = old then l\<lparr>node_next := (node_next l)(list_head l := Some k)\<rparr> else l, PushLoad)"

fun push_accesses :: "nat \<Rightarrow> nat \<Rightarrow> 'a list_nodes \<times> push_at \<Rightarrow> 'a list_nodes \<times> push_at" where
  "push_accesses k 0 s = s"
| "push_accesses k (Suc n) s = push_accesses k n (list_push_step k (fst s) (snd s))"

definition list_push_start :: "'a \<Rightarrow> 'a list_nodes \<Rightarrow> nat \<times> 'a list_nodes" where
  "list_push_start x l = (fresh l, l\<lparr>node_val := (node_val l)(fresh l \<mapsto> x), fresh := Suc (fresh l)\<rparr>)"

text \<open>The nodes behind the head, at most \<open>n\<close> of them.\<close>

fun walk :: "nat \<Rightarrow> 'a list_nodes \<Rightarrow> nat \<Rightarrow> nat list" where
  "walk 0 l k = []"
| "walk (Suc n) l k = (case node_next l k of None \<Rightarrow> [] | Some j \<Rightarrow> j # walk n l j)"

subsection \<open>What one thread alone does\<close>

lemma push_accesses_add: "push_accesses k (m + n) s = push_accesses k n (push_accesses k m s)"
  by (induction m arbitrary: s) simp_all

lemma first_round:
  assumes "k \<noteq> list_head l"
  shows "push_accesses k 3 (l, PushLoad)
    = (l\<lparr>node_next := (node_next l)(k := node_next l (list_head l), list_head l \<mapsto> k)\<rparr>, PushLoad)"
  using assms by (simp add: numeral_3_eq_3)

lemma later_rounds:
  assumes "k \<noteq> list_head l" and "node_next l (list_head l) = Some k"
  shows "push_accesses k (3 * Suc n) (l, PushLoad) = (l\<lparr>node_next := (node_next l)(k \<mapsto> k)\<rparr>, PushLoad)"
  using assms
proof (induction n arbitrary: l)
  case 0
  then have "(node_next l)(k \<mapsto> k, list_head l \<mapsto> k) = (node_next l)(k \<mapsto> k)" by (auto simp: fun_eq_iff)
  with first_round [OF 0(1)] 0(2) have "push_accesses k 3 (l, PushLoad) = (l\<lparr>node_next := (node_next l)(k \<mapsto> k)\<rparr>, PushLoad)"
    by (simp only:)
  then show ?case by (simp only: mult_Suc_right mult_0_right add_0_right)
next
  case (Suc n)
  let ?l = "l\<lparr>node_next := (node_next l)(k \<mapsto> k)\<rparr>"
  have "(node_next l)(k \<mapsto> k, list_head l \<mapsto> k) = (node_next l)(k \<mapsto> k)" using Suc.prems by (auto simp: fun_eq_iff)
  then have one: "push_accesses k 3 (l, PushLoad) = (?l, PushLoad)" using first_round [of k l] Suc.prems by simp
  have "push_accesses k (3 + 3 * Suc n) (l, PushLoad) = push_accesses k (3 * Suc n) (?l, PushLoad)"
    unfolding push_accesses_add one ..
  also have "\<dots> = (?l\<lparr>node_next := (node_next ?l)(k \<mapsto> k)\<rparr>, PushLoad)"
    by (rule Suc.IH) (use Suc.prems in simp_all)
  also have "(node_next ?l)(k \<mapsto> k) = (node_next l)(k \<mapsto> k)" by simp
  finally have "push_accesses k (3 + 3 * Suc n) (l, PushLoad) = (?l\<lparr>node_next := (node_next l)(k \<mapsto> k)\<rparr>, PushLoad)" .
  moreover have "?l\<lparr>node_next := (node_next l)(k \<mapsto> k)\<rparr> = ?l" by (cases l) simp
  ultimately have "push_accesses k (3 + 3 * Suc n) (l, PushLoad) = (?l, PushLoad)" by (simp only:)
  then show ?case by (simp only: mult_Suc_right)
qed

lemma walk_self: "node_next l k = Some k \<Longrightarrow> walk n l k = replicate n k"
  by (induction n) simp_all

text \<open>After two rounds and more \<^verbatim>\<open>push\<close> is still in its loop, and whoever walks the list meets the new node for
  ever; the nodes that were behind the head are gone from it.\<close>

lemma push_spins_and_loses_the_list:
  assumes "list_push_start x l = (k, l1)" and "k \<noteq> list_head l" and "2 \<le> r"
  shows "\<exists>l2. push_accesses k (3 * r) (l1, PushLoad) = (l2, PushLoad) \<and> (\<forall>n. walk n l2 (list_head l2) = replicate n k)"
proof -
  have l1: "list_head l1 = list_head l" "node_next l1 = node_next l" using assms(1) by (auto simp: list_push_start_def)
  let ?l = "l1\<lparr>node_next := (node_next l1)(k := node_next l1 (list_head l1), list_head l1 \<mapsto> k)\<rparr>"
  obtain n where r: "3 * r = 3 + 3 * Suc n" using assms(3) by (cases r; cases "r - 1") auto
  have one: "push_accesses k 3 (l1, PushLoad) = (?l, PushLoad)" using first_round [of k l1] assms(2) l1 by simp
  have "push_accesses k (3 * r) (l1, PushLoad) = (?l\<lparr>node_next := (node_next ?l)(k \<mapsto> k)\<rparr>, PushLoad)"
    unfolding r push_accesses_add one using later_rounds [of k ?l n] assms(2) l1 by simp
  moreover have "walk n (?l\<lparr>node_next := (node_next ?l)(k \<mapsto> k)\<rparr>) (list_head l1) = replicate n k" for n
    using assms(2) l1 by (cases n) (simp_all add: walk_self)
  ultimately show ?thesis by simp
qed

end
