(* ===== verification/Spec2Isabelle.thy ===== *)
theory Spec2Isabelle
  imports Net_Prelude Byte_Buffer Mpmc_Threads Event_Loop Timers Tcp_State Tcp_Connection Log_Stream
    Http_Util Tcp_Connector Async_Logger Log_Statement Tcp_Server
    Tcp_Client Tls_Connection Https_Client Inet_Addr Thread_Pool Thread_Start
    Signal_Handler Buffer_Types Lockfree_List
begin

text \<open>
  A verification of the network library under \<^verbatim>\<open>src/src\<close>: an epoll event loop with timers and
  cross-thread functors, TCP and TLS connections, servers and clients on top of it, a lock-free queue,
  a thread pool, and the loggers everything reports to.

  \<^bold>\<open>The program.\<close> A thread owns an \<^verbatim>\<open>EventLoop\<close>. The loop waits in its \<^verbatim>\<open>Poller\<close> for events of
  \<^verbatim>\<open>Channel\<close>s, runs their callbacks, and then the functors other threads put in its bounded queue
  (\<^verbatim>\<open>mpmc_bounded_Queue\<close>), who wake it through an eventfd. One channel belongs to the
  \<^verbatim>\<open>TimerQueue\<close>. A \<^verbatim>\<open>TcpConnection\<close> ties a socket's channel to \<^verbatim>\<open>Buffer\<close>s and user callbacks; a
  state word shared by all threads decides whether a send may start and when a connection may go
  away. On the server side an \<^verbatim>\<open>Acceptor\<close> takes new sockets and the \<^verbatim>\<open>TcpServer\<close> spreads them over
  the loops of an \<^verbatim>\<open>EventloopThreadPool\<close>; on the client side a \<^verbatim>\<open>Connector\<close> makes the socket and
  retries. With TLS the client runs a \<^verbatim>\<open>ssl_handshake_handler\<close> on the connected socket and then makes a
  \<^verbatim>\<open>ssl_TcpConnection\<close>; \<^verbatim>\<open>https_client\<close> sends requests through such clients. Threads start behind a
  \<^verbatim>\<open>CountDownLatch\<close>, an \<^verbatim>\<open>EventloopThread\<close> hands its loop to the thread that made it, a \<^verbatim>\<open>ThreadPool\<close>
  runs tasks from a bounded queue, and a \<^verbatim>\<open>SignalHandler\<close> turns signals into events of the loop.
  Log statements format a line in a \<^verbatim>\<open>LogStream\<close>; \<^verbatim>\<open>AsyncLogger\<close> collects lines from all
  threads and writes them to a \<^verbatim>\<open>LogFile\<close> in a thread of its own.

  \<^bold>\<open>Conventions.\<close> A C++ object is a record with the members of its class; a derived state extends the
  record of what it lives in (the event loop, the connector, the acceptor and the server extend the
  poller). Pointers to channels and timers are numbers into a heap, so that a deleted object is a
  dangling pointer. A function that can fail returns an \<open>outcome\<close>: \<open>Inl\<close> with the failed assertion,
  the bad pointer, the write outside an array, the uncaught exception, other undefined behaviour, a
  kernel answer that its documentation excludes, or \<open>NoReturn\<close>. Machine integers are words where
  wrap-around or bits matter. Code outside the repository is an argument: the answers of system calls
  are values or lists consumed one per call, clocks are functions, callbacks are functions or names
  that the argument \<open>run\<close> interprets. Concurrent components are step relations with one atomic access
  per step and free interleaving; memory is sequentially consistent there.

  \<^bold>\<open>Theories.\<close>
  \<^item> \<open>Net_Prelude\<close>: outcomes, block writes, memory images of words, flags, sequences of fallible calls.
  \<^item> \<open>Byte_Buffer\<close> (\<^verbatim>\<open>Memorys/Buffer.h\<close>, \<^verbatim>\<open>Sockets/Endian.h\<close>): the buffer is a byte queue (locale
    \<open>byte_queue\<close>) and its integer functions are codecs in network order (locale \<open>int_codec\<close>); making
    room keeps the unread bytes, \<^verbatim>\<open>readFd\<close> appends what the kernel delivers, searches find the first
    match. \<open>Buffer_Types\<close> states the class invariant as typing rules: no member function leaves the array.
  \<^item> \<open>Mpmc_Queue\<close> (\<^verbatim>\<open>helpers/queue.h\<close>): the ring buffer with sequence numbers, one access per step; run
    alone, the operations refine a bounded queue (locale \<open>bounded_fifo\<close>); \<^verbatim>\<open>push\<close> gives up.
    \<open>Mpmc_Threads\<close> runs any number of producers and consumers: values leave in the order they were
    claimed, none is lost or duplicated.
  \<^item> \<open>Channel_Poller\<close> (\<^verbatim>\<open>basics/Channel\<close>, \<^verbatim>\<open>basics/Poller\<close>): the calls of \<^verbatim>\<open>epoll_ctl\<close> keep the kernel's
    interest list equal to the masks of the channels; dispatch of events; delivery by \<^verbatim>\<open>Poll\<close>.
  \<^item> \<open>Event_Loop\<close> (\<^verbatim>\<open>EventLoop.cpp\<close>): functors of other threads run, the loop ends after a quit, a functor
    that queues itself starves it.
  \<^item> \<open>Timers\<close> (\<^verbatim>\<open>Timers/\<close>): due timers run, in order, and repeating ones are entered again; adding a timer;
    the period computed for the descriptor.
  \<^item> \<open>Tcp_State\<close> (the atomic word in \<^verbatim>\<open>TcpConnection.cpp\<close>): senders, the loop thread, shutdown and the
    release of a connection as interleaved steps; an admitted send keeps the connection, a hang-up is
    final, overlapping sends can lose a message.
  \<^item> \<open>Tcp_Connection\<close> (the rest of \<^verbatim>\<open>TcpConnection.{h,cpp}\<close>): incoming bytes reach the callback, the close
    callback runs once, a send that the socket takes whole; what short writes do.
  \<^item> \<open>Tcp_Connector\<close> (\<^verbatim>\<open>Connector.{h,cpp}\<close>): completion of a pending attempt, back-off of refused ones,
    and the abort of one that fails late.
  \<^item> \<open>Tcp_Client\<close> (\<^verbatim>\<open>TcpClient.{h,cpp}\<close>): the client over the connector; one connection per attempt, and a
    new attempt after a close when retry is enabled; over TLS, the handshake comes in between.
  \<^item> \<open>Tls_Handshake\<close>, \<open>Tls_Connection\<close> (\<^verbatim>\<open>https/ssl_handshake_handler\<close>, \<^verbatim>\<open>https/ssl_TcpConnection\<close>): the handshake
    ends with one of its two callbacks and gives the channel back; reads, writes and the hang-up over
    OpenSSL's answers, with an invariant every handler keeps (locale \<open>tls_invariant\<close>).
  \<^item> \<open>Https_Client\<close> (\<^verbatim>\<open>https/https_client\<close>): the text of a request, the client kept per URL, and the delivery of
    parsed responses to the callback.
  \<^item> \<open>Tcp_Server\<close> (\<^verbatim>\<open>EventloopThreadPool\<close>, \<^verbatim>\<open>basics/Acceptor\<close>, \<^verbatim>\<open>TcpServer\<close>): accepting a batch, names of
    connections, round robin over the loops.
  \<^item> \<open>Number_Text\<close>, \<open>Log_Stream\<close> (\<^verbatim>\<open>Loggers/LogStream\<close>): numbers in text; the stream is a bounded text sink
    (locale \<open>bounded_sink\<close>) that never leaves its array, and prints what \<^verbatim>\<open>std::stoi\<close> reads.
  \<^item> \<open>Log_Statement\<close> (\<^verbatim>\<open>Loggers/Logger\<close>): the line a statement emits, time stamps.
  \<^item> \<open>Log_File\<close> (\<^verbatim>\<open>Loggers/LogFile\<close>, \<^verbatim>\<open>Loggers/FileUtil\<close>), \<open>Async_Logger\<close> (\<^verbatim>\<open>Loggers/AsyncLogger\<close>): appending
    threads, the logging thread and a stop, interleaved; lines are written once and in order, until the
    state word loses its \<^verbatim>\<open>available\<close> flag.
  \<^item> \<open>Http_Util\<close> (\<^verbatim>\<open>https/http_util\<close>): request assembly and URL parsing.
  \<^item> \<open>Inet_Addr\<close> (\<^verbatim>\<open>Sockets/InetAddr\<close>, \<^verbatim>\<open>Sockets/SocketOps.cpp\<close>): addresses and their texts, the resolver, socket
    options and the text of the TCP statistics.
  \<^item> \<open>Thread_Pool\<close> (\<^verbatim>\<open>Threads/ThreadPool\<close>) on top of \<open>Mpmc_Threads\<close>: every accepted task runs once, and a stop
    returns after all of them have run.
  \<^item> \<open>Thread_Start\<close> (\<^verbatim>\<open>Threads/\<close>, \<^verbatim>\<open>EventloopThread.cpp\<close>): monitors and what their users do with them (locale
    \<open>monitor_client\<close>), the latch, the start of a thread, the hand-over of a loop and its races.
  \<^item> \<open>Signal_Handler\<close> (\<^verbatim>\<open>SignalHandler.cpp\<close>): a signal reaches the handler set for its number.
  \<^item> \<open>Lockfree_List\<close> (\<^verbatim>\<open>helpers/list.h\<close>): the insertion loop of a list that nothing uses.

  \<^bold>\<open>Bounds.\<close> \<open>try_push\<close> and \<open>try_pop\<close> of a thread running alone get five accesses, which
  \<open>Mpmc_Queue\<close> proves to be enough. The loop draining functors and the loop expiring timers have a bound
  that the theorems require to be at least the number of pending functors or timers. Loops around
  system calls end with the list of answers; the theorems say which answers make them return. Recursion
  on digits and all other loops are total functions. Positions of the queue wrap at their width; its
  theorems hold for runs that claim fewer than \<^verbatim>\<open>2^63\<close> positions, those of the thread pool for fewer than
  \<^verbatim>\<open>2^62\<close> accepted tasks.

  \<^bold>\<open>Not modelled.\<close> OpenSSL and llhttp, whose answers are arguments, and \<^verbatim>\<open>ssl_context\<close>, which only calls
  OpenSSL; wrappers of a single system call, whose answers are arguments of their callers; the calendar
  text of \<^verbatim>\<open>Timestamp\<close>, which nothing calls; the template \<^verbatim>\<open>WeakCallback\<close> and the macros and type traits, which have no
  behaviour of their own; the empty files of the HTTP server; vendored code and tests. Weak memory
  orderings are not modelled.
\<close>

end
